(* ===== verification/Yam_Prelude.thy ===== *)
theory Yam_Prelude
  imports Main "HOL-Library.Word"
begin

unbundle bit_operations_syntax

text \<open>
  Shared vocabulary of the YamKernel development: the fixed-width integer types of
  \<^verbatim>\<open>src/src/include/nexus/types.h\<close>, the bounded array scan that most of the
  kernel's tables are searched with, and the generic facts on scans, cardinalities and
  words that the component theories share.

  Static C arrays are total functions from the index; every access of the source is guarded
  by the array's bound, and the guards are kept in the models.
\<close>

type_synonym u8 = "8 word"
type_synonym u16 = "16 word"
type_synonym u32 = "32 word"
type_synonym u64 = "64 word"

named_theorems yam_consts \<open>the numeric constants of the kernel's headers\<close>

section \<open>Bounded array scans\<close>

text \<open>
  \<^verbatim>\<open>for (i = lo; i < n; i++) if (P(i)) return i;\<close> with \<open>None\<close> when the loop
  falls through.
\<close>

function scan :: "(nat \<Rightarrow> bool) \<Rightarrow> nat \<Rightarrow> nat \<Rightarrow> nat option" where
  "scan P i n = (if i < n then (if P i then Some i else scan P (Suc i) n) else None)"
  by pat_completeness auto
termination
  by (relation "measure (\<lambda>(P, i, n). n - i)") auto

declare scan.simps [simp del]

lemma scan_Some_iff:
  "scan P i n = Some k \<longleftrightarrow> i \<le> k \<and> k < n \<and> P k \<and> (\<forall>j. i \<le> j \<and> j < k \<longrightarrow> \<not> P j)"
proof (induction P i n rule: scan.induct)
  case (1 P i n)
  show ?case
  proof (cases "i < n \<and> \<not> P i")
    case True
    then have "scan P i n = scan P (Suc i) n"
      by (simp add: scan.simps [of P i n])
    with True 1 show ?thesis
      by (auto simp: Suc_le_eq le_less intro: Suc_lessI)
  next
    case False
    then show ?thesis
      by (auto simp: scan.simps [of P i n] intro: le_neq_implies_less)
  qed
qed

lemma scan_None_iff: "scan P i n = None \<longleftrightarrow> (\<forall>j. i \<le> j \<and> j < n \<longrightarrow> \<not> P j)"
proof (induction P i n rule: scan.induct)
  case (1 P i n)
  show ?case
  proof (cases "i < n \<and> \<not> P i")
    case True
    then have "scan P i n = scan P (Suc i) n"
      by (simp add: scan.simps [of P i n])
    moreover from True have
      "(\<forall>j. i \<le> j \<and> j < n \<longrightarrow> \<not> P j) \<longleftrightarrow> (\<forall>j. Suc i \<le> j \<and> j < n \<longrightarrow> \<not> P j)"
      by (metis Suc_leD le_neq_implies_less Suc_leI)
    ultimately show ?thesis using True 1 by simp
  next
    case False
    then show ?thesis
      by (auto simp: scan.simps [of P i n])
  qed
qed

lemma scan_SomeD:
  assumes "scan P i n = Some k"
  shows "i \<le> k" and "k < n" and "P k" and "\<And>j. i \<le> j \<Longrightarrow> j < k \<Longrightarrow> \<not> P j"
  using assms by (auto simp: scan_Some_iff)

lemma scan_cong:
  assumes "\<And>j. i \<le> j \<Longrightarrow> j < n \<Longrightarrow> P j = Q j"
  shows "scan P i n = scan Q i n"
  using assms
proof (induction P i n rule: scan.induct)
  case (1 P i n)
  then show ?case
    by (simp add: scan.simps [of P i n] scan.simps [of Q i n])
qed

section \<open>Words and indices\<close>

lemma unat_of_nat_lt: "n < 2 ^ LENGTH('a::len) \<Longrightarrow> unat (of_nat n :: 'a word) = n"
  by (simp add: unat_of_nat)

lemma of_nat_eq_iff_lt:
  "m < 2 ^ LENGTH('a::len) \<Longrightarrow> n < 2 ^ LENGTH('a) \<Longrightarrow>
    (of_nat m :: 'a word) = of_nat n \<longleftrightarrow> m = n"
  by (metis unat_of_nat_lt)

lemma word_eq_of_nat_unat: "(w :: 'a::len word) = of_nat (unat w)"
  by simp

section \<open>Intervals\<close>

lemma ivl_disjointI: "b \<le> c \<or> d \<le> a \<Longrightarrow> {a..<b} \<inter> {c..<d} = ({} :: nat set)"
  by auto

end
