(* ===== verification/Fifo.thy ===== *)
theory Fifo
  imports Yam_Prelude
begin

text \<open>
  The contract every bounded queue of the kernel promises its clients, as a locale, and
  the index arithmetic of the ring buffers that implement it.  The IPC channel rings, the
  pipe byte buffer, the TCP receive buffer and the TCP accept queue interpret
  \<open>bounded_fifo\<close> in their own theories.
\<close>

section \<open>Ring index arithmetic\<close>

text \<open>The \<open>c\<close> occupied slots of a ring of \<open>N\<close> slots, oldest first, from index \<open>h\<close>.\<close>

definition ring_contents :: "nat \<Rightarrow> (nat \<Rightarrow> 'a) \<Rightarrow> nat \<Rightarrow> nat \<Rightarrow> 'a list" where
  "ring_contents N f h c = map (\<lambda>i. f ((h + i) mod N)) [0..<c]"

lemma length_ring_contents [simp]: "length (ring_contents N f h c) = c"
  by (simp add: ring_contents_def)

lemma ring_contents_0 [simp]: "ring_contents N f h 0 = []"
  by (simp add: ring_contents_def)

lemma ring_index_inj:
  assumes "i < N" "j < N" "((h :: nat) + i) mod N = (h + j) mod N"
  shows "i = j"
proof -
  have "(int h + int i) mod int N = (int h + int j) mod int N"
    using assms(3) by (metis of_nat_add of_nat_mod)
  then have "int i mod int N = int j mod int N"
    by (metis add_diff_cancel_left' mod_diff_cong mod_mod_trivial)
  with assms(1,2) show ?thesis by simp
qed

text \<open>Writing the slot after the last occupied one appends.\<close>

lemma ring_contents_push:
  assumes "c < N"
  shows "ring_contents N (f((h + c) mod N := x)) h (Suc c) = ring_contents N f h c @ [x]"
proof -
  have "\<And>i. i < c \<Longrightarrow> (h + i) mod N \<noteq> (h + c) mod N"
    using ring_index_inj [of _ N c h] assms by (metis less_trans less_irrefl)
  then show ?thesis
    by (simp add: ring_contents_def)
qed

text \<open>Dropping the oldest slot removes the head.\<close>

lemma ring_contents_pop:
  assumes "0 < c"
  shows "ring_contents N f h c = f (h mod N) # ring_contents N f ((h + 1) mod N) (c - 1)"
proof -
  obtain c' where c: "c = Suc c'" using assms by (cases c) auto
  have "[0..<Suc c'] = 0 # map Suc [0..<c']"
    by (simp add: map_Suc_upt upt_conv_Cons del: upt_Suc)
  then show ?thesis
    by (simp add: ring_contents_def c mod_simps add.assoc del: upt_Suc)
qed

lemma ring_tail_pop: "0 < c \<Longrightarrow> ((h + 1) mod N + (c - 1)) mod N = (h + c) mod (N :: nat)"
  by (cases c) (simp_all add: mod_simps)

lemma ring_contents_cong:
  assumes "\<And>i. i < c \<Longrightarrow> f ((h + i) mod N) = g ((h + i) mod N)"
  shows "ring_contents N f h c = ring_contents N g h c"
  using assms by (simp add: ring_contents_def)

section \<open>The bounded queue contract\<close>

datatype 'a fifo_op = Put 'a | Get

text \<open>
  A client's run: the values the queue accepted, the values it delivered, and the final
  state.  A rejected \<open>Put\<close> and a \<open>Get\<close> on the empty queue leave no trace.
\<close>

fun fifo_run :: "('a \<Rightarrow> 's \<Rightarrow> 's option) \<Rightarrow> ('s \<Rightarrow> ('a \<times> 's) option) \<Rightarrow> 's \<Rightarrow> 'a fifo_op list
    \<Rightarrow> 'a list \<times> 'a list \<times> 's" where
  "fifo_run put get s [] = ([], [], s)"
| "fifo_run put get s (Put x # ops) =
     (case put x s of
        None \<Rightarrow> fifo_run put get s ops
      | Some s' \<Rightarrow> (case fifo_run put get s' ops of (acc, del, t) \<Rightarrow> (x # acc, del, t)))"
| "fifo_run put get s (Get # ops) =
     (case get s of
        None \<Rightarrow> fifo_run put get s ops
      | Some (x, s') \<Rightarrow> (case fifo_run put get s' ops of (acc, del, t) \<Rightarrow> (acc, x # del, t)))"

locale bounded_fifo =
  fixes put :: "'a \<Rightarrow> 's \<Rightarrow> 's option"
    and get :: "'s \<Rightarrow> ('a \<times> 's) option"
    and contents :: "'s \<Rightarrow> 'a list"
    and invar :: "'s \<Rightarrow> bool"
    and admissible :: "'a \<Rightarrow> bool"
    and capacity :: nat
  assumes contents_bounded: "invar s \<Longrightarrow> length (contents s) \<le> capacity"
    and put_refused: "invar s \<Longrightarrow> \<not> admissible x \<or> length (contents s) = capacity \<Longrightarrow> put x s = None"
    and put_accepted: "invar s \<Longrightarrow> admissible x \<Longrightarrow> length (contents s) < capacity \<Longrightarrow>
      \<exists>s'. put x s = Some s' \<and> invar s' \<and> contents s' = contents s @ [x]"
    and get_empty: "invar s \<Longrightarrow> contents s = [] \<Longrightarrow> get s = None"
    and get_head: "invar s \<Longrightarrow> contents s = x # xs \<Longrightarrow>
      \<exists>s'. get s = Some (x, s') \<and> invar s' \<and> contents s' = xs"
begin

lemma put_SomeD:
  assumes "invar s" "put x s = Some s'"
  shows "invar s' \<and> contents s' = contents s @ [x] \<and> admissible x"
proof -
  have "admissible x \<and> length (contents s) < capacity"
    using assms put_refused [of s x] contents_bounded [of s] by fastforce
  with put_accepted [of s x] assms show ?thesis by auto
qed

lemma get_SomeD:
  assumes "invar s" "get s = Some (x, s')"
  shows "invar s' \<and> contents s = x # contents s'"
proof (cases "contents s")
  case Nil
  with get_empty assms show ?thesis by auto
next
  case (Cons y ys)
  with get_head [of s y ys] assms show ?thesis by auto
qed

text \<open>
  What a client observes of any interleaving of puts and gets: what was queued at the
  start followed by what was accepted is what was delivered followed by what is queued at
  the end.  Nothing is lost, duplicated, invented or reordered.
\<close>

lemma run_in_order_aux:
  "invar s \<Longrightarrow> fifo_run put get s ops = (acc, del, t) \<Longrightarrow>
    invar t \<and> contents s @ acc = del @ contents t"
proof (induction ops arbitrary: s acc del t)
  case Nil
  then show ?case by simp
next
  case (Cons oper ops)
  show ?case
  proof (cases oper)
    case (Put x)
    show ?thesis
    proof (cases "put x s")
      case None
      with Put Cons show ?thesis by simp
    next
      case (Some s')
      obtain acc' del' t' where r: "fifo_run put get s' ops = (acc', del', t')"
        by (metis prod_cases3)
      with put_SomeD [OF Cons.prems(1) Some] Cons.IH [OF _ r] Cons.prems(2) Put Some
      show ?thesis by auto
    qed
  next
    case Get
    show ?thesis
    proof (cases "get s")
      case None
      with Get Cons show ?thesis by simp
    next
      case (Some p)
      then obtain x s' where p: "get s = Some (x, s')" by (cases p) auto
      obtain acc' del' t' where r: "fifo_run put get s' ops = (acc', del', t')"
        by (metis prod_cases3)
      with get_SomeD [OF Cons.prems(1) p] Cons.IH [OF _ r] Cons.prems(2) Get p
      show ?thesis by auto
    qed
  qed
qed

lemmas run_invar = run_in_order_aux [THEN conjunct1]
lemmas run_in_order = run_in_order_aux [THEN conjunct2]

lemma run_bounded:
  assumes "invar s" "fifo_run put get s ops = (acc, del, t)"
  shows "length (contents s) + length acc \<le> length del + capacity"
  using run_in_order [OF assms] contents_bounded [OF run_invar [OF assms]]
  by (metis add_le_cancel_left length_append)

end

end
