(* ===== verification/YamGraph.thy ===== *)
theory YamGraph
  imports Yam_Prelude
begin

text \<open>
  The resource graph of \<^verbatim>\<open>src/src/nexus/graph.c\<close> and the capability manager of
  \<^verbatim>\<open>src/src/nexus/capability.c\<close> that is built on it.  The static pools are functions
  of the index, the adjacency lists (only ever pushed at the front) are lists, identifiers
  and permission masks are words of the source's width.  A returned \<open>-1\<close> is the source's
  \<^verbatim>\<open>(yam_node_id_t)-1\<close>.
\<close>

section \<open>Types\<close>

type_synonym yam_node_id = u64
type_synonym yam_edge_id = u64
type_synonym yam_perm = u32

definition YAM_PERM_READ :: yam_perm where [yam_consts]: "YAM_PERM_READ = 1"
definition YAM_PERM_WRITE :: yam_perm where [yam_consts]: "YAM_PERM_WRITE = 2"
definition YAM_PERM_EXEC :: yam_perm where [yam_consts]: "YAM_PERM_EXEC = 4"
definition YAM_PERM_DELEGATE :: yam_perm where [yam_consts]: "YAM_PERM_DELEGATE = 8"
definition YAM_PERM_ALL :: yam_perm where [yam_consts]: "YAM_PERM_ALL = 0x7F"

datatype yam_node_type = YAM_NODE_TASK | YAM_NODE_MEMORY | YAM_NODE_DEVICE | YAM_NODE_FILE
  | YAM_NODE_CHANNEL | YAM_NODE_IRQ | YAM_NODE_NAMESPACE

datatype yam_edge_type = YAM_EDGE_OWNS | YAM_EDGE_CAPABILITY | YAM_EDGE_CHANNEL | YAM_EDGE_MAPS
  | YAM_EDGE_DEPENDS

text \<open>The \<^verbatim>\<open>void *data\<close> of a node: \<open>NULL\<close>, a slot of the channel pool, or any other address.\<close>

datatype yam_data = Data_NULL | Data_channel nat | Data_ptr u64

record yam_adj =
  adj_edge_id :: yam_edge_id
  adj_target :: yam_node_id

record yam_node =
  n_id :: yam_node_id
  n_type :: yam_node_type
  n_alive :: bool
  n_name :: "string option"
  n_data :: yam_data
  n_out :: "yam_adj list"
  n_in :: "yam_adj list"
  n_ref :: u32

record yam_edge =
  e_id :: yam_edge_id
  e_type :: yam_edge_type
  e_source :: yam_node_id
  e_target :: yam_node_id
  e_perms :: yam_perm
  e_gen :: u32
  e_alive :: bool

record yamgraph =
  nodes :: "nat \<Rightarrow> yam_node"
  edges :: "nat \<Rightarrow> yam_edge"
  next_node_id :: nat
  next_edge_id :: nat
  active_nodes :: u32
  active_edges :: u32
  generation :: u32
  adj_pool_next :: nat

definition YAMGRAPH_MAX_NODES :: nat where [yam_consts]: "YAMGRAPH_MAX_NODES = 4096"
definition YAMGRAPH_MAX_EDGES :: nat where [yam_consts]: "YAMGRAPH_MAX_EDGES = 8192"
definition ADJ_POOL_SIZE :: nat where [yam_consts]: "ADJ_POOL_SIZE = 16384"

section \<open>Operations of graph.c\<close>

definition zero_node :: yam_node where
  "zero_node = \<lparr> n_id = 0, n_type = YAM_NODE_TASK, n_alive = False, n_name = None,
     n_data = Data_NULL, n_out = [], n_in = [], n_ref = 0 \<rparr>"

definition zero_edge :: yam_edge where
  "zero_edge = \<lparr> e_id = 0, e_type = YAM_EDGE_OWNS, e_source = 0, e_target = 0, e_perms = 0,
     e_gen = 0, e_alive = False \<rparr>"

definition upd_node :: "nat \<Rightarrow> (yam_node \<Rightarrow> yam_node) \<Rightarrow> yamgraph \<Rightarrow> yamgraph" where
  "upd_node i f g = g\<lparr> nodes := (nodes g)(i := f (nodes g i)) \<rparr>"

definition adj_alloc :: "yamgraph \<Rightarrow> yamgraph option" where
  "adj_alloc g = (if adj_pool_next g \<ge> ADJ_POOL_SIZE then None
     else Some (g\<lparr> adj_pool_next := Suc (adj_pool_next g) \<rparr>))"

text \<open>Initialisation does not reset the generation counter.\<close>

definition yamgraph_init :: "yamgraph \<Rightarrow> yamgraph" where
  "yamgraph_init g =
     g\<lparr> nodes := (\<lambda>i. zero_node)(0 := \<lparr> n_id = 0, n_type = YAM_NODE_NAMESPACE, n_alive = True,
          n_name = Some ''kernel'', n_data = Data_NULL, n_out = [], n_in = [], n_ref = 1 \<rparr>),
        edges := \<lambda>k. zero_edge, next_node_id := 1, next_edge_id := 1,
        active_nodes := 1, active_edges := 0, adj_pool_next := 0 \<rparr>"

definition yamgraph_node_create ::
  "yam_node_type \<Rightarrow> string option \<Rightarrow> yam_data \<Rightarrow> yamgraph \<Rightarrow> yam_node_id \<times> yamgraph" where
  "yamgraph_node_create ty name data g =
     (if next_node_id g \<ge> YAMGRAPH_MAX_NODES then (- 1, g)
      else let i = next_node_id g in
        (of_nat i,
         g\<lparr> next_node_id := Suc i,
            nodes := (nodes g)(i := \<lparr> n_id = of_nat i, n_type = ty, n_alive = True, n_name = name,
              n_data = data, n_out = [], n_in = [], n_ref = 1 \<rparr>),
            active_nodes := active_nodes g + 1 \<rparr>))"

definition yamgraph_node_get :: "yam_node_id \<Rightarrow> yamgraph \<Rightarrow> yam_node option" where
  "yamgraph_node_get nid g =
     (if unat nid \<ge> YAMGRAPH_MAX_NODES then None
      else let n = nodes g (unat nid) in if n_alive n then Some n else None)"

definition yamgraph_edge_get :: "yam_edge_id \<Rightarrow> yamgraph \<Rightarrow> yam_edge option" where
  "yamgraph_edge_get eid g =
     (if unat eid \<ge> YAMGRAPH_MAX_EDGES then None
      else if e_alive (edges g (unat eid)) then Some (edges g (unat eid)) else None)"

definition yamgraph_edge_revoke :: "yam_edge_id \<Rightarrow> yamgraph \<Rightarrow> bool \<times> yamgraph" where
  "yamgraph_edge_revoke eid g =
     (if unat eid \<ge> YAMGRAPH_MAX_EDGES then (False, g)
      else let e = edges g (unat eid) in
        if \<not> e_alive e then (False, g)
        else let g1 = g\<lparr> edges := (edges g)(unat eid := e\<lparr> e_alive := False \<rparr>),
                         active_edges := active_edges g - 1 \<rparr>
          in (True,
              case yamgraph_node_get (e_target e) g1 of
                None \<Rightarrow> g1
              | Some t \<Rightarrow> if n_ref t > 0
                  then upd_node (unat (e_target e)) (\<lambda>n. n\<lparr> n_ref := n_ref n - 1 \<rparr>) g1
                  else g1))"

definition revoke_adjs :: "yam_adj list \<Rightarrow> yamgraph \<Rightarrow> yamgraph" where
  "revoke_adjs as g = fold (\<lambda>a g. snd (yamgraph_edge_revoke (adj_edge_id a) g)) as g"

definition yamgraph_node_destroy :: "yam_node_id \<Rightarrow> yamgraph \<Rightarrow> bool \<times> yamgraph" where
  "yamgraph_node_destroy nid g =
     (case yamgraph_node_get nid g of
        None \<Rightarrow> (False, g)
      | Some n \<Rightarrow>
          if nid = 0 then (False, g)
          else let g1 = revoke_adjs (n_out n) g;
                   g2 = upd_node (unat nid) (\<lambda>n. n\<lparr> n_alive := False \<rparr>) g1
            in (True, g2\<lparr> active_nodes := active_nodes g2 - 1 \<rparr>))"

definition yamgraph_find_node_by_name :: "string option \<Rightarrow> yamgraph \<Rightarrow> yam_node_id" where
  "yamgraph_find_node_by_name name g =
     (case name of
        None \<Rightarrow> - 1
      | Some s \<Rightarrow>
          (case scan (\<lambda>i. n_alive (nodes g i) \<and> n_name (nodes g i) = Some s) 0 YAMGRAPH_MAX_NODES of
             None \<Rightarrow> - 1
           | Some i \<Rightarrow> n_id (nodes g i)))"

definition push_out :: "yam_node_id \<Rightarrow> yam_adj \<Rightarrow> yamgraph \<Rightarrow> yamgraph" where
  "push_out i a g =
     (case adj_alloc g of
        None \<Rightarrow> g
      | Some g' \<Rightarrow> upd_node (unat i) (\<lambda>n. n\<lparr> n_out := a # n_out n \<rparr>) g')"

definition push_in :: "yam_node_id \<Rightarrow> yam_adj \<Rightarrow> yamgraph \<Rightarrow> yamgraph" where
  "push_in i a g =
     (case adj_alloc g of
        None \<Rightarrow> g
      | Some g' \<Rightarrow> upd_node (unat i) (\<lambda>n. n\<lparr> n_in := a # n_in n \<rparr>) g')"

definition yamgraph_edge_link ::
  "yam_node_id \<Rightarrow> yam_node_id \<Rightarrow> yam_edge_type \<Rightarrow> yam_perm \<Rightarrow> yamgraph \<Rightarrow> yam_edge_id \<times> yamgraph"
where
  "yamgraph_edge_link src dst ty perms g =
     (if yamgraph_node_get src g = None \<or> yamgraph_node_get dst g = None then (- 1, g)
      else if next_edge_id g \<ge> YAMGRAPH_MAX_EDGES then (- 1, g)
      else let k = next_edge_id g;
               g1 = g\<lparr> next_edge_id := Suc k,
                       edges := (edges g)(k := \<lparr> e_id = of_nat k, e_type = ty, e_source = src,
                         e_target = dst, e_perms = perms, e_gen = generation g, e_alive = True \<rparr>),
                       generation := generation g + 1,
                       active_edges := active_edges g + 1 \<rparr>;
               g2 = push_out src \<lparr> adj_edge_id = of_nat k, adj_target = dst \<rparr> g1;
               g3 = push_in dst \<lparr> adj_edge_id = of_nat k, adj_target = src \<rparr> g2
        in (of_nat k, upd_node (unat dst) (\<lambda>n. n\<lparr> n_ref := n_ref n + 1 \<rparr>) g3))"

definition yamgraph_has_permission ::
  "yam_node_id \<Rightarrow> yam_node_id \<Rightarrow> yam_perm \<Rightarrow> yamgraph \<Rightarrow> bool" where
  "yamgraph_has_permission src dst perm g =
     (case yamgraph_node_get src g of
        None \<Rightarrow> False
      | Some n \<Rightarrow>
          list_ex (\<lambda>a. case yamgraph_edge_get (adj_edge_id a) g of
              None \<Rightarrow> False
            | Some e \<Rightarrow> e_target e = dst \<and> (e_perms e AND perm) = perm) (n_out n)
          \<or> src = 0)"

text \<open>The walks hand each live edge and its live far end to a callback that threads a context.\<close>

definition walk_adjs ::
  "yamgraph \<Rightarrow> (yam_node \<Rightarrow> yam_edge \<Rightarrow> 'c \<Rightarrow> 'c) \<Rightarrow> yam_adj list \<Rightarrow> 'c \<Rightarrow> 'c" where
  "walk_adjs g fn as ctx =
     fold (\<lambda>a c. case (yamgraph_edge_get (adj_edge_id a) g, yamgraph_node_get (adj_target a) g) of
         (Some e, Some n) \<Rightarrow> fn n e c
       | _ \<Rightarrow> c) as ctx"

definition yamgraph_walk_outgoing ::
  "yam_node_id \<Rightarrow> (yam_node \<Rightarrow> yam_edge \<Rightarrow> 'c \<Rightarrow> 'c) \<Rightarrow> 'c \<Rightarrow> yamgraph \<Rightarrow> 'c" where
  "yamgraph_walk_outgoing nid fn ctx g =
     (case yamgraph_node_get nid g of None \<Rightarrow> ctx | Some n \<Rightarrow> walk_adjs g fn (n_out n) ctx)"

definition yamgraph_walk_incoming ::
  "yam_node_id \<Rightarrow> (yam_node \<Rightarrow> yam_edge \<Rightarrow> 'c \<Rightarrow> 'c) \<Rightarrow> 'c \<Rightarrow> yamgraph \<Rightarrow> 'c" where
  "yamgraph_walk_incoming nid fn ctx g =
     (case yamgraph_node_get nid g of None \<Rightarrow> ctx | Some n \<Rightarrow> walk_adjs g fn (n_in n) ctx)"

definition yamgraph_node_count :: "yamgraph \<Rightarrow> u32" where
  "yamgraph_node_count g = active_nodes g"

definition yamgraph_edge_count :: "yamgraph \<Rightarrow> u32" where
  "yamgraph_edge_count g = active_edges g"

text \<open>The boot-time self-test: the six PASS conditions it prints, and the graph it leaves.\<close>

definition yamgraph_self_test :: "yamgraph \<Rightarrow> bool list \<times> yamgraph" where
  "yamgraph_self_test g =
     (let base_nodes = yamgraph_node_count g; base_edges = yamgraph_edge_count g;
          (task1, g) = yamgraph_node_create YAM_NODE_TASK (Some ''init'') Data_NULL g;
          (mem1, g) = yamgraph_node_create YAM_NODE_MEMORY (Some ''heap0'') Data_NULL g;
          (dev1, g) = yamgraph_node_create YAM_NODE_DEVICE (Some ''serial0'') Data_NULL g;
          (chan1, g) = yamgraph_node_create YAM_NODE_CHANNEL (Some ''ipc0'') Data_NULL g;
          t1 = (task1 \<noteq> - 1 \<and> mem1 \<noteq> - 1 \<and> dev1 \<noteq> - 1 \<and> chan1 \<noteq> - 1 \<and>
                yamgraph_node_count g = base_nodes + 4);
          (e1, g) = yamgraph_edge_link task1 mem1 YAM_EDGE_OWNS YAM_PERM_ALL g;
          (e2, g) = yamgraph_edge_link task1 dev1 YAM_EDGE_CAPABILITY
                      (YAM_PERM_READ OR YAM_PERM_WRITE) g;
          (e3, g) = yamgraph_edge_link task1 chan1 YAM_EDGE_CHANNEL
                      (YAM_PERM_READ OR YAM_PERM_WRITE) g;
          t2 = (e1 \<noteq> - 1 \<and> e2 \<noteq> - 1 \<and> e3 \<noteq> - 1 \<and> yamgraph_edge_count g = base_edges + 3);
          has_rw = yamgraph_has_permission task1 dev1 (YAM_PERM_READ OR YAM_PERM_WRITE) g;
          has_x = yamgraph_has_permission task1 dev1 YAM_PERM_EXEC g;
          (r, g) = yamgraph_edge_revoke e2 g;
          still_has = yamgraph_has_permission task1 dev1 YAM_PERM_READ g;
          walk_count = (case yamgraph_node_get task1 g of
              None \<Rightarrow> 0
            | Some n \<Rightarrow> length (filter (\<lambda>a. yamgraph_edge_get (adj_edge_id a) g \<noteq> None) (n_out n)));
          (d, g) = yamgraph_node_destroy chan1 g
      in ([t1, t2, has_rw \<and> \<not> has_x, \<not> still_has, walk_count = (2::nat),
           yamgraph_node_get chan1 g = None], g))"

section \<open>Operations of capability.c\<close>

record yam_capability =
  cap_edge_id :: yam_edge_id
  cap_holder :: yam_node_id
  cap_target :: yam_node_id
  cap_perms :: yam_perm
  cap_generation :: u32

definition zero_capability :: yam_capability where
  "zero_capability = \<lparr> cap_edge_id = 0, cap_holder = 0, cap_target = 0, cap_perms = 0,
     cap_generation = 0 \<rparr>"

definition cap_create ::
  "yam_node_id \<Rightarrow> yam_node_id \<Rightarrow> yam_perm \<Rightarrow> yamgraph \<Rightarrow> yam_capability \<times> yamgraph" where
  "cap_create holder target perms g =
     (case yamgraph_edge_link holder target YAM_EDGE_CAPABILITY perms g of (ed, g') \<Rightarrow>
        if ed = - 1 then (zero_capability\<lparr> cap_edge_id := - 1 \<rparr>, g')
        else (\<lparr> cap_edge_id = ed, cap_holder = holder, cap_target = target, cap_perms = perms,
                cap_generation = (case yamgraph_edge_get ed g' of None \<Rightarrow> 0 | Some e \<Rightarrow> e_gen e) \<rparr>,
              g'))"

definition cap_delegate ::
  "yam_capability \<Rightarrow> yam_node_id \<Rightarrow> yam_perm \<Rightarrow> yamgraph \<Rightarrow> yam_capability \<times> yamgraph" where
  "cap_delegate cap new_holder pmask g =
     (if (cap_perms cap AND YAM_PERM_DELEGATE) = 0
      then (zero_capability\<lparr> cap_edge_id := - 1 \<rparr>, g)
      else cap_create new_holder (cap_target cap) (cap_perms cap AND pmask) g)"

definition cap_is_valid :: "yam_capability \<Rightarrow> yamgraph \<Rightarrow> bool" where
  "cap_is_valid cap g =
     (if cap_edge_id cap = - 1 then False
      else case yamgraph_edge_get (cap_edge_id cap) g of
        None \<Rightarrow> False
      | Some e \<Rightarrow> e_gen e = cap_generation cap)"

definition cap_revoke :: "yam_capability \<Rightarrow> yamgraph \<Rightarrow> bool \<times> yamgraph" where
  "cap_revoke cap g =
     (if \<not> cap_is_valid cap g then (False, g) else yamgraph_edge_revoke (cap_edge_id cap) g)"

definition cap_check :: "yam_capability \<Rightarrow> yam_perm \<Rightarrow> yamgraph \<Rightarrow> bool" where
  "cap_check cap perm g =
     (if \<not> cap_is_valid cap g then False else (cap_perms cap AND perm) = perm)"

section \<open>Well-formedness\<close>

definition live_nodes :: "yamgraph \<Rightarrow> nat set" where
  "live_nodes g = {i. n_alive (nodes g i)}"

definition live_edges :: "yamgraph \<Rightarrow> nat set" where
  "live_edges g = {k. e_alive (edges g k)}"

definition live_into :: "yamgraph \<Rightarrow> nat \<Rightarrow> nat set" where
  "live_into g i = {k \<in> live_edges g. unat (e_target (edges g k)) = i}"

definition wf_bounds :: "yamgraph \<Rightarrow> bool" where
  "wf_bounds g \<longleftrightarrow> 1 \<le> next_node_id g \<and> next_node_id g \<le> YAMGRAPH_MAX_NODES
     \<and> 1 \<le> next_edge_id g \<and> next_edge_id g \<le> YAMGRAPH_MAX_EDGES
     \<and> adj_pool_next g = 2 * (next_edge_id g - 1)"

definition wf_nodes :: "yamgraph \<Rightarrow> bool" where
  "wf_nodes g \<longleftrightarrow> n_alive (nodes g 0)
     \<and> (\<forall>i. n_alive (nodes g i) \<longrightarrow> i < next_node_id g \<and> unat (n_id (nodes g i)) = i)"

definition wf_edges :: "yamgraph \<Rightarrow> bool" where
  "wf_edges g \<longleftrightarrow> (\<forall>k. e_alive (edges g k) \<longrightarrow> 1 \<le> k \<and> k < next_edge_id g
     \<and> unat (e_id (edges g k)) = k
     \<and> n_alive (nodes g (unat (e_source (edges g k))))
     \<and> unat (e_target (edges g k)) < next_node_id g)"

text \<open>The adjacency lists of a live node list exactly its edges, each once (live or revoked).\<close>

definition adj_ok :: "yamgraph \<Rightarrow> nat \<Rightarrow> bool" where
  "adj_ok g i \<longleftrightarrow>
     (\<forall>a\<in>set (n_out (nodes g i)). unat (adj_edge_id a) < next_edge_id g
        \<and> unat (e_source (edges g (unat (adj_edge_id a)))) = i
        \<and> e_target (edges g (unat (adj_edge_id a))) = adj_target a)
     \<and> (\<forall>a\<in>set (n_in (nodes g i)). unat (adj_edge_id a) < next_edge_id g
        \<and> unat (e_target (edges g (unat (adj_edge_id a)))) = i
        \<and> e_source (edges g (unat (adj_edge_id a))) = adj_target a)
     \<and> distinct (map adj_edge_id (n_out (nodes g i)))
     \<and> distinct (map adj_edge_id (n_in (nodes g i)))"

definition wf_adj :: "yamgraph \<Rightarrow> bool" where
  "wf_adj g \<longleftrightarrow> (\<forall>i. n_alive (nodes g i) \<longrightarrow> adj_ok g i)"

definition wf_listed :: "yamgraph \<Rightarrow> bool" where
  "wf_listed g \<longleftrightarrow> (\<forall>k. e_alive (edges g k) \<longrightarrow>
     of_nat k \<in> adj_edge_id ` set (n_out (nodes g (unat (e_source (edges g k)))))
     \<and> (n_alive (nodes g (unat (e_target (edges g k)))) \<longrightarrow>
        of_nat k \<in> adj_edge_id ` set (n_in (nodes g (unat (e_target (edges g k)))))))"

definition wf_counts :: "yamgraph \<Rightarrow> bool" where
  "wf_counts g \<longleftrightarrow> unat (active_nodes g) = card (live_nodes g)
     \<and> unat (active_edges g) = card (live_edges g)"

definition wf_refs :: "yamgraph \<Rightarrow> bool" where
  "wf_refs g \<longleftrightarrow> (\<forall>i. n_alive (nodes g i) \<longrightarrow> unat (n_ref (nodes g i)) = Suc (card (live_into g i)))"

definition graph_wf :: "yamgraph \<Rightarrow> bool" where
  "graph_wf g \<longleftrightarrow> wf_bounds g \<and> wf_nodes g \<and> wf_edges g \<and> wf_adj g \<and> wf_listed g
     \<and> wf_counts g \<and> wf_refs g"

lemmas graph_wf_defs = wf_bounds_def wf_nodes_def wf_edges_def wf_adj_def adj_ok_def
  wf_listed_def wf_counts_def wf_refs_def

lemma in_live_nodes [simp]: "i \<in> live_nodes g \<longleftrightarrow> n_alive (nodes g i)"
  by (simp add: live_nodes_def)

lemma in_live_edges [simp]: "k \<in> live_edges g \<longleftrightarrow> e_alive (edges g k)"
  by (simp add: live_edges_def)

lemma graph_wfD:
  assumes "graph_wf g"
  shows "wf_bounds g" "wf_nodes g" "wf_edges g" "wf_adj g" "wf_listed g" "wf_counts g" "wf_refs g"
  using assms by (simp_all add: graph_wf_def)

lemma live_edges_subset: "graph_wf g \<Longrightarrow> live_edges g \<subseteq> {1..<next_edge_id g}"
  by (auto simp: graph_wf_def wf_edges_def Suc_le_eq)

lemma live_nodes_subset: "graph_wf g \<Longrightarrow> live_nodes g \<subseteq> {0..<next_node_id g}"
  by (auto simp: graph_wf_def wf_nodes_def)

lemma finite_live [simp]:
  assumes "graph_wf g"
  shows "finite (live_edges g)" "finite (live_nodes g)" "finite (live_into g i)"
proof -
  show e: "finite (live_edges g)"
    by (rule finite_subset [OF live_edges_subset [OF assms]]) simp
  show "finite (live_nodes g)"
    by (rule finite_subset [OF live_nodes_subset [OF assms]]) simp
  show "finite (live_into g i)"
    by (rule finite_subset [OF _ e]) (auto simp: live_into_def)
qed

lemma card_live:
  assumes "graph_wf g"
  shows "card (live_edges g) < next_edge_id g" "card (live_nodes g) \<le> next_node_id g"
    "card (live_into g i) \<le> card (live_edges g)"
proof -
  have "card (live_edges g) \<le> next_edge_id g - 1"
    using card_mono [OF _ live_edges_subset [OF assms]] by simp
  then show "card (live_edges g) < next_edge_id g"
    using assms by (auto simp: graph_wf_def wf_bounds_def)
  show "card (live_nodes g) \<le> next_node_id g"
    using card_mono [OF _ live_nodes_subset [OF assms]] by simp
  show "card (live_into g i) \<le> card (live_edges g)"
    using assms by (auto intro!: card_mono simp: live_into_def)
qed

lemma node_get_Some_iff:
  "yamgraph_node_get i g = Some n \<longleftrightarrow>
     unat i < YAMGRAPH_MAX_NODES \<and> n_alive (nodes g (unat i)) \<and> n = nodes g (unat i)"
  by (auto simp: yamgraph_node_get_def Let_def)

lemma edge_get_Some_iff:
  "yamgraph_edge_get k g = Some e \<longleftrightarrow>
     unat k < YAMGRAPH_MAX_EDGES \<and> e_alive (edges g (unat k)) \<and> e = edges g (unat k)"
  by (auto simp: yamgraph_edge_get_def Let_def)

lemma node_alive_lt: "graph_wf g \<Longrightarrow> n_alive (nodes g i) \<Longrightarrow> i < YAMGRAPH_MAX_NODES"
  by (fastforce simp: graph_wf_def wf_bounds_def wf_nodes_def)

lemma edge_alive_lt: "graph_wf g \<Longrightarrow> e_alive (edges g k) \<Longrightarrow> k < YAMGRAPH_MAX_EDGES"
  by (fastforce simp: graph_wf_def wf_bounds_def wf_edges_def)

subsection \<open>Initialisation\<close>

lemma graph_wf_init: "graph_wf (yamgraph_init g)"
proof -
  have n: "live_nodes (yamgraph_init g) = {0}"
    by (auto simp: live_nodes_def yamgraph_init_def zero_node_def)
  have e: "live_edges (yamgraph_init g) = {}"
    by (auto simp: live_edges_def yamgraph_init_def zero_edge_def)
  have "live_into (yamgraph_init g) i = {}" for i
    by (simp add: live_into_def e)
  then show ?thesis
    unfolding graph_wf_def graph_wf_defs n e
    by (simp add: yamgraph_init_def yam_consts zero_edge_def zero_node_def)
qed

subsection \<open>Creating a node\<close>

lemma unat_inc:
  "unat (w :: 'a::len word) = n \<Longrightarrow> Suc n < 2 ^ LENGTH('a) \<Longrightarrow> unat (w + 1) = Suc n"
  by (metis Suc_eq_plus1 unat_of_nat_lt of_nat_Suc add.commute word_eq_of_nat_unat)

lemma unat_dec:
  "unat (w :: 'a::len word) = Suc n \<Longrightarrow> unat (w - 1) = n"
  by (metis diff_Suc_1 unat_eq_zero unat_minus_one nat.distinct(1))

lemma graph_wf_node_create:
  assumes wf: "graph_wf g"
  shows "graph_wf (snd (yamgraph_node_create ty name data g))"
proof (cases "next_node_id g \<ge> YAMGRAPH_MAX_NODES")
  case True
  then show ?thesis using wf by (simp add: yamgraph_node_create_def Let_def)
next
  case False
  let ?i = "next_node_id g" and ?g = "snd (yamgraph_node_create ty name data g)"
  have dead: "\<not> n_alive (nodes g ?i)"
    using wf by (auto simp: graph_wf_def wf_nodes_def)
  have n: "live_nodes ?g = insert ?i (live_nodes g)"
    using False by (auto simp: yamgraph_node_create_def Let_def live_nodes_def)
  have e: "live_edges ?g = live_edges g" "edges ?g = edges g" "next_edge_id ?g = next_edge_id g"
    "adj_pool_next ?g = adj_pool_next g" "active_edges ?g = active_edges g"
    "next_node_id ?g = Suc ?i" "active_nodes ?g = active_nodes g + 1"
    using False by (auto simp: yamgraph_node_create_def Let_def live_edges_def)
  have i: "live_into ?g = live_into g"
    by (rule ext) (simp add: live_into_def e)
  have old: "nodes ?g j = nodes g j" if "j \<noteq> ?i" for j
    using False that by (simp add: yamgraph_node_create_def Let_def)
  have new: "nodes ?g ?i = \<lparr> n_id = of_nat ?i, n_type = ty, n_alive = True, n_name = name,
              n_data = data, n_out = [], n_in = [], n_ref = 1 \<rparr>"
    using False by (simp add: yamgraph_node_create_def Let_def)
  have lt: "?i < 4096" "unat (of_nat ?i :: u64) = ?i"
    using False by (auto simp: yam_consts unat_of_nat_lt)
  have no_in: "live_into g ?i = {}"
    using wf by (auto simp: live_into_def graph_wf_def wf_edges_def)
  note W = graph_wfD [OF wf]
  have "wf_bounds ?g" using W(1) lt by (simp add: wf_bounds_def e yam_consts)
  moreover have "wf_nodes ?g"
    using W(2) lt dead unfolding wf_nodes_def by (metis e(6) less_Suc_eq new old yam_node.select_convs(1,3))
  moreover have "wf_edges ?g"
    using W(3) dead unfolding wf_edges_def e by (metis less_Suc_eq old)
  moreover have "wf_adj ?g"
    unfolding wf_adj_def
  proof (intro allI impI)
    fix j assume "n_alive (nodes ?g j)"
    with W(4) show "adj_ok ?g j"
      unfolding wf_adj_def adj_ok_def e by (cases "j = ?i") (simp_all add: new old)
  qed
  moreover have "wf_listed ?g"
    using W(5) W(3) dead unfolding wf_listed_def wf_edges_def e by (metis nat_neq_iff old)
  moreover have "wf_counts ?g"
    using W(6) card_live(2) [OF wf] lt dead wf unfolding wf_counts_def n e
    by (simp add: unat_inc)
  moreover have "wf_refs ?g"
    unfolding wf_refs_def i
  proof (intro allI impI)
    fix j assume "n_alive (nodes ?g j)"
    with W(7) show "unat (n_ref (nodes ?g j)) = Suc (card (live_into g j))"
      unfolding wf_refs_def by (cases "j = ?i") (simp_all add: new old no_in)
  qed
  ultimately show ?thesis by (simp add: graph_wf_def)
qed

subsection \<open>Revoking an edge\<close>

text \<open>Revocation touches nothing but the edge's liveness, the edge count and a reference count.\<close>

lemma edge_revoke_frame [simp]:
  "n_alive (nodes (snd (yamgraph_edge_revoke k g)) j) = n_alive (nodes g j)"
  "n_id (nodes (snd (yamgraph_edge_revoke k g)) j) = n_id (nodes g j)"
  "n_out (nodes (snd (yamgraph_edge_revoke k g)) j) = n_out (nodes g j)"
  "n_in (nodes (snd (yamgraph_edge_revoke k g)) j) = n_in (nodes g j)"
  "e_id (edges (snd (yamgraph_edge_revoke k g)) j) = e_id (edges g j)"
  "e_source (edges (snd (yamgraph_edge_revoke k g)) j) = e_source (edges g j)"
  "e_target (edges (snd (yamgraph_edge_revoke k g)) j) = e_target (edges g j)"
  "e_perms (edges (snd (yamgraph_edge_revoke k g)) j) = e_perms (edges g j)"
  "e_gen (edges (snd (yamgraph_edge_revoke k g)) j) = e_gen (edges g j)"
  "next_node_id (snd (yamgraph_edge_revoke k g)) = next_node_id g"
  "next_edge_id (snd (yamgraph_edge_revoke k g)) = next_edge_id g"
  "adj_pool_next (snd (yamgraph_edge_revoke k g)) = adj_pool_next g"
  "active_nodes (snd (yamgraph_edge_revoke k g)) = active_nodes g"
  by (simp_all add: yamgraph_edge_revoke_def Let_def upd_node_def split: option.split)

lemma edge_revoke_alive:
  "e_alive (edges (snd (yamgraph_edge_revoke k g)) j) \<longleftrightarrow>
     e_alive (edges g j) \<and> (j < YAMGRAPH_MAX_EDGES \<longrightarrow> j \<noteq> unat k)"
  by (auto simp: yamgraph_edge_revoke_def Let_def upd_node_def split: option.split)

lemma edge_revoke_ref:
  assumes wf: "graph_wf g" and live: "e_alive (edges g (unat k))" and "n_alive (nodes g i)"
  shows "n_ref (nodes (snd (yamgraph_edge_revoke k g)) i) =
    (if unat (e_target (edges g (unat k))) = i then n_ref (nodes g i) - 1 else n_ref (nodes g i))"
proof -
  have "n_ref (nodes g i) > 0"
    using assms(1,3) unfolding graph_wf_def wf_refs_def
    by (metis Zero_not_Suc unat_0 word_gt_0)
  then show ?thesis
    using live edge_alive_lt [OF wf live] node_alive_lt [OF wf assms(3)] assms(3)
    by (auto simp: yamgraph_edge_revoke_def Let_def upd_node_def yamgraph_node_get_def)
qed

lemma edge_revoke_dead: "\<not> e_alive (edges g (unat k)) \<Longrightarrow> yamgraph_edge_revoke k g = (False, g)"
  by (simp add: yamgraph_edge_revoke_def Let_def)

lemma graph_wf_edge_revoke:
  assumes wf: "graph_wf g"
  shows "graph_wf (snd (yamgraph_edge_revoke k g))"
proof (cases "e_alive (edges g (unat k))")
  case False
  then show ?thesis using wf by (simp add: edge_revoke_dead)
next
  case live: True
  let ?g = "snd (yamgraph_edge_revoke k g)" and ?k = "unat k"
  note W = graph_wfD [OF wf]
  have lt: "?k < YAMGRAPH_MAX_EDGES" by (rule edge_alive_lt [OF wf live])
  have alive: "e_alive (edges ?g j) \<longleftrightarrow> e_alive (edges g j) \<and> j \<noteq> ?k" for j
    using lt edge_alive_lt [OF wf] by (auto simp: edge_revoke_alive)
  have n: "live_nodes ?g = live_nodes g" by (simp add: live_nodes_def)
  have e: "live_edges ?g = live_edges g - {?k}" by (auto simp: alive)
  have i: "live_into ?g j = live_into g j - {?k}" for j by (auto simp: live_into_def e)
  have act: "active_edges ?g = active_edges g - 1"
    using live lt by (simp add: yamgraph_edge_revoke_def Let_def upd_node_def split: option.split)
  have card_e: "card (live_edges g) = Suc (card (live_edges ?g))"
    unfolding e using wf live card.remove [of "live_edges g" ?k] by simp
  have "wf_bounds ?g" using W(1) by (simp add: wf_bounds_def)
  moreover have "wf_nodes ?g" using W(2) by (simp add: wf_nodes_def)
  moreover have "wf_edges ?g" using W(3) by (simp add: wf_edges_def alive)
  moreover have "wf_adj ?g" using W(4) by (simp add: wf_adj_def adj_ok_def)
  moreover have "wf_listed ?g" using W(5) by (simp add: wf_listed_def alive)
  moreover have "wf_counts ?g"
    using W(6) unfolding wf_counts_def n act by (simp add: card_e unat_dec)
  moreover have "wf_refs ?g"
    unfolding wf_refs_def
  proof (intro allI impI)
    fix j assume "n_alive (nodes ?g j)"
    then have a: "n_alive (nodes g j)" by simp
    then have r: "unat (n_ref (nodes g j)) = Suc (card (live_into g j))"
      using W(7) by (simp add: wf_refs_def)
    show "unat (n_ref (nodes ?g j)) = Suc (card (live_into ?g j))"
    proof (cases "unat (e_target (edges g ?k)) = j")
      case True
      then have "?k \<in> live_into g j" using live by (simp add: live_into_def)
      with wf have "card (live_into g j) = Suc (card (live_into ?g j))"
        unfolding i using card.remove [of "live_into g j" ?k] by simp
      with r True show ?thesis
        by (simp add: edge_revoke_ref [OF wf live a] unat_dec)
    next
      case False
      then have "live_into ?g j = live_into g j" unfolding i by (auto simp: live_into_def)
      with r False show ?thesis by (simp add: edge_revoke_ref [OF wf live a])
    qed
  qed
  ultimately show ?thesis by (simp add: graph_wf_def)
qed

subsection \<open>Destroying a node\<close>

lemma revoke_adjs_Nil [simp]: "revoke_adjs [] g = g"
  by (simp add: revoke_adjs_def)

lemma revoke_adjs_Cons [simp]:
  "revoke_adjs (a # as) g = revoke_adjs as (snd (yamgraph_edge_revoke (adj_edge_id a) g))"
  by (simp add: revoke_adjs_def)

lemma revoke_adjs_frame [simp]:
  "n_alive (nodes (revoke_adjs as g) j) = n_alive (nodes g j)"
  "n_id (nodes (revoke_adjs as g) j) = n_id (nodes g j)"
  "n_out (nodes (revoke_adjs as g) j) = n_out (nodes g j)"
  "n_in (nodes (revoke_adjs as g) j) = n_in (nodes g j)"
  "e_id (edges (revoke_adjs as g) j) = e_id (edges g j)"
  "e_source (edges (revoke_adjs as g) j) = e_source (edges g j)"
  "e_target (edges (revoke_adjs as g) j) = e_target (edges g j)"
  "e_perms (edges (revoke_adjs as g) j) = e_perms (edges g j)"
  "e_gen (edges (revoke_adjs as g) j) = e_gen (edges g j)"
  "next_node_id (revoke_adjs as g) = next_node_id g"
  "next_edge_id (revoke_adjs as g) = next_edge_id g"
  "active_nodes (revoke_adjs as g) = active_nodes g"
  by (induction as arbitrary: g) simp_all

lemma revoke_adjs_alive:
  "e_alive (edges (revoke_adjs as g) j) \<longleftrightarrow>
     e_alive (edges g j) \<and> (j < YAMGRAPH_MAX_EDGES \<longrightarrow> j \<notin> unat ` adj_edge_id ` set as)"
  by (induction as arbitrary: g) (auto simp: edge_revoke_alive)

lemma graph_wf_revoke_adjs: "graph_wf g \<Longrightarrow> graph_wf (revoke_adjs as g)"
  by (induction as arbitrary: g) (simp_all add: graph_wf_edge_revoke)

lemma node_destroy_ok:
  assumes "yamgraph_node_get i g = Some n" "i \<noteq> 0"
  shows "yamgraph_node_destroy i g = (True, (upd_node (unat i) (\<lambda>n. n\<lparr> n_alive := False \<rparr>)
    (revoke_adjs (n_out n) g))\<lparr> active_nodes := active_nodes g - 1 \<rparr>)"
  using assms by (simp add: yamgraph_node_destroy_def Let_def upd_node_def)

lemma node_destroy_refused:
  "yamgraph_node_get i g = None \<or> i = 0 \<Longrightarrow> yamgraph_node_destroy i g = (False, g)"
  by (auto simp: yamgraph_node_destroy_def split: option.split)

lemma graph_wf_kill_node:
  assumes wf: "graph_wf g" and a: "n_alive (nodes g i)" "i \<noteq> 0"
    and noedge: "\<And>k. e_alive (edges g k) \<Longrightarrow> unat (e_source (edges g k)) \<noteq> i"
  shows "graph_wf ((upd_node i (\<lambda>n. n\<lparr> n_alive := False \<rparr>) g)\<lparr> active_nodes := active_nodes g - 1 \<rparr>)"
    (is "graph_wf ?g0")
proof -
  note W = graph_wfD [OF wf]
  define g' where "g' = ?g0"
  have al: "n_alive (nodes g' j) \<longleftrightarrow> n_alive (nodes g j) \<and> j \<noteq> i" for j
    by (simp add: upd_node_def g'_def)
  have nd [simp]: "n_id (nodes g' j) = n_id (nodes g j)" "n_out (nodes g' j) = n_out (nodes g j)"
    "n_in (nodes g' j) = n_in (nodes g j)" "n_ref (nodes g' j) = n_ref (nodes g j)" for j
    by (simp_all add: upd_node_def g'_def)
  have ed [simp]: "edges g' = edges g" "next_node_id g' = next_node_id g"
    "next_edge_id g' = next_edge_id g" "adj_pool_next g' = adj_pool_next g"
    "active_edges g' = active_edges g" "active_nodes g' = active_nodes g - 1"
    by (simp_all add: upd_node_def g'_def)
  have n: "live_nodes g' = live_nodes g - {i}" by (auto simp: al)
  have e: "live_edges g' = live_edges g" by (simp add: live_edges_def)
  have ii: "live_into g' j = live_into g j" for j by (simp add: live_into_def e)
  have c: "card (live_nodes g) = Suc (card (live_nodes g'))"
    unfolding n using wf a card.remove [of "live_nodes g" i] by simp
  have "wf_bounds g'" using W(1) by (simp add: wf_bounds_def)
  moreover have "wf_nodes g'" using W(2) a by (auto simp: wf_nodes_def al)
  moreover have "wf_edges g'" using W(3) noedge by (auto simp: wf_edges_def al)
  moreover have "adj_ok g' j = adj_ok g j" for j by (simp add: adj_ok_def)
  with W(4) have "wf_adj g'" by (simp add: wf_adj_def al)
  moreover have "wf_listed g'" using W(5) by (simp add: wf_listed_def al)
  moreover have "wf_counts g'" using W(6) by (simp add: wf_counts_def e c unat_dec)
  moreover have "wf_refs g'" using W(7) by (simp add: wf_refs_def al ii)
  ultimately show ?thesis unfolding g'_def by (simp add: graph_wf_def)
qed

lemma edge_listed:
  assumes "graph_wf g" "e_alive (edges g k)" "unat (e_source (edges g k)) = i"
  shows "k \<in> unat ` adj_edge_id ` set (n_out (nodes g i))"
proof -
  have "of_nat k \<in> adj_edge_id ` set (n_out (nodes g i))"
    using assms by (auto simp: graph_wf_def wf_listed_def)
  moreover have "unat (of_nat k :: u64) = k"
    using edge_alive_lt [OF assms(1,2)] by (simp add: unat_of_nat_lt yam_consts)
  ultimately show ?thesis by (metis imageI)
qed

lemma graph_wf_node_destroy:
  assumes wf: "graph_wf g"
  shows "graph_wf (snd (yamgraph_node_destroy i g))"
proof (cases "yamgraph_node_get i g = None \<or> i = 0")
  case True
  then show ?thesis using wf by (simp add: node_destroy_refused)
next
  case False
  then obtain n where n: "yamgraph_node_get i g = Some n" "i \<noteq> 0" by auto
  let ?g = "revoke_adjs (n_out n) g"
  have nd: "n = nodes g (unat i)" "n_alive (nodes g (unat i))"
    using n by (auto simp: node_get_Some_iff)
  have "unat (e_source (edges ?g k)) \<noteq> unat i" if "e_alive (edges ?g k)" for k
  proof
    assume "unat (e_source (edges ?g k)) = unat i"
    moreover have live: "e_alive (edges g k)" using that by (simp add: revoke_adjs_alive)
    ultimately have "k \<in> unat ` adj_edge_id ` set (n_out n)"
      using edge_listed [OF wf live] by (simp add: nd(1))
    with that edge_alive_lt [OF wf live] show False by (simp add: revoke_adjs_alive)
  qed
  moreover have "unat i \<noteq> 0" using n(2) by (simp add: unat_eq_zero)
  ultimately show ?thesis
    using graph_wf_kill_node [OF graph_wf_revoke_adjs [OF wf], of "n_out n" "unat i"] nd(2)
    by (simp add: node_destroy_ok [OF n])
qed

subsection \<open>Linking an edge\<close>

lemma push_adjs:
  assumes "Suc (adj_pool_next g) < ADJ_POOL_SIZE"
  shows "push_in d b (push_out c a g) =
    g\<lparr> adj_pool_next := adj_pool_next g + 2,
       nodes := \<lambda>j. (nodes g j)\<lparr>
         n_out := (if j = unat c then a # n_out (nodes g j) else n_out (nodes g j)),
         n_in := (if j = unat d then b # n_in (nodes g j) else n_in (nodes g j)) \<rparr> \<rparr>"
  using assms
  by (auto simp: push_in_def push_out_def adj_alloc_def upd_node_def fun_eq_iff)

text \<open>The graph a successful link leaves; the adjacency pool never runs out before the edge pool.\<close>

definition linked :: "yam_node_id \<Rightarrow> yam_node_id \<Rightarrow> yam_edge_type \<Rightarrow> yam_perm \<Rightarrow> yamgraph \<Rightarrow> yamgraph"
where
  "linked src dst ty perms g = (let k = next_edge_id g in
     g\<lparr> next_edge_id := Suc k,
        edges := (edges g)(k := \<lparr> e_id = of_nat k, e_type = ty, e_source = src,
          e_target = dst, e_perms = perms, e_gen = generation g, e_alive = True \<rparr>),
        generation := generation g + 1,
        active_edges := active_edges g + 1,
        adj_pool_next := adj_pool_next g + 2,
        nodes := \<lambda>j. (nodes g j)\<lparr>
          n_out := (if j = unat src then \<lparr> adj_edge_id = of_nat k, adj_target = dst \<rparr> # n_out (nodes g j)
                    else n_out (nodes g j)),
          n_in := (if j = unat dst then \<lparr> adj_edge_id = of_nat k, adj_target = src \<rparr> # n_in (nodes g j)
                   else n_in (nodes g j)),
          n_ref := (if j = unat dst then n_ref (nodes g j) + 1 else n_ref (nodes g j)) \<rparr> \<rparr>)"

definition link_ok :: "yam_node_id \<Rightarrow> yam_node_id \<Rightarrow> yamgraph \<Rightarrow> bool" where
  "link_ok src dst g \<longleftrightarrow> yamgraph_node_get src g \<noteq> None \<and> yamgraph_node_get dst g \<noteq> None
     \<and> next_edge_id g < YAMGRAPH_MAX_EDGES"

lemma edge_link_refused:
  "\<not> link_ok src dst g \<Longrightarrow> yamgraph_edge_link src dst ty perms g = (- 1, g)"
  by (auto simp: link_ok_def yamgraph_edge_link_def)

lemma edge_link_accepted:
  assumes wf: "wf_bounds g" and ok: "link_ok src dst g"
  shows "yamgraph_edge_link src dst ty perms g =
    (of_nat (next_edge_id g), linked src dst ty perms g)"
proof -
  let ?k = "next_edge_id g"
  let ?g1 = "g\<lparr> next_edge_id := Suc ?k,
    edges := (edges g)(?k := \<lparr> e_id = of_nat ?k, e_type = ty, e_source = src,
      e_target = dst, e_perms = perms, e_gen = generation g, e_alive = True \<rparr>),
    generation := generation g + 1,
    active_edges := active_edges g + 1 \<rparr>"
  have "Suc (adj_pool_next g) < ADJ_POOL_SIZE"
    using wf ok by (auto simp: wf_bounds_def link_ok_def yam_consts)
  then have p: "Suc (adj_pool_next ?g1) < ADJ_POOL_SIZE" by simp
  have ok': "yamgraph_node_get src g \<noteq> None" "yamgraph_node_get dst g \<noteq> None"
    "\<not> next_edge_id g \<ge> YAMGRAPH_MAX_EDGES"
    using ok by (simp_all add: link_ok_def)
  show ?thesis
    unfolding yamgraph_edge_link_def Let_def push_adjs [OF p]
    by (simp add: ok' linked_def Let_def upd_node_def)
      (intro conjI impI; rule yamgraph.equality; simp add: fun_eq_iff)
qed

lemma linked_frame [simp]:
  "n_alive (nodes (linked src dst ty perms g) j) = n_alive (nodes g j)"
  "n_id (nodes (linked src dst ty perms g) j) = n_id (nodes g j)"
  "next_node_id (linked src dst ty perms g) = next_node_id g"
  "active_nodes (linked src dst ty perms g) = active_nodes g"
  "next_edge_id (linked src dst ty perms g) = Suc (next_edge_id g)"
  "j \<noteq> next_edge_id g \<Longrightarrow> edges (linked src dst ty perms g) j = edges g j"
  "edges (linked src dst ty perms g) (next_edge_id g) = \<lparr> e_id = of_nat (next_edge_id g), e_type = ty,
     e_source = src, e_target = dst, e_perms = perms, e_gen = generation g, e_alive = True \<rparr>"
  by (simp_all add: linked_def Let_def)

lemma graph_wf_linked:
  assumes wf: "graph_wf g" and ok: "link_ok src dst g"
  shows "graph_wf (linked src dst ty perms g)"
proof -
  define g' where "g' = linked src dst ty perms g"
  let ?k = "next_edge_id g"
  note W = graph_wfD [OF wf]
  have dead: "\<not> e_alive (edges g ?k)" using W(3) by (auto simp: wf_edges_def)
  have lt: "?k < 8192" "1 \<le> ?k" "unat (of_nat ?k :: u64) = ?k"
    using ok W(1) by (auto simp: link_ok_def yam_consts unat_of_nat_lt wf_bounds_def)
  have al: "n_alive (nodes g (unat src))" "n_alive (nodes g (unat dst))"
    using ok by (auto simp: link_ok_def yamgraph_node_get_def Let_def split: if_splits)
  have n: "live_nodes g' = live_nodes g" by (simp add: live_nodes_def g'_def)
  have old: "edges g' j = edges g j" if "j \<noteq> ?k" for j using that by (simp add: g'_def)
  have new: "edges g' ?k = \<lparr> e_id = of_nat ?k, e_type = ty, e_source = src, e_target = dst,
      e_perms = perms, e_gen = generation g, e_alive = True \<rparr>" by (simp add: g'_def)
  have old_lt: "edges g' j = edges g j" if "j < ?k" for j using old that by simp
  have ealive: "e_alive (edges g' j) \<longleftrightarrow> j = ?k \<or> e_alive (edges g j)" for j
    by (cases "j = ?k") (simp_all add: new old)
  have e: "live_edges g' = insert ?k (live_edges g)" by (auto simp: ealive)
  have "m \<in> live_into g' j \<longleftrightarrow> m = ?k \<and> j = unat dst \<or> m \<in> live_into g j" for m j
    using dead by (cases "m = ?k") (auto simp: live_into_def ealive new old)
  then have i: "live_into g' j = (if j = unat dst then insert ?k (live_into g j) else live_into g j)"
    for j by auto
  have nk: "?k \<notin> live_into g j" for j using dead by (simp add: live_into_def)
  have fr [simp]: "n_alive (nodes g' j) = n_alive (nodes g j)" "n_id (nodes g' j) = n_id (nodes g j)"
    "next_node_id g' = next_node_id g" "active_nodes g' = active_nodes g" "next_edge_id g' = Suc ?k"
    for j by (simp_all add: g'_def)
  have ref: "n_ref (nodes g' j) = (if j = unat dst then n_ref (nodes g j) + 1 else n_ref (nodes g j))"
    for j by (simp add: g'_def linked_def Let_def)
  have out: "n_out (nodes g' j) = (if j = unat src
      then \<lparr> adj_edge_id = of_nat ?k, adj_target = dst \<rparr> # n_out (nodes g j) else n_out (nodes g j))"
    for j by (simp add: g'_def linked_def Let_def)
  have inn: "n_in (nodes g' j) = (if j = unat dst
      then \<lparr> adj_edge_id = of_nat ?k, adj_target = src \<rparr> # n_in (nodes g j) else n_in (nodes g j))"
    for j by (simp add: g'_def linked_def Let_def)
  have "wf_bounds g'" using W(1) lt by (simp add: wf_bounds_def yam_consts) (simp add: g'_def linked_def Let_def)
  moreover have "wf_nodes g'" using W(2) by (simp add: wf_nodes_def)
  moreover have "wf_edges g'"
    unfolding wf_edges_def
  proof (intro allI impI)
    fix j assume "e_alive (edges g' j)"
    then show "1 \<le> j \<and> j < next_edge_id g' \<and> unat (e_id (edges g' j)) = j \<and>
      n_alive (nodes g' (unat (e_source (edges g' j)))) \<and> unat (e_target (edges g' j)) < next_node_id g'"
      using W(2,3) lt al unfolding wf_edges_def wf_nodes_def
      by (cases "j = ?k") (auto simp: ealive new old)
  qed
  moreover have "wf_adj g'"
    unfolding wf_adj_def
  proof (intro allI impI)
    fix j assume "n_alive (nodes g' j)"
    then have ok: "adj_ok g j" using W(4) by (simp add: wf_adj_def)
    then have "of_nat ?k \<notin> adj_edge_id ` set (n_out (nodes g j))"
      "of_nat ?k \<notin> adj_edge_id ` set (n_in (nodes g j))"
      using lt(3) by (auto simp: adj_ok_def)
    with ok show "adj_ok g' j"
      using lt old_lt unfolding adj_ok_def by (auto simp: out inn new less_Suc_eq)
  qed
  moreover have "wf_listed g'"
    unfolding wf_listed_def
  proof (intro allI impI)
    fix j assume "e_alive (edges g' j)"
    then show "of_nat j \<in> adj_edge_id ` set (n_out (nodes g' (unat (e_source (edges g' j))))) \<and>
      (n_alive (nodes g' (unat (e_target (edges g' j)))) \<longrightarrow>
       of_nat j \<in> adj_edge_id ` set (n_in (nodes g' (unat (e_target (edges g' j))))))"
      using spec [OF W(5) [unfolded wf_listed_def], of j]
      by (cases "j = ?k") (auto simp: ealive new old out inn)
  qed
  moreover have "wf_counts g'"
  proof -
    have "active_edges g' = active_edges g + 1" by (simp add: g'_def linked_def Let_def)
    then show ?thesis
      using W(6) card_live(1) [OF wf] lt dead wf by (simp add: wf_counts_def n e unat_inc)
  qed
  moreover have "wf_refs g'"
    unfolding wf_refs_def
  proof (intro allI impI)
    fix j assume "n_alive (nodes g' j)"
    then show "unat (n_ref (nodes g' j)) = Suc (card (live_into g' j))"
      using W(7) card_live(1) [OF wf] card_live(3) [OF wf, of j] lt(1) wf
      by (auto simp: wf_refs_def ref i nk intro!: unat_inc)
  qed
  ultimately show ?thesis unfolding g'_def by (simp add: graph_wf_def)
qed

lemma graph_wf_edge_link:
  assumes "graph_wf g"
  shows "graph_wf (snd (yamgraph_edge_link src dst ty perms g))"
proof (cases "link_ok src dst g")
  case True
  then show ?thesis
    using assms by (simp add: edge_link_accepted graph_wf_linked graph_wfD(1))
next
  case False
  then show ?thesis using assms by (simp add: edge_link_refused)
qed

section \<open>Reachable graphs\<close>

datatype graph_op =
    Node_create yam_node_type "string option" yam_data
  | Node_destroy yam_node_id
  | Edge_link yam_node_id yam_node_id yam_edge_type yam_perm
  | Edge_revoke yam_edge_id

fun graph_step :: "graph_op \<Rightarrow> yamgraph \<Rightarrow> yamgraph" where
  "graph_step (Node_create ty name data) g = snd (yamgraph_node_create ty name data g)"
| "graph_step (Node_destroy i) g = snd (yamgraph_node_destroy i g)"
| "graph_step (Edge_link s d ty p) g = snd (yamgraph_edge_link s d ty p g)"
| "graph_step (Edge_revoke k) g = snd (yamgraph_edge_revoke k g)"

inductive graph_reachable :: "yamgraph \<Rightarrow> bool" where
  boot: "graph_reachable (yamgraph_init g)"
| step: "graph_reachable g \<Longrightarrow> graph_reachable (graph_step oper g)"

lemma graph_wf_step: "graph_wf g \<Longrightarrow> graph_wf (graph_step oper g)"
  by (cases oper) (simp_all add: graph_wf_node_create graph_wf_node_destroy graph_wf_edge_link
      graph_wf_edge_revoke)

lemma reachable_wf: "graph_reachable g \<Longrightarrow> graph_wf g"
  by (induction rule: graph_reachable.induct) (simp_all add: graph_wf_init graph_wf_step)

subsection \<open>Identifiers are never reused\<close>

lemma step_monotone:
  "next_node_id g \<le> next_node_id (graph_step oper g)"
  "next_edge_id g \<le> next_edge_id (graph_step oper g)"
proof -
  have pi: "next_node_id (push_in d a g) = next_node_id g"
    "next_edge_id (push_in d a g) = next_edge_id g" for d a g
    by (simp_all add: push_in_def adj_alloc_def upd_node_def)
  have po: "next_node_id (push_out d a g) = next_node_id g"
    "next_edge_id (push_out d a g) = next_edge_id g" for d a g
    by (simp_all add: push_out_def adj_alloc_def upd_node_def)
  show "next_node_id g \<le> next_node_id (graph_step oper g)"
    "next_edge_id g \<le> next_edge_id (graph_step oper g)"
    by (cases oper; simp add: yamgraph_node_create_def yamgraph_node_destroy_def
        yamgraph_edge_link_def Let_def upd_node_def pi po split: option.split)+
qed

lemma dead_edge_step:
  assumes wf: "graph_wf g" and "k < next_edge_id g" "\<not> e_alive (edges g k)"
  shows "\<not> e_alive (edges (graph_step oper g) k)"
proof (cases oper)
  case (Edge_link s d ty p)
  show ?thesis
  proof (cases "link_ok s d g")
    case True
    then show ?thesis
      using assms Edge_link graph_wfD(1) [OF wf] by (simp add: edge_link_accepted)
  next
    case False
    then show ?thesis using assms Edge_link by (simp add: edge_link_refused)
  qed
qed (use assms in \<open>auto simp: yamgraph_node_create_def yamgraph_node_destroy_def Let_def upd_node_def
      revoke_adjs_alive edge_revoke_alive split: option.split\<close>)

lemma dead_node_step:
  assumes wf: "graph_wf g" and "i < next_node_id g" "\<not> n_alive (nodes g i)"
  shows "\<not> n_alive (nodes (graph_step oper g) i)"
proof (cases oper)
  case (Edge_link s d ty p)
  show ?thesis
  proof (cases "link_ok s d g")
    case True
    then show ?thesis
      using assms Edge_link graph_wfD(1) [OF wf] by (simp add: edge_link_accepted)
  next
    case False
    then show ?thesis using assms Edge_link by (simp add: edge_link_refused)
  qed
qed (use assms in \<open>auto simp: yamgraph_node_create_def yamgraph_node_destroy_def Let_def upd_node_def
      split: option.split\<close>)

lemma dead_edge_forever:
  "graph_wf g \<Longrightarrow> k < next_edge_id g \<Longrightarrow> \<not> e_alive (edges g k) \<Longrightarrow>
    \<not> e_alive (edges (fold graph_step ops g) k)"
proof (induction ops arbitrary: g)
  case (Cons oper ops)
  then show ?case
    using step_monotone(2) [of g oper] by (simp add: graph_wf_step dead_edge_step)
qed simp

lemma dead_node_forever:
  "graph_wf g \<Longrightarrow> i < next_node_id g \<Longrightarrow> \<not> n_alive (nodes g i) \<Longrightarrow>
    \<not> n_alive (nodes (fold graph_step ops g) i)"
proof (induction ops arbitrary: g)
  case (Cons oper ops)
  then show ?case
    using step_monotone(1) [of g oper] by (simp add: graph_wf_step dead_node_step)
qed simp

subsection \<open>What a permission check means\<close>

definition grants :: "yamgraph \<Rightarrow> nat \<Rightarrow> yam_node_id \<Rightarrow> yam_node_id \<Rightarrow> yam_perm \<Rightarrow> bool" where
  "grants g k src dst perm \<longleftrightarrow> e_alive (edges g k) \<and> e_source (edges g k) = src
     \<and> e_target (edges g k) = dst \<and> (e_perms (edges g k) AND perm) = perm"

lemma has_permission_iff:
  assumes wf: "graph_wf g"
  shows "yamgraph_has_permission src dst perm g \<longleftrightarrow> src = 0 \<or> (\<exists>k. grants g k src dst perm)"
proof -
  note W = graph_wfD [OF wf]
  have root: "yamgraph_node_get 0 g \<noteq> None"
    using W(2) by (simp add: yamgraph_node_get_def wf_nodes_def yam_consts Let_def)
  have "\<exists>k. grants g k src dst perm"
    if n: "yamgraph_node_get src g = Some n" and a: "a \<in> set (n_out n)"
      and e: "yamgraph_edge_get (adj_edge_id a) g = Some e"
      and p: "e_target e = dst" "(e_perms e AND perm) = perm" for n a e
  proof -
    have "adj_ok g (unat src)"
      using n W(4) by (auto simp: node_get_Some_iff wf_adj_def)
    then have "e_source (edges g (unat (adj_edge_id a))) = src"
      using n a by (auto simp: node_get_Some_iff adj_ok_def word_unat_eq_iff)
    then show ?thesis
      using e p by (auto simp: grants_def edge_get_Some_iff)
  qed
  moreover have "\<exists>n a e. yamgraph_node_get src g = Some n \<and> a \<in> set (n_out n)
      \<and> yamgraph_edge_get (adj_edge_id a) g = Some e \<and> e_target e = dst \<and> (e_perms e AND perm) = perm"
    if g: "grants g k src dst perm" for k
  proof -
    have l: "e_alive (edges g k)" "unat (e_source (edges g k)) = unat src"
      using g by (simp_all add: grants_def)
    have s: "n_alive (nodes g (unat src))" using W(3) l by (auto simp: wf_edges_def)
    obtain a where "a \<in> set (n_out (nodes g (unat src)))" "k = unat (adj_edge_id a)"
      using edge_listed [OF wf l] by auto
    with g s node_alive_lt [OF wf s] edge_alive_lt [OF wf l(1)] show ?thesis
      by (auto simp: grants_def node_get_Some_iff edge_get_Some_iff)
  qed
  ultimately show ?thesis
    using root
    by (fastforce simp: yamgraph_has_permission_def list_ex_iff split: option.splits)
qed

lemma edge_link_effect:
  assumes wf: "graph_wf g" and r: "yamgraph_edge_link src dst ty perms g = (ed, g')"
  shows "(ed = - 1 \<and> g' = g) \<or>
    (ed = of_nat (next_edge_id g) \<and> ed \<noteq> - 1 \<and> unat ed = next_edge_id g \<and> link_ok src dst g
     \<and> g' = linked src dst ty perms g)"
proof (cases "link_ok src dst g")
  case True
  then have lt: "next_edge_id g < 8192" by (simp add: link_ok_def yam_consts)
  then have u: "unat (of_nat (next_edge_id g) :: u64) = next_edge_id g"
    by (simp add: unat_of_nat_lt)
  have "unat (- 1 :: u64) = 2 ^ 64 - 1"
    by (simp add: unsigned_minus_1_eq_mask mask_eq_exp_minus_1)
  with u lt have "(of_nat (next_edge_id g) :: u64) \<noteq> - 1" by force
  with True r u wf show ?thesis by (simp add: edge_link_accepted graph_wfD(1))
next
  case False
  with r show ?thesis by (simp add: edge_link_refused)
qed

lemma grants_linked:
  assumes "graph_wf g" "grants (linked a b ty perms g) k src dst perm"
  shows "grants g k src dst perm \<or> (a = src \<and> b = dst \<and> (perms AND perm) = perm)"
  using assms by (cases "k = next_edge_id g") (auto simp: grants_def)

lemma has_permission_link:
  assumes wf: "graph_wf g" and "src \<noteq> 0"
    and p: "yamgraph_has_permission src dst perm (snd (yamgraph_edge_link a b ty perms g))"
  shows "yamgraph_has_permission src dst perm g \<or> (a = src \<and> b = dst \<and> (perms AND perm) = perm)"
proof -
  obtain ed g' where r: "yamgraph_edge_link a b ty perms g = (ed, g')" by fastforce
  have "graph_wf g'" using graph_wf_edge_link [OF wf, of a b ty perms] r by simp
  with p assms(2) r obtain k where k: "grants g' k src dst perm"
    by (auto simp: has_permission_iff)
  show ?thesis
    using edge_link_effect [OF wf r] k grants_linked [OF wf, of a b ty perms k src dst perm]
      has_permission_iff [OF wf, of src dst perm] by blast
qed

lemma has_permission_step:
  assumes wf: "graph_wf g" and ns: "src \<noteq> 0"
    and p: "yamgraph_has_permission src dst perm (graph_step oper g)"
  shows "yamgraph_has_permission src dst perm g \<or>
    (\<exists>ty perms. oper = Edge_link src dst ty perms \<and> (perms AND perm) = perm)"
proof (cases oper)
  case (Edge_link a b ty perms)
  with has_permission_link [OF wf ns, of dst perm a b ty perms] p show ?thesis by auto
next
  case (Node_create ty name data)
  obtain k where "grants (graph_step oper g) k src dst perm"
    using p ns has_permission_iff [OF graph_wf_step [OF wf]] by blast
  then have "grants g k src dst perm"
    using Node_create by (auto simp: grants_def yamgraph_node_create_def Let_def split: if_splits)
  then show ?thesis using has_permission_iff [OF wf] by blast
next
  case (Node_destroy i)
  obtain k where "grants (graph_step oper g) k src dst perm"
    using p ns has_permission_iff [OF graph_wf_step [OF wf]] by blast
  then have "grants g k src dst perm"
    using Node_destroy
    by (auto simp: grants_def yamgraph_node_destroy_def Let_def upd_node_def revoke_adjs_alive
        split: if_splits option.splits)
  then show ?thesis using has_permission_iff [OF wf] by blast
next
  case (Edge_revoke e)
  obtain k where "grants (graph_step oper g) k src dst perm"
    using p ns has_permission_iff [OF graph_wf_step [OF wf]] by blast
  then have "grants g k src dst perm"
    using Edge_revoke by (auto simp: grants_def edge_revoke_alive)
  then show ?thesis using has_permission_iff [OF wf] by blast
qed

subsection \<open>Concrete graphs for the witnesses\<close>

text \<open>A static graph before boot, and one after: two nodes and one delegable edge between them.\<close>

definition graph_zero :: yamgraph where
  "graph_zero = \<lparr> nodes = \<lambda>i. zero_node, edges = \<lambda>k. zero_edge, next_node_id = 1, next_edge_id = 1,
     active_nodes = 0, active_edges = 0, generation = 1, adj_pool_next = 0 \<rparr>"

definition demo_ops :: "graph_op list" where
  "demo_ops = [Node_create YAM_NODE_TASK (Some ''init'') Data_NULL,
     Node_create YAM_NODE_DEVICE (Some ''serial0'') Data_NULL,
     Edge_link 1 2 YAM_EDGE_CAPABILITY 0xB]"

definition demo_graph :: yamgraph where
  "demo_graph = fold graph_step demo_ops (yamgraph_init graph_zero)"

lemma reachable_fold: "graph_reachable g \<Longrightarrow> graph_reachable (fold graph_step ops g)"
  by (induction ops arbitrary: g) (simp_all add: graph_reachable.step)

lemma demo_reachable: "graph_reachable demo_graph"
  by (simp add: demo_graph_def reachable_fold graph_reachable.boot)

lemmas graph_eval = demo_graph_def demo_ops_def graph_zero_def yamgraph_init_def zero_node_def
  zero_edge_def yamgraph_node_create_def yamgraph_edge_link_def yamgraph_node_get_def
  yamgraph_edge_get_def push_in_def push_out_def adj_alloc_def upd_node_def Let_def
  yamgraph_edge_revoke_def yamgraph_node_destroy_def yamgraph_has_permission_def
  yamgraph_node_count_def yamgraph_edge_count_def

definition demo_cap :: yam_capability where
  "demo_cap = \<lparr> cap_edge_id = 1, cap_holder = 1, cap_target = 2, cap_perms = 0xB,
     cap_generation = 1 \<rparr>"

lemmas cap_eval = demo_cap_def cap_revoke_def cap_is_valid_def cap_check_def cap_delegate_def
  cap_create_def zero_capability_def

section \<open>Properties\<close>

text \<open>C5. Every graph reachable from boot by any sequence of node creations, destructions, links
and revocations is well formed: identifiers stay inside the pools, live edges start at live
nodes, adjacency lists are complete and duplicate free, the counters count the live nodes and
edges, and every live node's reference count is one more than its live incoming edges.\<close>

theorem graph_invariant:
  "graph_reachable g \<Longrightarrow> graph_wf g"
  by (rule reachable_wf)

theorem graph_invariant_witness:
  "graph_reachable demo_graph \<and> graph_wf demo_graph \<and> live_edges demo_graph = {1}"
proof -
  have "live_edges demo_graph = {1}"
    by (auto simp: live_edges_def graph_eval yam_consts split: if_splits)
  with graph_invariant [OF demo_reachable] demo_reachable show ?thesis by simp
qed

text \<open>C1. On every reachable graph the permission check answers exactly the specification: the
kernel root has every permission, and any other node has a permission on a target exactly when
one single live edge from it to that target carries all the requested bits.\<close>

theorem has_permission_correct:
  assumes "graph_reachable g"
  shows "yamgraph_has_permission src dst perm g \<longleftrightarrow> src = 0 \<or> (\<exists>k. grants g k src dst perm)"
  by (rule has_permission_iff [OF reachable_wf [OF assms]])

theorem has_permission_correct_witness:
  "yamgraph_has_permission 1 2 3 demo_graph \<and> (\<exists>k. grants demo_graph k 1 2 3)"
proof -
  have "yamgraph_has_permission 1 2 3 demo_graph"
    by (simp add: graph_eval yam_consts)
  with has_permission_correct [OF demo_reachable, of 1 2 3] show ?thesis by simp
qed

text \<open>C6. Authority is confined: on a reachable graph, an operation gives a node other than the
root a permission it did not have only when it is a link from that node to that target whose mask
carries the permission.\<close>

theorem permission_confinement:
  assumes "graph_reachable g" "src \<noteq> 0"
    "yamgraph_has_permission src dst perm (graph_step oper g)"
    "\<not> yamgraph_has_permission src dst perm g"
  shows "\<exists>ty perms. oper = Edge_link src dst ty perms \<and> (perms AND perm) = perm"
  using has_permission_step [OF reachable_wf [OF assms(1)] assms(2,3)] assms(4) by blast

theorem permission_confinement_witness:
  "\<exists>ty perms. Edge_link 2 1 YAM_EDGE_OWNS 5 = Edge_link 2 1 ty perms \<and> (perms AND 4) = (4 :: u32)"
proof -
  have "yamgraph_has_permission 2 1 4 (graph_step (Edge_link 2 1 YAM_EDGE_OWNS 5) demo_graph)"
    "\<not> yamgraph_has_permission 2 1 4 demo_graph"
    by (simp_all add: graph_eval yam_consts)
  with permission_confinement [OF demo_reachable, of 2 1 4 "Edge_link 2 1 YAM_EDGE_OWNS 5"]
  show ?thesis by simp
qed

text \<open>C16. Revocation is permanent: once a capability has been revoked, no later sequence of graph
operations makes a check of that capability succeed again.\<close>

theorem revocation_permanent:
  assumes "graph_reachable g" "cap_revoke cap g = (True, g')"
  shows "\<not> cap_check cap perm (fold graph_step ops g')"
proof -
  note wf = reachable_wf [OF assms(1)]
  have v: "cap_is_valid cap g" and r: "yamgraph_edge_revoke (cap_edge_id cap) g = (True, g')"
    using assms(2) by (auto simp: cap_revoke_def split: if_splits)
  let ?k = "unat (cap_edge_id cap)"
  have live: "e_alive (edges g ?k)" "?k < YAMGRAPH_MAX_EDGES"
    using v by (auto simp: cap_is_valid_def edge_get_Some_iff split: if_splits option.splits)
  have wf': "graph_wf g'" and dead: "\<not> e_alive (edges g' ?k)"
    using graph_wf_edge_revoke [OF wf] edge_revoke_alive [of "cap_edge_id cap" g ?k] r live
    by (metis snd_conv)+
  have "?k < next_edge_id g'"
    using graph_wfD(3) [OF wf] live(1) edge_revoke_frame(11) [of "cap_edge_id cap" g] r
    by (auto simp: wf_edges_def)
  from dead_edge_forever [OF wf' this dead] show ?thesis
    by (auto simp: cap_check_def cap_is_valid_def edge_get_Some_iff split: option.splits)
qed

theorem revocation_permanent_witness:
  "cap_check demo_cap 3 demo_graph \<and> fst (cap_revoke demo_cap demo_graph)
    \<and> \<not> cap_check demo_cap 3 (fold graph_step [Edge_link 1 2 YAM_EDGE_CAPABILITY 0xB]
         (snd (cap_revoke demo_cap demo_graph)))"
proof -
  have "cap_check demo_cap 3 demo_graph" and f: "fst (cap_revoke demo_cap demo_graph)"
    by (simp_all add: graph_eval cap_eval yam_consts)
  moreover from f have "cap_revoke demo_cap demo_graph = (True, snd (cap_revoke demo_cap demo_graph))"
    by (simp add: prod_eq_iff)
  ultimately show ?thesis
    using revocation_permanent [OF demo_reachable, of demo_cap] by blast
qed

text \<open>C17. Delegation attenuates: the capability a delegation returns checks only for permissions
that both the delegated capability and the mask carry, refers to the same target, and exists only
when the original carries DELEGATE; in the graph, the delegation gives no node but the new holder a
permission, and that one nothing beyond the intersection on that target.\<close>

theorem delegation_attenuates:
  assumes "graph_reachable g" "cap_delegate cap holder pmask g = (c, g')"
  shows "(cap_check c perm g' \<longrightarrow> cap_target c = cap_target cap \<and> cap_holder c = holder
      \<and> ((cap_perms cap AND pmask) AND perm) = perm \<and> (cap_perms cap AND YAM_PERM_DELEGATE) \<noteq> 0)
    \<and> (src \<noteq> 0 \<and> yamgraph_has_permission src dst perm g' \<longrightarrow>
        yamgraph_has_permission src dst perm g \<or>
        (src = holder \<and> dst = cap_target cap \<and> ((cap_perms cap AND pmask) AND perm) = perm
         \<and> (cap_perms cap AND YAM_PERM_DELEGATE) \<noteq> 0))"
proof (cases "(cap_perms cap AND YAM_PERM_DELEGATE) = 0")
  case True
  then show ?thesis
    using assms(2) by (auto simp: cap_delegate_def cap_check_def cap_is_valid_def)
next
  case False
  let ?p = "cap_perms cap AND pmask"
  obtain ed h where l: "yamgraph_edge_link holder (cap_target cap) YAM_EDGE_CAPABILITY ?p g = (ed, h)"
    by fastforce
  then have g': "g' = h" and c: "ed = - 1 \<and> cap_edge_id c = - 1 \<or>
      cap_holder c = holder \<and> cap_target c = cap_target cap \<and> cap_perms c = ?p"
    using assms(2) False by (auto simp: cap_delegate_def cap_create_def split: if_splits)
  then have "cap_check c perm g' \<Longrightarrow> cap_target c = cap_target cap \<and> cap_holder c = holder
      \<and> (?p AND perm) = perm"
    by (auto simp: cap_check_def cap_is_valid_def split: if_splits)
  moreover have "src \<noteq> 0 \<Longrightarrow> yamgraph_has_permission src dst perm g' \<Longrightarrow>
      yamgraph_has_permission src dst perm g \<or> (holder = src \<and> cap_target cap = dst \<and> (?p AND perm) = perm)"
    using has_permission_link [OF reachable_wf [OF assms(1)], of src dst perm holder
        "cap_target cap" YAM_EDGE_CAPABILITY ?p] l g' by simp
  ultimately show ?thesis using False by auto
qed

theorem delegation_attenuates_witness:
  "\<exists>c g'. cap_delegate demo_cap 0 3 demo_graph = (c, g') \<and> cap_check c 3 g'
     \<and> ((cap_perms demo_cap AND 3) AND 3) = (3 :: u32) \<and> \<not> cap_check c 8 g'"
proof -
  obtain c g' where d: "cap_delegate demo_cap 0 3 demo_graph = (c, g')" by fastforce
  have "cap_check (fst (cap_delegate demo_cap 0 3 demo_graph)) 3 (snd (cap_delegate demo_cap 0 3 demo_graph))"
    by (simp add: graph_eval cap_eval yam_consts)
  with d have k: "cap_check c 3 g'" by simp
  have n: "((cap_perms demo_cap AND 3) AND 8) \<noteq> (8 :: u32)"
    by (simp add: demo_cap_def)
  from delegation_attenuates [OF demo_reachable d, of 3] k
    delegation_attenuates [OF demo_reachable d, of 8] n d
  show ?thesis by blast
qed

text \<open>C18. Destroying a node ends its authority for good: after a successful destruction no later
sequence of graph operations gives the destroyed identifier any permission on anything.\<close>

theorem destroy_removes_authority:
  assumes "graph_reachable g" "yamgraph_node_destroy i g = (True, g')"
  shows "\<not> yamgraph_has_permission i dst perm (fold graph_step ops g')"
proof -
  note wf = reachable_wf [OF assms(1)]
  obtain n where n: "yamgraph_node_get i g = Some n" "i \<noteq> 0"
    using assms(2) by (auto simp: yamgraph_node_destroy_def split: option.splits if_splits)
  have wf': "graph_wf g'" using graph_wf_node_destroy [OF wf, of i] assms(2) by simp
  have "n_alive (nodes g (unat i))" using n by (simp add: node_get_Some_iff)
  then have "unat i < next_node_id g" using graph_wfD(2) [OF wf] by (simp add: wf_nodes_def)
  then have "unat i < next_node_id g'" "\<not> n_alive (nodes g' (unat i))"
    using assms(2) node_destroy_ok [OF n] by (auto simp: upd_node_def)
  from dead_node_forever [OF wf' this] show ?thesis
    by (simp add: yamgraph_has_permission_def yamgraph_node_get_def Let_def)
qed

theorem destroy_removes_authority_witness:
  "fst (yamgraph_node_destroy 1 demo_graph) \<and> yamgraph_has_permission 1 2 3 demo_graph
    \<and> \<not> yamgraph_has_permission 1 2 3 (fold graph_step [Edge_link 1 2 YAM_EDGE_OWNS 3]
        (snd (yamgraph_node_destroy 1 demo_graph)))"
proof -
  have f: "fst (yamgraph_node_destroy 1 demo_graph)" "yamgraph_has_permission 1 2 3 demo_graph"
    by (simp_all add: graph_eval yam_consts)
  then have "yamgraph_node_destroy 1 demo_graph = (True, snd (yamgraph_node_destroy 1 demo_graph))"
    by (simp add: prod_eq_iff)
  with f destroy_removes_authority [OF demo_reachable, of 1] show ?thesis by blast
qed

text \<open>The boot-time self-test passes: run on the graph any initialisation leaves, all six of
its conditions hold.\<close>

theorem self_test_passes:
  "fst (yamgraph_self_test (yamgraph_init g)) = [True, True, True, True, True, True]"
  by (simp add: yamgraph_self_test_def graph_eval revoke_adjs_def yam_consts)

end
