(* ===== verification/Channel.thy ===== *)
theory Channel
  imports Fifo YamGraph
begin

text \<open>
  The IPC channels of \<^verbatim>\<open>src/src/nexus/channel.c\<close>: a pool of channels, each with two
  message rings, guarded by the resource graph.  A \<^verbatim>\<open>yam_channel_t *\<close> is an index of the
  pool (\<open>None\<close> for NULL), a message body is the whole 256-byte array, so that the bytes a short
  message leaves in place are in the model.  Both directions interpret \<open>bounded_fifo\<close>.
\<close>

section \<open>Types\<close>

definition CHANNEL_MSG_MAX_SIZE :: nat where [yam_consts]: "CHANNEL_MSG_MAX_SIZE = 256"
definition CHANNEL_RING_SIZE :: nat where [yam_consts]: "CHANNEL_RING_SIZE = 64"
definition MAX_CHANNELS :: nat where [yam_consts]: "MAX_CHANNELS = 256"

record yam_message =
  m_sender :: yam_node_id
  m_type :: u32
  m_length :: u32
  m_data :: "nat \<Rightarrow> u8"

record chan_ring =
  r_ring :: "nat \<Rightarrow> yam_message"
  r_head :: nat
  r_tail :: nat
  r_count :: nat

record yam_channel =
  c_node_id :: yam_node_id
  c_endpoint_a :: yam_node_id
  c_endpoint_b :: yam_node_id
  c_a_to_b :: chan_ring
  c_b_to_a :: chan_ring
  c_active :: bool

record chan_world =
  cw_graph :: yamgraph
  channels :: "nat \<Rightarrow> yam_channel"
  channel_count :: nat

section \<open>Operations of channel.c\<close>

definition zero_message :: yam_message where
  "zero_message = \<lparr> m_sender = 0, m_type = 0, m_length = 0, m_data = \<lambda>_. 0 \<rparr>"

definition zero_ring :: chan_ring where
  "zero_ring = \<lparr> r_ring = \<lambda>_. zero_message, r_head = 0, r_tail = 0, r_count = 0 \<rparr>"

definition upd_channel :: "nat \<Rightarrow> (yam_channel \<Rightarrow> yam_channel) \<Rightarrow> chan_world \<Rightarrow> chan_world" where
  "upd_channel i f w = w\<lparr> channels := (channels w)(i := f (channels w i)) \<rparr>"

definition channel_create ::
  "string option \<Rightarrow> yam_node_id \<Rightarrow> yam_node_id \<Rightarrow> chan_world \<Rightarrow> nat option \<times> chan_world" where
  "channel_create name a b w =
     (if channel_count w \<ge> MAX_CHANNELS then (None, w)
      else let i = channel_count w;
               (nid, g1) = yamgraph_node_create YAM_NODE_CHANNEL name (Data_channel i) (cw_graph w);
               chan = \<lparr> c_node_id = nid, c_endpoint_a = a, c_endpoint_b = b,
                        c_a_to_b = zero_ring, c_b_to_a = zero_ring, c_active = True \<rparr>;
               (_, g2) = yamgraph_edge_link a nid YAM_EDGE_CHANNEL (YAM_PERM_READ OR YAM_PERM_WRITE) g1;
               (_, g3) = yamgraph_edge_link b nid YAM_EDGE_CHANNEL (YAM_PERM_READ OR YAM_PERM_WRITE) g2
        in (Some i, w\<lparr> cw_graph := g3, channels := (channels w)(i := chan), channel_count := Suc i \<rparr>))"

definition channel_get :: "yam_node_id \<Rightarrow> chan_world \<Rightarrow> nat option" where
  "channel_get nid w =
     scan (\<lambda>i. c_active (channels w i) \<and> c_node_id (channels w i) = nid) 0 (channel_count w)"

text \<open>\<^verbatim>\<open>if (data && length > 0) memcpy(msg->data, data, length)\<close>, over the bytes already there.\<close>

definition copy_in :: "(nat \<Rightarrow> u8) option \<Rightarrow> u32 \<Rightarrow> (nat \<Rightarrow> u8) \<Rightarrow> nat \<Rightarrow> u8" where
  "copy_in data len old =
     (case data of None \<Rightarrow> old | Some d \<Rightarrow> \<lambda>j. if j < unat len then d j else old j)"

definition ring_send ::
  "yam_node_id \<Rightarrow> u32 \<Rightarrow> (nat \<Rightarrow> u8) option \<Rightarrow> u32 \<Rightarrow> chan_ring \<Rightarrow> chan_ring option" where
  "ring_send sender ty data len r =
     (if r_count r \<ge> CHANNEL_RING_SIZE then None
      else Some (r\<lparr> r_ring := (r_ring r)(r_tail r := \<lparr> m_sender = sender, m_type = ty, m_length = len,
                      m_data = copy_in data len (m_data (r_ring r (r_tail r))) \<rparr>),
                    r_tail := (r_tail r + 1) mod CHANNEL_RING_SIZE,
                    r_count := r_count r + 1 \<rparr>))"

definition ring_recv :: "chan_ring \<Rightarrow> (yam_message \<times> chan_ring) option" where
  "ring_recv r =
     (if r_count r = 0 then None
      else Some (r_ring r (r_head r),
                 r\<lparr> r_head := (r_head r + 1) mod CHANNEL_RING_SIZE, r_count := r_count r - 1 \<rparr>))"

definition channel_send ::
  "nat option \<Rightarrow> yam_node_id \<Rightarrow> u32 \<Rightarrow> (nat \<Rightarrow> u8) option \<Rightarrow> u32 \<Rightarrow> chan_world \<Rightarrow> bool \<times> chan_world" where
  "channel_send ch sender ty data len w =
     (case ch of
        None \<Rightarrow> (False, w)
      | Some i \<Rightarrow> let chan = channels w i in
          if \<not> c_active chan then (False, w)
          else if unat len > CHANNEL_MSG_MAX_SIZE then (False, w)
          else if sender \<noteq> c_endpoint_a chan \<and> sender \<noteq> c_endpoint_b chan then (False, w)
          else if \<not> yamgraph_has_permission sender (c_node_id chan) YAM_PERM_WRITE (cw_graph w)
            then (False, w)
          else if sender = c_endpoint_a chan then
            (case ring_send sender ty data len (c_a_to_b chan) of
               None \<Rightarrow> (False, w)
             | Some r \<Rightarrow> (True, upd_channel i (\<lambda>c. c\<lparr> c_a_to_b := r \<rparr>) w))
          else
            (case ring_send sender ty data len (c_b_to_a chan) of
               None \<Rightarrow> (False, w)
             | Some r \<Rightarrow> (True, upd_channel i (\<lambda>c. c\<lparr> c_b_to_a := r \<rparr>) w)))"

text \<open>\<open>None\<close> is a returned false; the message is what \<^verbatim>\<open>memcpy\<close> puts in \<^verbatim>\<open>*out\<close>.\<close>

definition channel_recv :: "nat option \<Rightarrow> yam_node_id \<Rightarrow> chan_world \<Rightarrow> (yam_message \<times> chan_world) option"
where
  "channel_recv ch receiver w =
     (case ch of
        None \<Rightarrow> None
      | Some i \<Rightarrow> let chan = channels w i in
          if \<not> c_active chan then None
          else if receiver = c_endpoint_b chan then
            (case ring_recv (c_a_to_b chan) of
               None \<Rightarrow> None
             | Some (m, r) \<Rightarrow> Some (m, upd_channel i (\<lambda>c. c\<lparr> c_a_to_b := r \<rparr>) w))
          else if receiver = c_endpoint_a chan then
            (case ring_recv (c_b_to_a chan) of
               None \<Rightarrow> None
             | Some (m, r) \<Rightarrow> Some (m, upd_channel i (\<lambda>c. c\<lparr> c_b_to_a := r \<rparr>) w))
          else None)"

definition channel_close :: "nat option \<Rightarrow> chan_world \<Rightarrow> chan_world" where
  "channel_close ch w =
     (case ch of
        None \<Rightarrow> w
      | Some i \<Rightarrow>
          let w1 = upd_channel i (\<lambda>c. c\<lparr> c_active := False \<rparr>) w
          in w1\<lparr> cw_graph := snd (yamgraph_node_destroy (c_node_id (channels w1 i)) (cw_graph w1)) \<rparr>)"

definition channel_has_message :: "nat option \<Rightarrow> yam_node_id \<Rightarrow> chan_world \<Rightarrow> bool" where
  "channel_has_message ch receiver w =
     (case ch of
        None \<Rightarrow> False
      | Some i \<Rightarrow> let chan = channels w i in
          if \<not> c_active chan then False
          else if receiver = c_endpoint_b chan then r_count (c_a_to_b chan) > 0
          else if receiver = c_endpoint_a chan then r_count (c_b_to_a chan) > 0
          else False)"

section \<open>The rings as queues of messages\<close>

text \<open>What a receiver may rely on of a message: its sender, its type and its \<^verbatim>\<open>length\<close> bytes.\<close>

type_synonym packet = "yam_node_id \<times> u32 \<times> u8 list"

definition view_msg :: "yam_message \<Rightarrow> packet" where
  "view_msg m = (m_sender m, m_type m, map (m_data m) [0..<unat (m_length m)])"

definition ring_view :: "chan_ring \<Rightarrow> packet list" where
  "ring_view r = map view_msg (ring_contents CHANNEL_RING_SIZE (r_ring r) (r_head r) (r_count r))"

definition ring_wf :: "chan_ring \<Rightarrow> bool" where
  "ring_wf r \<longleftrightarrow> r_head r < CHANNEL_RING_SIZE \<and> r_count r \<le> CHANNEL_RING_SIZE
     \<and> r_tail r = (r_head r + r_count r) mod CHANNEL_RING_SIZE"

lemma ring_size_pos [simp]: "0 < CHANNEL_RING_SIZE" by (simp add: yam_consts)

lemma length_ring_view [simp]: "length (ring_view r) = r_count r"
  by (simp add: ring_view_def)

lemma ring_wf_zero: "ring_wf zero_ring"
  by (simp add: ring_wf_def zero_ring_def)

lemma ring_view_zero [simp]: "ring_view zero_ring = []"
  by (simp add: ring_view_def zero_ring_def)

lemma ring_send_None_iff: "ring_send s ty d len r = None \<longleftrightarrow> CHANNEL_RING_SIZE \<le> r_count r"
  by (simp add: ring_send_def)

lemma ring_send_Some:
  assumes wf: "ring_wf r" and s: "ring_send sender ty (Some d) len r = Some r'"
  shows "ring_wf r' \<and> ring_view r' = ring_view r @ [(sender, ty, map d [0..<unat len])]"
proof
  have c: "r_count r < CHANNEL_RING_SIZE"
    using s by (simp add: ring_send_def split: if_splits)
  let ?m = "\<lparr> m_sender = sender, m_type = ty, m_length = len,
    m_data = copy_in (Some d) len (m_data (r_ring r (r_tail r))) \<rparr>"
  have r': "r' = r\<lparr> r_ring := (r_ring r)(r_tail r := ?m),
      r_tail := (r_tail r + 1) mod CHANNEL_RING_SIZE, r_count := r_count r + 1 \<rparr>"
    using s c by (simp add: ring_send_def)
  show "ring_wf r'"
    using wf c by (simp add: r' ring_wf_def mod_simps)
  have "view_msg ?m = (sender, ty, map d [0..<unat len])"
    by (simp add: view_msg_def copy_in_def)
  then show "ring_view r' = ring_view r @ [(sender, ty, map d [0..<unat len])]"
    using wf ring_contents_push [OF c, of "r_ring r" "r_head r" ?m]
    by (simp add: r' ring_view_def ring_wf_def)
qed

lemma ring_recv_Nil: "ring_view r = [] \<Longrightarrow> ring_recv r = None"
  by (metis length_0_conv length_ring_view ring_recv_def)

lemma ring_recv_Cons:
  assumes wf: "ring_wf r" and v: "ring_view r = p # ps"
  shows "\<exists>m r'. ring_recv r = Some (m, r') \<and> view_msg m = p \<and> ring_wf r' \<and> ring_view r' = ps"
proof -
  have c: "0 < r_count r" using v length_ring_view [of r] by simp
  let ?r = "r\<lparr> r_head := (r_head r + 1) mod CHANNEL_RING_SIZE, r_count := r_count r - 1 \<rparr>"
  have "ring_recv r = Some (r_ring r (r_head r), ?r)" using c by (simp add: ring_recv_def)
  moreover have "ring_wf ?r"
    using wf c ring_tail_pop [OF c] by (auto simp: ring_wf_def)
  moreover have "view_msg (r_ring r (r_head r)) = p \<and> ring_view ?r = ps"
    using ring_contents_pop [OF c, of CHANNEL_RING_SIZE "r_ring r" "r_head r"] v wf
    by (simp add: ring_view_def ring_wf_def)
  ultimately show ?thesis by blast
qed

section \<open>Both directions of a channel are bounded queues\<close>

text \<open>
  A send of a packet and a receive, as the queue contract has them.  The source's length argument
  is a \<^verbatim>\<open>u32\<close>: a longer byte list is not a call that exists.
\<close>

definition chan_put :: "nat \<Rightarrow> packet \<Rightarrow> chan_world \<Rightarrow> chan_world option" where
  "chan_put i p w = (case p of (sender, ty, bs) \<Rightarrow>
     if length bs \<ge> 2 ^ 32 then None
     else case channel_send (Some i) sender ty (Some (\<lambda>j. bs ! j)) (of_nat (length bs)) w of
       (ok, w') \<Rightarrow> if ok then Some w' else None)"

definition chan_take :: "nat \<Rightarrow> yam_node_id \<Rightarrow> chan_world \<Rightarrow> (packet \<times> chan_world) option" where
  "chan_take i receiver w =
     (case channel_recv (Some i) receiver w of None \<Rightarrow> None | Some (m, w') \<Rightarrow> Some (view_msg m, w'))"

definition packet_ok :: "yam_node_id \<Rightarrow> packet \<Rightarrow> bool" where
  "packet_ok sender p \<longleftrightarrow> fst p = sender \<and> length (snd (snd p)) \<le> CHANNEL_MSG_MAX_SIZE"

definition chan_open :: "nat \<Rightarrow> yam_node_id \<Rightarrow> yam_node_id \<Rightarrow> chan_world \<Rightarrow> bool" where
  "chan_open i a b w \<longleftrightarrow> (let c = channels w i in
     c_active c \<and> c_endpoint_a c = a \<and> c_endpoint_b c = b
     \<and> yamgraph_has_permission a (c_node_id c) YAM_PERM_WRITE (cw_graph w)
     \<and> yamgraph_has_permission b (c_node_id c) YAM_PERM_WRITE (cw_graph w)
     \<and> ring_wf (c_a_to_b c) \<and> ring_wf (c_b_to_a c))"

definition view_ab :: "nat \<Rightarrow> chan_world \<Rightarrow> packet list" where
  "view_ab i w = ring_view (c_a_to_b (channels w i))"

definition view_ba :: "nat \<Rightarrow> chan_world \<Rightarrow> packet list" where
  "view_ba i w = ring_view (c_b_to_a (channels w i))"

text \<open>
  The clients of one direction: the sender's sends carry its identity, so the contract fixes the
  sender in \<open>put\<close>.
\<close>

definition put_from :: "nat \<Rightarrow> yam_node_id \<Rightarrow> packet \<Rightarrow> chan_world \<Rightarrow> chan_world option" where
  "put_from i sender p w = (if fst p = sender then chan_put i p w else None)"

lemma unat_packet_len: "length bs \<le> CHANNEL_MSG_MAX_SIZE \<Longrightarrow> unat (of_nat (length bs) :: u32) = length bs"
  by (simp add: yam_consts unat_of_nat_lt)

lemma upd_channel_simps [simp]:
  "channels (upd_channel i f w) j = (if j = i then f (channels w i) else channels w j)"
  "cw_graph (upd_channel i f w) = cw_graph w"
  by (simp_all add: upd_channel_def)

lemma put_from_bad: "\<not> packet_ok s p \<Longrightarrow> put_from i s p w = None"
  by (cases p) (auto simp: packet_ok_def put_from_def chan_put_def channel_send_def Let_def
      unat_of_nat_lt)

lemma put_from_a:
  assumes "chan_open i a b w" "packet_ok a p"
  shows "put_from i a p w =
    (case ring_send a (fst (snd p)) (Some (\<lambda>j. snd (snd p) ! j)) (of_nat (length (snd (snd p))))
        (c_a_to_b (channels w i)) of
       None \<Rightarrow> None | Some r \<Rightarrow> Some (upd_channel i (\<lambda>c. c\<lparr> c_a_to_b := r \<rparr>) w))"
proof -
  have "length (snd (snd p)) < 2 ^ 32" using assms(2) by (simp add: packet_ok_def yam_consts)
  then show ?thesis
    using assms
    by (cases p) (auto simp: put_from_def chan_put_def channel_send_def Let_def packet_ok_def
        chan_open_def unat_packet_len not_less not_le split: option.splits)
qed

lemma put_from_b:
  assumes "chan_open i a b w" "packet_ok b p" "a \<noteq> b"
  shows "put_from i b p w =
    (case ring_send b (fst (snd p)) (Some (\<lambda>j. snd (snd p) ! j)) (of_nat (length (snd (snd p))))
        (c_b_to_a (channels w i)) of
       None \<Rightarrow> None | Some r \<Rightarrow> Some (upd_channel i (\<lambda>c. c\<lparr> c_b_to_a := r \<rparr>) w))"
proof -
  have "length (snd (snd p)) < 2 ^ 32" using assms(2) by (simp add: packet_ok_def yam_consts)
  then show ?thesis
    using assms
    by (cases p) (auto simp: put_from_def chan_put_def channel_send_def Let_def packet_ok_def
        chan_open_def unat_packet_len not_less not_le split: option.splits)
qed

lemma send_packet:
  assumes "ring_wf r" "packet_ok s p" "r_count r < CHANNEL_RING_SIZE"
  shows "\<exists>r'. ring_send s (fst (snd p)) (Some (\<lambda>j. snd (snd p) ! j)) (of_nat (length (snd (snd p)))) r
    = Some r' \<and> ring_wf r' \<and> ring_view r' = ring_view r @ [p]"
proof -
  obtain r' where r': "ring_send s (fst (snd p)) (Some (\<lambda>j. snd (snd p) ! j))
      (of_nat (length (snd (snd p)))) r = Some r'"
    using assms(3) by (auto simp: ring_send_def)
  have "map (\<lambda>j. snd (snd p) ! j) [0..<length (snd (snd p))] = snd (snd p)"
    by (rule map_nth)
  with ring_send_Some [OF assms(1) r'] r' assms(2) show ?thesis
    by (cases p) (auto simp: packet_ok_def unat_packet_len)
qed

interpretation chan_ab: bounded_fifo "put_from i a" "chan_take i b" "view_ab i" "chan_open i a b"
  "packet_ok a" CHANNEL_RING_SIZE for i a b
proof unfold_locales
  fix s :: chan_world and p
  show "chan_open i a b s \<Longrightarrow> length (view_ab i s) \<le> CHANNEL_RING_SIZE"
    by (simp add: chan_open_def Let_def view_ab_def ring_wf_def)
  show "chan_open i a b s \<Longrightarrow> \<not> packet_ok a p \<or> length (view_ab i s) = CHANNEL_RING_SIZE \<Longrightarrow>
      put_from i a p s = None"
    by (cases "packet_ok a p") (simp_all add: put_from_bad put_from_a view_ab_def ring_send_def)
  show "chan_open i a b s \<Longrightarrow> packet_ok a p \<Longrightarrow> length (view_ab i s) < CHANNEL_RING_SIZE \<Longrightarrow>
      \<exists>s'. put_from i a p s = Some s' \<and> chan_open i a b s' \<and> view_ab i s' = view_ab i s @ [p]"
    using send_packet [of "c_a_to_b (channels s i)" a p]
    by (auto simp: put_from_a view_ab_def chan_open_def Let_def)
  show "chan_open i a b s \<Longrightarrow> view_ab i s = [] \<Longrightarrow> chan_take i b s = None"
    using ring_recv_Nil [of "c_a_to_b (channels s i)"]
    by (simp add: chan_take_def channel_recv_def view_ab_def chan_open_def Let_def)
  fix x xs
  show "chan_open i a b s \<Longrightarrow> view_ab i s = x # xs \<Longrightarrow>
      \<exists>s'. chan_take i b s = Some (x, s') \<and> chan_open i a b s' \<and> view_ab i s' = xs"
    using ring_recv_Cons [of "c_a_to_b (channels s i)" x xs]
    by (auto simp: chan_take_def channel_recv_def view_ab_def chan_open_def Let_def)
qed

text \<open>The other direction needs distinct endpoints: on a self-loop every receive takes from A's ring.\<close>

interpretation chan_ba: bounded_fifo "put_from i b" "chan_take i a" "view_ba i"
  "\<lambda>w. chan_open i a b w \<and> a \<noteq> b" "packet_ok b" CHANNEL_RING_SIZE for i a b
proof unfold_locales
  fix s :: chan_world and p
  show "chan_open i a b s \<and> a \<noteq> b \<Longrightarrow> length (view_ba i s) \<le> CHANNEL_RING_SIZE"
    by (simp add: chan_open_def Let_def view_ba_def ring_wf_def)
  show "chan_open i a b s \<and> a \<noteq> b \<Longrightarrow> \<not> packet_ok b p \<or> length (view_ba i s) = CHANNEL_RING_SIZE \<Longrightarrow>
      put_from i b p s = None"
    using put_from_b [of i a b s p]
    by (cases "packet_ok b p") (simp_all add: put_from_bad view_ba_def ring_send_def)
  show "chan_open i a b s \<and> a \<noteq> b \<Longrightarrow> packet_ok b p \<Longrightarrow> length (view_ba i s) < CHANNEL_RING_SIZE \<Longrightarrow>
      \<exists>s'. put_from i b p s = Some s' \<and> (chan_open i a b s' \<and> a \<noteq> b)
        \<and> view_ba i s' = view_ba i s @ [p]"
    using send_packet [of "c_b_to_a (channels s i)" b p]
    by (auto simp: put_from_b view_ba_def chan_open_def Let_def)
  show "chan_open i a b s \<and> a \<noteq> b \<Longrightarrow> view_ba i s = [] \<Longrightarrow> chan_take i a s = None"
    using ring_recv_Nil [of "c_b_to_a (channels s i)"]
    by (auto simp: chan_take_def channel_recv_def view_ba_def chan_open_def Let_def)
  fix x xs
  show "chan_open i a b s \<and> a \<noteq> b \<Longrightarrow> view_ba i s = x # xs \<Longrightarrow>
      \<exists>s'. chan_take i a s = Some (x, s') \<and> (chan_open i a b s' \<and> a \<noteq> b) \<and> view_ba i s' = xs"
    using ring_recv_Cons [of "c_b_to_a (channels s i)" x xs]
    by (auto simp: chan_take_def channel_recv_def view_ba_def chan_open_def Let_def)
qed

section \<open>Creating and closing a channel\<close>

lemma link_grants:
  assumes wf: "graph_wf g" and ok: "link_ok src dst g"
  shows "grants (snd (yamgraph_edge_link src dst ty perms g)) (next_edge_id g) src dst perms"
  using ok by (simp add: edge_link_accepted graph_wfD(1) [OF wf] grants_def)

lemma grants_mono_link:
  assumes wf: "graph_wf g" and g: "grants g k src dst perm"
  shows "grants (snd (yamgraph_edge_link a b ty perms g)) k src dst perm"
proof (cases "link_ok a b g")
  case True
  have "k \<noteq> next_edge_id g"
    using g graph_wfD(3) [OF wf] by (auto simp: grants_def wf_edges_def)
  with True g show ?thesis by (simp add: edge_link_accepted graph_wfD(1) [OF wf] grants_def)
next
  case False
  with g show ?thesis by (simp add: edge_link_refused)
qed

lemma node_get_link:
  assumes wf: "graph_wf g"
  shows "yamgraph_node_get j (snd (yamgraph_edge_link a b ty perms g)) \<noteq> None \<longleftrightarrow>
    yamgraph_node_get j g \<noteq> None"
  by (cases "link_ok a b g")
    (simp_all add: edge_link_accepted graph_wfD(1) [OF wf] edge_link_refused yamgraph_node_get_def Let_def)

text \<open>The pools have room for the channel's node and its two edges.\<close>

definition room_for_channel :: "yam_node_id \<Rightarrow> yam_node_id \<Rightarrow> chan_world \<Rightarrow> bool" where
  "room_for_channel a b w \<longleftrightarrow> channel_count w < MAX_CHANNELS
     \<and> next_node_id (cw_graph w) < YAMGRAPH_MAX_NODES
     \<and> Suc (next_edge_id (cw_graph w)) < YAMGRAPH_MAX_EDGES
     \<and> yamgraph_node_get a (cw_graph w) \<noteq> None \<and> yamgraph_node_get b (cw_graph w) \<noteq> None"

lemma node_create_get:
  assumes wf: "graph_wf g" and lt: "next_node_id g < YAMGRAPH_MAX_NODES"
    and r: "yamgraph_node_create ty name data g = (nid, g1)"
  shows "yamgraph_node_get nid g1 \<noteq> None" "next_edge_id g1 = next_edge_id g"
    "yamgraph_node_get a g \<noteq> None \<Longrightarrow> yamgraph_node_get a g1 \<noteq> None" "graph_wf g1"
proof -
  have u: "unat (of_nat (next_node_id g) :: u64) = next_node_id g"
    using lt by (simp add: yam_consts unat_of_nat_lt)
  show "yamgraph_node_get nid g1 \<noteq> None" "next_edge_id g1 = next_edge_id g"
    using r lt u by (auto simp: yamgraph_node_create_def yamgraph_node_get_def Let_def)
  show "yamgraph_node_get a g \<noteq> None \<Longrightarrow> yamgraph_node_get a g1 \<noteq> None"
    using r lt by (auto simp: yamgraph_node_create_def yamgraph_node_get_def Let_def split: if_splits)
  show "graph_wf g1" using graph_wf_node_create [OF wf, of ty name data] r by simp
qed

lemma channel_create_open:
  assumes wf: "graph_wf (cw_graph w)" and room: "room_for_channel a b w"
    and r: "channel_create name a b w = (ch, w')"
  shows "ch = Some (channel_count w)" "chan_open (channel_count w) a b w'"
    "view_ab (channel_count w) w' = []" "view_ba (channel_count w) w' = []" "graph_wf (cw_graph w')"
proof -
  let ?i = "channel_count w" and ?p = "YAM_PERM_READ OR YAM_PERM_WRITE"
  obtain nid g1 where c: "yamgraph_node_create YAM_NODE_CHANNEL name (Data_channel ?i) (cw_graph w)
    = (nid, g1)" by fastforce
  define g2 where "g2 = snd (yamgraph_edge_link a nid YAM_EDGE_CHANNEL ?p g1)"
  define g3 where "g3 = snd (yamgraph_edge_link b nid YAM_EDGE_CHANNEL ?p g2)"
  note C = node_create_get [OF wf _ c]
  have lt: "next_node_id (cw_graph w) < YAMGRAPH_MAX_NODES" using room by (simp add: room_for_channel_def)
  have wf1: "graph_wf g1" by (rule C(4) [OF lt])
  have ok1: "link_ok a nid g1"
    using room C [OF lt] by (simp add: room_for_channel_def link_ok_def)
  have wf2: "graph_wf g2" unfolding g2_def by (rule graph_wf_edge_link [OF wf1])
  have "next_edge_id g2 = Suc (next_edge_id g1)"
    unfolding g2_def using ok1 by (simp add: edge_link_accepted graph_wfD(1) [OF wf1])
  then have ok2: "link_ok b nid g2"
    using room C [OF lt] node_get_link [OF wf1] by (simp add: room_for_channel_def link_ok_def g2_def)
  have wf3: "graph_wf g3" unfolding g3_def by (rule graph_wf_edge_link [OF wf2])
  have ga: "grants g3 (next_edge_id g1) a nid ?p" unfolding g3_def
    by (rule grants_mono_link [OF wf2]) (simp add: g2_def link_grants [OF wf1 ok1])
  have gb: "grants g3 (next_edge_id g2) b nid ?p" unfolding g3_def by (rule link_grants [OF wf2 ok2])
  have perm: "yamgraph_has_permission x nid YAM_PERM_WRITE g3" if "grants g3 k x nid ?p" for x k
  proof -
    have "(e_perms (edges g3 k) AND 2) = ((e_perms (edges g3 k) AND 3) AND 2)"
      by (simp add: and.assoc)
    also have "(e_perms (edges g3 k) AND 3) = 3"
      using that by (simp add: grants_def yam_consts)
    finally have "(e_perms (edges g3 k) AND 2) = 2" by simp
    with that have "grants g3 k x nid YAM_PERM_WRITE" by (simp add: grants_def yam_consts)
    then show ?thesis using has_permission_iff [OF wf3] by blast
  qed
  have w': "ch = Some ?i \<and> w' = w\<lparr> cw_graph := g3, channels := (channels w)(?i := \<lparr> c_node_id = nid,
      c_endpoint_a = a, c_endpoint_b = b, c_a_to_b = zero_ring, c_b_to_a = zero_ring,
      c_active = True \<rparr>), channel_count := Suc ?i \<rparr>"
    using r room c by (auto simp: channel_create_def room_for_channel_def Let_def g2_def g3_def
        split: prod.splits)
  then show "ch = Some ?i" "view_ab ?i w' = []" "view_ba ?i w' = []" "graph_wf (cw_graph w')"
    using wf3 by (simp_all add: view_ab_def view_ba_def)
  show "chan_open ?i a b w'"
    using w' perm [OF ga] perm [OF gb] by (simp add: chan_open_def ring_wf_zero)
qed

section \<open>Properties\<close>

definition demo_world :: chan_world where
  "demo_world = \<lparr> cw_graph = demo_graph, channels = (\<lambda>_. \<lparr> c_node_id = 0, c_endpoint_a = 0,
     c_endpoint_b = 0, c_a_to_b = zero_ring, c_b_to_a = zero_ring, c_active = False \<rparr>),
     channel_count = 0 \<rparr>"

definition demo_open :: chan_world where
  "demo_open = snd (channel_create (Some ''ipc0'') 1 2 demo_world)"

lemmas channel_eval = demo_world_def demo_open_def channel_create_def channel_send_def
  channel_recv_def ring_send_def ring_recv_def zero_ring_def zero_message_def copy_in_def
  upd_channel_def put_from_def chan_put_def chan_take_def view_msg_def view_ab_def view_ba_def
  ring_view_def ring_contents_def room_for_channel_def

lemma demo_room: "room_for_channel 1 2 demo_world"
  by (simp add: channel_eval graph_eval yam_consts)

lemma demo_create: "channel_create (Some ''ipc0'') 1 2 demo_world = (Some 0, demo_open)"
proof -
  have "fst (channel_create (Some ''ipc0'') 1 2 demo_world) = Some 0"
    by (simp add: channel_create_def demo_world_def yam_consts Let_def split: prod.split)
  then show ?thesis by (simp add: demo_open_def prod_eq_iff)
qed

text \<open>C9. A channel created between two live nodes is a reliable bounded queue from its A end to
its B end: for every interleaving of sends by A and receives by B, the packets accepted are exactly
those delivered, in order and with the sender, type and payload bytes they were sent with, followed
by those still queued, and never more than the ring's 64 slots are outstanding.\<close>

theorem channel_in_order:
  assumes "graph_reachable (cw_graph w)" "room_for_channel a b w"
    "channel_create name a b w = (Some i, w0)"
    "fifo_run (put_from i a) (chan_take i b) w0 ops = (accepted, delivered, w1)"
  shows "accepted = delivered @ view_ab i w1 \<and>
    length accepted \<le> length delivered + CHANNEL_RING_SIZE"
proof -
  note c = channel_create_open [OF reachable_wf [OF assms(1)] assms(2,3)]
  then have "chan_open i a b w0" "view_ab i w0 = []" by auto
  with chan_ab.run_in_order [OF _ assms(4)] chan_ab.run_bounded [OF _ assms(4)] show ?thesis
    by simp
qed

theorem channel_in_order_witness:
  "[(1, 7, [10, 20]), (1, 8, [30])] =
    [(1, 7, [10, 20 :: u8])] @ view_ab 0 (snd (snd (fifo_run (put_from 0 1) (chan_take 0 2) demo_open
      [Put (1, 7, [10, 20]), Put (2, 9, []), Put (1, 8, [30]), Get])))"
proof -
  let ?r = "fifo_run (put_from 0 1) (chan_take 0 2) demo_open
    [Put (1, 7, [10, 20]), Put (2, 9, []), Put (1, 8, [30]), Get]"
  have "fst ?r = [(1, 7, [10, 20]), (1, 8, [30])]" "fst (snd ?r) = [(1, 7, [10, 20])]"
    by (simp_all add: channel_eval graph_eval yam_consts upt_conv_Cons)
  then have "?r = ([(1, 7, [10, 20]), (1, 8, [30])], [(1, 7, [10, 20])], snd (snd ?r))"
    by (simp add: prod_eq_iff)
  moreover have "graph_reachable (cw_graph demo_world)"
    by (simp add: demo_world_def demo_reachable)
  ultimately show ?thesis
    using channel_in_order [OF _ demo_room demo_create] by blast
qed

text \<open>The B end's sends are delivered to A by the same contract when the endpoints differ.\<close>

theorem channel_in_order_back:
  assumes "graph_reachable (cw_graph w)" "room_for_channel a b w" "a \<noteq> b"
    "channel_create name a b w = (Some i, w0)"
    "fifo_run (put_from i b) (chan_take i a) w0 ops = (accepted, delivered, w1)"
  shows "accepted = delivered @ view_ba i w1 \<and>
    length accepted \<le> length delivered + CHANNEL_RING_SIZE"
proof -
  note c = channel_create_open [OF reachable_wf [OF assms(1)] assms(2,4)]
  then have "chan_open i a b w0 \<and> a \<noteq> b" "view_ba i w0 = []" using assms(3) by auto
  with chan_ba.run_in_order [OF _ assms(5)] chan_ba.run_bounded [OF _ assms(5)] show ?thesis
    by simp
qed

theorem channel_in_order_back_witness:
  "[(2, 7, [10, 20])] = [(2, 7, [10, 20 :: u8])] @ view_ba 0 (snd (snd (fifo_run (put_from 0 2)
    (chan_take 0 1) demo_open [Get, Put (2, 7, [10, 20]), Get])))"
proof -
  let ?r = "fifo_run (put_from 0 2) (chan_take 0 1) demo_open [Get, Put (2, 7, [10, 20]), Get]"
  have "fst ?r = [(2, 7, [10, 20])]" "fst (snd ?r) = [(2, 7, [10, 20])]"
    by (simp_all add: channel_eval graph_eval yam_consts upt_conv_Cons)
  then have "?r = ([(2, 7, [10, 20])], [(2, 7, [10, 20])], snd (snd ?r))"
    by (simp add: prod_eq_iff)
  moreover have "graph_reachable (cw_graph demo_world)"
    by (simp add: demo_world_def demo_reachable)
  ultimately show ?thesis
    using channel_in_order_back [OF _ demo_room _ demo_create] by fastforce
qed

text \<open>C19. A message enters a channel only with authority: a send that returns true came from an
endpoint of an active channel, with at most 256 bytes, while the graph held a live edge from the
sender to the channel's node that carries WRITE (the kernel root needs none), and it changes nothing
but the ring of the sender's direction.\<close>

theorem channel_send_authorised:
  assumes "graph_reachable (cw_graph w)" "channel_send ch sender ty data len w = (True, w')"
  shows "\<exists>i. ch = Some i \<and> c_active (channels w i) \<and> unat len \<le> CHANNEL_MSG_MAX_SIZE
    \<and> sender \<in> {c_endpoint_a (channels w i), c_endpoint_b (channels w i)}
    \<and> (sender = 0 \<or> (\<exists>k. grants (cw_graph w) k sender (c_node_id (channels w i)) YAM_PERM_WRITE))
    \<and> cw_graph w' = cw_graph w
    \<and> (\<forall>j. j \<noteq> i \<longrightarrow> channels w' j = channels w j)
    \<and> (sender = c_endpoint_a (channels w i) \<longrightarrow>
         c_b_to_a (channels w' i) = c_b_to_a (channels w i))
    \<and> (sender \<noteq> c_endpoint_a (channels w i) \<longrightarrow>
         c_a_to_b (channels w' i) = c_a_to_b (channels w i))"
  using assms(2) has_permission_iff [OF reachable_wf [OF assms(1)]]
  by (auto simp: channel_send_def Let_def not_less split: option.splits if_splits)

theorem channel_send_authorised_witness:
  "fst (channel_send (Some 0) 1 7 None 0 demo_open) \<and> c_active (channels demo_open 0)
    \<and> (\<exists>k. grants (cw_graph demo_open) k 1 (c_node_id (channels demo_open 0)) YAM_PERM_WRITE)"
proof -
  have f: "fst (channel_send (Some 0) 1 7 None 0 demo_open)"
    by (simp add: channel_eval graph_eval yam_consts)
  then have s: "channel_send (Some 0) 1 7 None 0 demo_open =
      (True, snd (channel_send (Some 0) 1 7 None 0 demo_open))"
    by (simp add: prod_eq_iff)
  have "cw_graph demo_open = fold graph_step
      [Node_create YAM_NODE_CHANNEL (Some ''ipc0'') (Data_channel 0), Edge_link 1 3 YAM_EDGE_CHANNEL 3,
       Edge_link 2 3 YAM_EDGE_CHANNEL 3] demo_graph"
    by (simp add: demo_open_def demo_world_def channel_create_def graph_eval yam_consts)
  then have "graph_reachable (cw_graph demo_open)"
    by (metis reachable_fold demo_reachable)
  from channel_send_authorised [OF this s] f show ?thesis by auto
qed

text \<open>C20. Closing is final for messages: after a close no send, receive or poll on that channel
succeeds for anybody, and the channel's node is gone from the graph.\<close>

theorem channel_close_final:
  assumes "c_node_id (channels w i) \<noteq> 0"
  shows "\<not> fst (channel_send (Some i) sender ty data len (channel_close (Some i) w))
    \<and> channel_recv (Some i) receiver (channel_close (Some i) w) = None
    \<and> \<not> channel_has_message (Some i) receiver (channel_close (Some i) w)
    \<and> yamgraph_node_get (c_node_id (channels w i)) (cw_graph (channel_close (Some i) w)) = None"
proof -
  let ?n = "c_node_id (channels w i)"
  have "yamgraph_node_get ?n (snd (yamgraph_node_destroy ?n (cw_graph w))) = None"
  proof (cases "yamgraph_node_get ?n (cw_graph w)")
    case None
    then show ?thesis by (simp add: node_destroy_refused)
  next
    case (Some nd)
    then show ?thesis
      using assms by (simp add: node_destroy_ok yamgraph_node_get_def upd_node_def Let_def)
  qed
  then show ?thesis
    by (simp add: channel_close_def channel_send_def channel_recv_def channel_has_message_def Let_def)
qed

theorem channel_close_final_witness:
  "fst (channel_send (Some 0) 1 7 None 0 demo_open)
    \<and> \<not> fst (channel_send (Some 0) 1 7 None 0 (channel_close (Some 0) demo_open))"
proof -
  have "fst (channel_send (Some 0) 1 7 None 0 demo_open)" "c_node_id (channels demo_open 0) \<noteq> 0"
    by (simp_all add: channel_eval graph_eval yam_consts)
  with channel_close_final [of demo_open 0 1 7 None 0 1] show ?thesis by blast
qed

end
