(* ===== verification/Pmm.thy ===== *)
theory Pmm
  imports Yam_Prelude
begin

text \<open>
  The physical memory manager of \<^verbatim>\<open>src/src/mem/pmm.c\<close>: quad-tree cells over the usable
  regions of the boot memory map, with zones, watermarks and page descriptors.

  Addresses, sizes and page counts are naturals below $2^{64}$, with the wrap-around of the
  source's \<^verbatim>\<open>u64\<close> arithmetic written out (\<open>add64\<close>, \<open>sub64\<close>, \<open>mul64\<close>).  Cell indices are naturals,
  \<open>NO_CELL\<close> is the source's 0xFFFF.  Recursion over the cell graph is \<open>partial_function\<close>: \<open>None\<close> is a
  run that does not return, and the termination lemmas show that it does not occur on the states the
  manager can reach.  The memory map is an argument (it comes from the boot loader); registered
  pressure callbacks are identifiers and a call of one is logged.
\<close>

section \<open>Types\<close>

definition add64 :: "nat \<Rightarrow> nat \<Rightarrow> nat" where "add64 a b = (a + b) mod 2 ^ 64"
definition mul64 :: "nat \<Rightarrow> nat \<Rightarrow> nat" where "mul64 a b = (a * b) mod 2 ^ 64"
definition sub64 :: "nat \<Rightarrow> nat \<Rightarrow> nat" where "sub64 a b = (a + 2 ^ 64 - b) mod 2 ^ 64"

definition PAGE_SIZE :: nat where [yam_consts]: "PAGE_SIZE = 4096"
definition ZONE_DMA_LIMIT :: nat where [yam_consts]: "ZONE_DMA_LIMIT = 0x1000000"
definition ZONE_DMA32_LIMIT :: nat where [yam_consts]: "ZONE_DMA32_LIMIT = 0x100000000"
definition MAX_PHYS_PAGES :: nat where [yam_consts]: "MAX_PHYS_PAGES = 1024 * 1024"
definition CELL_POOL_SIZE :: nat where [yam_consts]: "CELL_POOL_SIZE = 16384"
definition MAX_PRESSURE_CBS :: nat where [yam_consts]: "MAX_PRESSURE_CBS = 8"
definition NO_CELL :: nat where [yam_consts]: "NO_CELL = 0xFFFF"
definition PAGE_FLAG_RESERVED :: u32 where [yam_consts]: "PAGE_FLAG_RESERVED = 1"
definition PAGE_FLAG_LRU :: u32 where [yam_consts]: "PAGE_FLAG_LRU = 8"
definition PAGE_FLAG_DIRTY :: u32 where [yam_consts]: "PAGE_FLAG_DIRTY = 16"

datatype mem_zone_type = ZONE_DMA | ZONE_DMA32 | ZONE_NORMAL

datatype cell_state = CELL_FREE | CELL_SPLIT | CELL_USED | CELL_RESERVED

record cell =
  cell_base :: nat
  cell_size :: nat
  cell_state :: cell_state
  cell_owner :: u64
  cell_parent :: nat
  cell_children :: "nat \<Rightarrow> nat"

record page =
  page_refcount :: u32
  page_flags :: u32
  page_zone :: mem_zone_type
  page_order :: u16
  page_owner :: u64

record mem_zone =
  zone_start :: nat
  zone_end :: nat
  zone_total_pages :: nat
  zone_free_pages :: nat
  zone_alloc_count :: nat
  watermark_min :: nat
  watermark_low :: nat
  watermark_high :: nat

record pmm =
  cells :: "nat \<Rightarrow> cell"
  cell_count :: nat
  total_mem :: nat
  free_mem :: nat
  hhdm_off :: nat
  last_used_cell :: nat
  zones :: "mem_zone_type \<Rightarrow> mem_zone"
  page_array :: "nat \<Rightarrow> page"
  max_pfn :: nat
  pressure_cbs :: "nat list"
  pressure_log :: "(nat \<times> mem_zone_type \<times> nat) list"

section \<open>Helpers and the cell pool\<close>

definition phys_to_pfn :: "nat \<Rightarrow> nat" where
  "phys_to_pfn phys = phys div 4096"

definition pfn_to_phys :: "nat \<Rightarrow> nat" where
  "pfn_to_phys pfn = mul64 pfn 4096"

definition phys_to_zone :: "nat \<Rightarrow> mem_zone_type" where
  "phys_to_zone phys =
     (if phys < ZONE_DMA_LIMIT then ZONE_DMA
      else if phys < ZONE_DMA32_LIMIT then ZONE_DMA32
      else ZONE_NORMAL)"

definition upd_cell :: "nat \<Rightarrow> (cell \<Rightarrow> cell) \<Rightarrow> pmm \<Rightarrow> pmm" where
  "upd_cell i f s = s\<lparr> cells := (cells s)(i := f (cells s i)) \<rparr>"

definition upd_zone :: "mem_zone_type \<Rightarrow> (mem_zone \<Rightarrow> mem_zone) \<Rightarrow> pmm \<Rightarrow> pmm" where
  "upd_zone z f s = s\<lparr> zones := (zones s)(z := f (zones s z)) \<rparr>"

definition upd_page :: "nat \<Rightarrow> (page \<Rightarrow> page) \<Rightarrow> pmm \<Rightarrow> pmm" where
  "upd_page i f s = s\<lparr> page_array := (page_array s)(i := f (page_array s i)) \<rparr>"

text \<open>
  \<^verbatim>\<open>for (p = 0; p < n && start + p < MAX_PHYS_PAGES; p++)\<close>: the loop body touches one descriptor
  each, so the loop is one pointwise update.
\<close>

definition upd_pages :: "nat \<Rightarrow> nat \<Rightarrow> (page \<Rightarrow> page) \<Rightarrow> pmm \<Rightarrow> pmm" where
  "upd_pages start n f s =
     s\<lparr> page_array := \<lambda>pfn. if start \<le> pfn \<and> pfn < start + n \<and> pfn < MAX_PHYS_PAGES
          then f (page_array s pfn) else page_array s pfn \<rparr>"

definition cell_alloc_node :: "pmm \<Rightarrow> nat \<times> pmm" where
  "cell_alloc_node s =
     (if cell_count s \<ge> CELL_POOL_SIZE then (NO_CELL, s)
      else (cell_count s,
            upd_cell (cell_count s)
              (\<lambda>c. c\<lparr> cell_children := \<lambda>_. NO_CELL, cell_parent := NO_CELL, cell_owner := 0 \<rparr>)
              (s\<lparr> cell_count := Suc (cell_count s) \<rparr>)))"

section \<open>Splitting, merging, searching\<close>

fun split_loop :: "nat list \<Rightarrow> nat \<Rightarrow> nat \<Rightarrow> pmm \<Rightarrow> bool \<times> pmm" where
  "split_loop [] idx child_size s = (True, s)"
| "split_loop (i # is) idx child_size s =
     (case cell_alloc_node s of (child, s1) \<Rightarrow>
        if child = NO_CELL then (False, s1)
        else split_loop is idx child_size
          (upd_cell idx (\<lambda>c. c\<lparr> cell_children := (cell_children c)(i := child) \<rparr>)
            (upd_cell child (\<lambda>c. c\<lparr> cell_base := add64 (cell_base (cells s1 idx)) (mul64 i child_size),
               cell_size := child_size, cell_state := CELL_FREE, cell_parent := idx \<rparr>) s1)))"

definition cell_split :: "nat \<Rightarrow> pmm \<Rightarrow> bool \<times> pmm" where
  "cell_split idx s =
     (if cell_state (cells s idx) \<noteq> CELL_FREE then (False, s)
      else if cell_size (cells s idx) < PAGE_SIZE * 4 then (False, s)
      else case split_loop [0, 1, 2, 3] idx (cell_size (cells s idx) div 4) s of (ok, s1) \<Rightarrow>
        if ok then (True, upd_cell idx (\<lambda>c. c\<lparr> cell_state := CELL_SPLIT \<rparr>) s1) else (False, s1))"

definition merge_once :: "nat \<Rightarrow> pmm \<Rightarrow> pmm" where
  "merge_once p s =
     upd_cell p (\<lambda>c. c\<lparr> cell_state := CELL_FREE \<rparr>)
       (fold (\<lambda>i s. upd_cell p (\<lambda>c. c\<lparr> cell_children := (cell_children c)(i := NO_CELL) \<rparr>)
           (upd_cell (cell_children (cells s p) i) (\<lambda>c. c\<lparr> cell_state := CELL_RESERVED \<rparr>) s))
         [0, 1, 2, 3] s)"

definition can_merge :: "nat \<Rightarrow> pmm \<Rightarrow> bool" where
  "can_merge idx s \<longleftrightarrow>
     (let p = cell_parent (cells s idx) in
      p \<noteq> NO_CELL \<and> cell_state (cells s p) = CELL_SPLIT
      \<and> (\<forall>i\<in>{0, 1, 2, 3}. cell_children (cells s p) i \<noteq> NO_CELL
           \<and> cell_state (cells s (cell_children (cells s p) i)) = CELL_FREE))"

partial_function (option) cell_try_merge :: "nat \<Rightarrow> pmm \<Rightarrow> pmm option" where
  "cell_try_merge idx s =
     (if can_merge idx s
      then cell_try_merge (cell_parent (cells s idx)) (merge_once (cell_parent (cells s idx)) s)
      else Some s)"

definition zone_limit :: "mem_zone_type \<Rightarrow> nat" where
  "zone_limit z = (case z of ZONE_DMA \<Rightarrow> ZONE_DMA_LIMIT | ZONE_DMA32 \<Rightarrow> ZONE_DMA32_LIMIT
     | ZONE_NORMAL \<Rightarrow> 2 ^ 64 - 1)"

definition fits :: "cell \<Rightarrow> nat \<Rightarrow> mem_zone_type \<Rightarrow> bool \<Rightarrow> bool" where
  "fits c min_size z strict \<longleftrightarrow>
     cell_size c \<ge> min_size \<and> \<not> (strict \<and> add64 (cell_base c) min_size > zone_limit z)"

partial_function (option) find_free_cell_zone ::
  "nat \<Rightarrow> nat \<Rightarrow> mem_zone_type \<Rightarrow> bool \<Rightarrow> pmm \<Rightarrow> nat option" where
  "find_free_cell_zone idx m z strict s =
     (if cell_state (cells s idx) = CELL_FREE
      then Some (if fits (cells s idx) m z strict then idx else NO_CELL)
      else if cell_state (cells s idx) = CELL_SPLIT then
        Option.bind (if cell_children (cells s idx) 0 \<noteq> NO_CELL
            then find_free_cell_zone (cell_children (cells s idx) 0) m z strict s else Some NO_CELL)
          (\<lambda>r0. if r0 \<noteq> NO_CELL then Some r0 else
        Option.bind (if cell_children (cells s idx) 1 \<noteq> NO_CELL
            then find_free_cell_zone (cell_children (cells s idx) 1) m z strict s else Some NO_CELL)
          (\<lambda>r1. if r1 \<noteq> NO_CELL then Some r1 else
        Option.bind (if cell_children (cells s idx) 2 \<noteq> NO_CELL
            then find_free_cell_zone (cell_children (cells s idx) 2) m z strict s else Some NO_CELL)
          (\<lambda>r2. if r2 \<noteq> NO_CELL then Some r2 else
        (if cell_children (cells s idx) 3 \<noteq> NO_CELL
            then find_free_cell_zone (cell_children (cells s idx) 3) m z strict s else Some NO_CELL))))
      else Some NO_CELL)"

section \<open>Zones\<close>

definition zone_update_watermarks :: "mem_zone \<Rightarrow> mem_zone" where
  "zone_update_watermarks z =
     z\<lparr> watermark_min := max 4 (zone_total_pages z div 64),
        watermark_low := max 8 (zone_total_pages z div 32),
        watermark_high := max 16 (zone_total_pages z div 16) \<rparr>"

definition check_pressure :: "mem_zone_type \<Rightarrow> pmm \<Rightarrow> pmm" where
  "check_pressure zt s =
     (if zone_free_pages (zones s zt) \<le> watermark_low (zones s zt)
      then s\<lparr> pressure_log := pressure_log s @
             map (\<lambda>cb. (cb, zt, zone_free_pages (zones s zt))) (pressure_cbs s) \<rparr>
      else s)"

definition init_page_descriptors :: "nat \<Rightarrow> nat \<Rightarrow> mem_zone_type \<Rightarrow> bool \<Rightarrow> pmm \<Rightarrow> pmm" where
  "init_page_descriptors base sz zt usable s =
     (let start_pfn = phys_to_pfn base; end_pfn = phys_to_pfn (add64 base sz);
          last = min end_pfn MAX_PHYS_PAGES;
          s1 = upd_pages start_pfn (end_pfn - start_pfn)
                 (\<lambda>p. \<lparr> page_refcount = 0, page_flags = (if usable then 0 else PAGE_FLAG_RESERVED),
                        page_zone = zt, page_order = 0, page_owner = 0 \<rparr>) s
      in if start_pfn < last then s1\<lparr> max_pfn := max (max_pfn s1) (last - 1) \<rparr> else s1)"

section \<open>Initialisation from the boot memory map\<close>

datatype memmap_type = MEMMAP_USABLE | MEMMAP_OTHER

text \<open>The entry kinds other than usable only select the string that is printed.\<close>

record memmap_entry =
  entry_base :: nat
  entry_length :: nat
  entry_type :: memmap_type

partial_function (option) chunk_loop :: "nat \<Rightarrow> nat \<Rightarrow> nat option" where
  "chunk_loop chunk sz = (if mul64 chunk 4 \<le> sz then chunk_loop (mul64 chunk 4) sz else Some chunk)"

definition add_root :: "nat \<Rightarrow> nat \<Rightarrow> pmm \<Rightarrow> pmm" where
  "add_root base chunk s =
     (case cell_alloc_node s of (idx, s1) \<Rightarrow>
        if idx = NO_CELL then s1
        else let s2 = upd_cell idx (\<lambda>c. c\<lparr> cell_base := base, cell_size := chunk,
                        cell_state := CELL_FREE \<rparr>) s1;
                 s3 = s2\<lparr> total_mem := add64 (total_mem s2) chunk, free_mem := add64 (free_mem s2) chunk \<rparr>
          in upd_zone (phys_to_zone base)
               (\<lambda>z. z\<lparr> zone_total_pages := add64 (zone_total_pages z) (chunk div PAGE_SIZE),
                       zone_free_pages := add64 (zone_free_pages z) (chunk div PAGE_SIZE) \<rparr>) s3)"

partial_function (option) carve :: "nat \<Rightarrow> nat \<Rightarrow> pmm \<Rightarrow> pmm option" where
  "carve base sz s =
     (if sz \<ge> PAGE_SIZE
      then Option.bind (chunk_loop PAGE_SIZE sz)
             (\<lambda>chunk. carve (add64 base chunk) (sub64 sz chunk) (add_root base chunk s))
      else Some s)"

definition page_up :: "nat \<Rightarrow> nat" where
  "page_up a = add64 a (PAGE_SIZE - 1) div PAGE_SIZE * PAGE_SIZE"

definition page_down :: "nat \<Rightarrow> nat" where
  "page_down a = a div PAGE_SIZE * PAGE_SIZE"

definition init_entry :: "memmap_entry \<Rightarrow> pmm \<Rightarrow> pmm option" where
  "init_entry e s =
     (let s1 = init_page_descriptors (entry_base e) (entry_length e) (phys_to_zone (entry_base e))
                 (entry_type e = MEMMAP_USABLE) s
      in if entry_type e = MEMMAP_USABLE \<and> entry_length e \<ge> PAGE_SIZE
         then let base = page_up (entry_base e);
                  end = page_down (add64 (entry_base e) (entry_length e))
           in carve base (sub64 end base) s1
         else Some s1)"

fun init_entries :: "memmap_entry list \<Rightarrow> pmm \<Rightarrow> pmm option" where
  "init_entries [] s = Some s"
| "init_entries (e # es) s = Option.bind (init_entry e s) (init_entries es)"

definition zero_cell :: cell where
  "zero_cell = \<lparr> cell_base = 0, cell_size = 0, cell_state = CELL_FREE, cell_owner = 0,
     cell_parent = 0, cell_children = \<lambda>_. 0 \<rparr>"

definition zero_page :: page where
  "zero_page = \<lparr> page_refcount = 0, page_flags = 0, page_zone = ZONE_DMA, page_order = 0,
     page_owner = 0 \<rparr>"

definition zero_zone :: "nat \<Rightarrow> nat \<Rightarrow> mem_zone" where
  "zero_zone a b = \<lparr> zone_start = a, zone_end = b, zone_total_pages = 0, zone_free_pages = 0,
     zone_alloc_count = 0, watermark_min = 0, watermark_low = 0, watermark_high = 0 \<rparr>"

definition pmm_clear :: "nat \<Rightarrow> pmm \<Rightarrow> pmm" where
  "pmm_clear hhdm s =
     s\<lparr> hhdm_off := hhdm, cells := \<lambda>_. zero_cell, page_array := \<lambda>_. zero_page, cell_count := 0,
        total_mem := 0, free_mem := 0, max_pfn := 0,
        zones := \<lambda>z. case z of ZONE_DMA \<Rightarrow> zero_zone 0 ZONE_DMA_LIMIT
                   | ZONE_DMA32 \<Rightarrow> zero_zone ZONE_DMA_LIMIT ZONE_DMA32_LIMIT
                   | ZONE_NORMAL \<Rightarrow> zero_zone ZONE_DMA32_LIMIT (2 ^ 64 - 1) \<rparr>"

definition pmm_init :: "memmap_entry list \<Rightarrow> nat \<Rightarrow> pmm \<Rightarrow> pmm option" where
  "pmm_init es hhdm s =
     map_option (\<lambda>s. s\<lparr> zones := \<lambda>z. zone_update_watermarks (zones s z) \<rparr>)
       (init_entries es (pmm_clear hhdm s))"

section \<open>Allocation and release\<close>

partial_function (option) split_down :: "nat \<Rightarrow> nat \<Rightarrow> pmm \<Rightarrow> (nat \<times> pmm) option" where
  "split_down found req s =
     (if cell_size (cells s found) div 4 \<ge> req \<and> cell_size (cells s found) \<ge> PAGE_SIZE * 4
      then (if fst (cell_split found s)
            then split_down (cell_children (cells (snd (cell_split found s)) found) 0) req
                   (snd (cell_split found s))
            else Some (found, snd (cell_split found s)))
      else Some (found, s))"

text \<open>The root indices in the order the loop visits them, starting after the last one used.\<close>

definition visit_order :: "pmm \<Rightarrow> nat list" where
  "visit_order s = map (\<lambda>i. (last_used_cell s + i) mod cell_count s) [0..<cell_count s]"

fun pick_root :: "nat list \<Rightarrow> nat \<Rightarrow> mem_zone_type \<Rightarrow> bool \<Rightarrow> pmm \<Rightarrow> (nat \<times> nat) option option" where
  "pick_root [] req z strict s = Some None"
| "pick_root (idx # is) req z strict s =
     (if cell_parent (cells s idx) \<noteq> NO_CELL then pick_root is req z strict s
      else Option.bind (find_free_cell_zone idx req z strict s)
        (\<lambda>found. if found = NO_CELL then pick_root is req z strict s else Some (Some (idx, found))))"

text \<open>Marking the chosen cell used, with the bookkeeping of the allocation.\<close>

definition take_cell :: "nat \<Rightarrow> nat \<Rightarrow> pmm \<Rightarrow> pmm" where
  "take_cell idx found s =
     (let size = cell_size (cells s found); base = cell_base (cells s found);
          s1 = (upd_cell found (\<lambda>c. c\<lparr> cell_state := CELL_USED \<rparr>) s)
                 \<lparr> free_mem := sub64 (free_mem s) size, last_used_cell := idx \<rparr>;
          s2 = upd_zone (phys_to_zone base)
                 (\<lambda>z. z\<lparr> zone_free_pages := sub64 (zone_free_pages z) (size div PAGE_SIZE),
                         zone_alloc_count := add64 (zone_alloc_count z) 1 \<rparr>) s1
      in upd_pages (phys_to_pfn base) (size div PAGE_SIZE)
           (\<lambda>p. p\<lparr> page_refcount := 1, page_flags := page_flags p AND NOT PAGE_FLAG_RESERVED,
                   page_order := 0 \<rparr>) s2)"

text \<open>One pass of the allocation loop: the address (0 when no cell was found) and the state.\<close>

definition alloc_pass :: "nat \<Rightarrow> mem_zone_type \<Rightarrow> bool \<Rightarrow> pmm \<Rightarrow> (nat \<times> pmm) option" where
  "alloc_pass count z strict s =
     (let req = mul64 count PAGE_SIZE in
      Option.bind (pick_root (visit_order s) req z strict s) (\<lambda>r.
        case r of
          None \<Rightarrow> Some (0, s)
        | Some (idx, found) \<Rightarrow>
            Option.bind (split_down found req s) (\<lambda>(leaf, s1).
              Some (cell_base (cells s1 leaf), take_cell idx leaf s1))))"

definition pmm_alloc_pages_internal :: "nat \<Rightarrow> mem_zone_type \<Rightarrow> bool \<Rightarrow> pmm \<Rightarrow> (nat \<times> pmm) option" where
  "pmm_alloc_pages_internal count z strict s =
     Option.bind (alloc_pass count z strict s) (\<lambda>(r, s1).
       if r = 0
       then (if strict
             then Option.bind (alloc_pass count z False s1) (\<lambda>(r2, s2).
                    Some (r2, if r2 = 0 then s2 else check_pressure (phys_to_zone r2) s2))
             else Some (0, s1))
       else Some (r, check_pressure (phys_to_zone r) s1))"

definition pmm_alloc_page :: "pmm \<Rightarrow> (nat \<times> pmm) option" where
  "pmm_alloc_page s = pmm_alloc_pages_internal 1 ZONE_NORMAL False s"

definition pmm_alloc_pages :: "nat \<Rightarrow> pmm \<Rightarrow> (nat \<times> pmm) option" where
  "pmm_alloc_pages count s = pmm_alloc_pages_internal count ZONE_NORMAL False s"

definition pmm_alloc_page_zone :: "mem_zone_type \<Rightarrow> pmm \<Rightarrow> (nat \<times> pmm) option" where
  "pmm_alloc_page_zone z s = pmm_alloc_pages_internal 1 z True s"

definition pmm_alloc_pages_zone :: "nat \<Rightarrow> mem_zone_type \<Rightarrow> pmm \<Rightarrow> (nat \<times> pmm) option" where
  "pmm_alloc_pages_zone count z s = pmm_alloc_pages_internal count z True s"

definition find_used :: "nat \<Rightarrow> pmm \<Rightarrow> nat option" where
  "find_used phys s =
     scan (\<lambda>i. cell_base (cells s i) = phys \<and> cell_state (cells s i) = CELL_USED) 0 (cell_count s)"

definition release_cell :: "nat \<Rightarrow> nat \<Rightarrow> pmm \<Rightarrow> pmm" where
  "release_cell phys i s =
     (let size = cell_size (cells s i);
          s1 = (upd_cell i (\<lambda>c. c\<lparr> cell_state := CELL_FREE, cell_owner := 0 \<rparr>) s)
                 \<lparr> free_mem := add64 (free_mem s) size \<rparr>;
          s2 = upd_zone (phys_to_zone phys)
                 (\<lambda>z. z\<lparr> zone_free_pages := add64 (zone_free_pages z) (size div PAGE_SIZE) \<rparr>) s1
      in upd_pages (phys_to_pfn phys) (size div PAGE_SIZE)
           (\<lambda>p. p\<lparr> page_refcount := 0, page_flags := 0, page_owner := 0 \<rparr>) s2)"

definition pmm_free_pages :: "nat \<Rightarrow> nat \<Rightarrow> pmm \<Rightarrow> pmm option" where
  "pmm_free_pages phys count s =
     (case find_used phys s of
        None \<Rightarrow> Some s
      | Some i \<Rightarrow>
          let pfn = phys_to_pfn phys in
          if pfn < MAX_PHYS_PAGES \<and> page_refcount (page_array s pfn) > 1
          then Some (upd_page pfn (\<lambda>p. p\<lparr> page_refcount := page_refcount p - 1 \<rparr>) s)
          else cell_try_merge i (release_cell phys i s))"

definition pmm_free_page :: "nat \<Rightarrow> pmm \<Rightarrow> pmm option" where
  "pmm_free_page phys s = pmm_free_pages phys 1 s"

section \<open>Page descriptors, pressure and ownership\<close>

definition pmm_get_page :: "nat \<Rightarrow> pmm \<Rightarrow> page option" where
  "pmm_get_page phys s =
     (if phys_to_pfn phys \<ge> MAX_PHYS_PAGES then None else Some (page_array s (phys_to_pfn phys)))"

definition pmm_page_ref :: "nat \<Rightarrow> pmm \<Rightarrow> pmm" where
  "pmm_page_ref phys s =
     (if phys_to_pfn phys \<ge> MAX_PHYS_PAGES then s
      else upd_page (phys_to_pfn phys) (\<lambda>p. p\<lparr> page_refcount := page_refcount p + 1 \<rparr>) s)"

definition pmm_page_unref :: "nat \<Rightarrow> pmm \<Rightarrow> (bool \<times> pmm) option" where
  "pmm_page_unref phys s =
     (if phys_to_pfn phys \<ge> MAX_PHYS_PAGES then Some (False, s)
      else let s1 = upd_page (phys_to_pfn phys) (\<lambda>p. p\<lparr> page_refcount := page_refcount p - 1 \<rparr>) s
        in if page_refcount (page_array s1 (phys_to_pfn phys)) = 0
           then map_option (\<lambda>s2. (True, s2)) (pmm_free_page phys s1)
           else Some (False, s1))"

definition pmm_page_refcount :: "nat \<Rightarrow> pmm \<Rightarrow> u32" where
  "pmm_page_refcount phys s =
     (if phys_to_pfn phys \<ge> MAX_PHYS_PAGES then 0 else page_refcount (page_array s (phys_to_pfn phys)))"

definition pmm_page_set_flags :: "nat \<Rightarrow> u32 \<Rightarrow> pmm \<Rightarrow> pmm" where
  "pmm_page_set_flags phys fl s =
     (if phys_to_pfn phys \<ge> MAX_PHYS_PAGES then s
      else upd_page (phys_to_pfn phys) (\<lambda>p. p\<lparr> page_flags := page_flags p OR fl \<rparr>) s)"

definition pmm_page_clear_flags :: "nat \<Rightarrow> u32 \<Rightarrow> pmm \<Rightarrow> pmm" where
  "pmm_page_clear_flags phys fl s =
     (if phys_to_pfn phys \<ge> MAX_PHYS_PAGES then s
      else upd_page (phys_to_pfn phys) (\<lambda>p. p\<lparr> page_flags := page_flags p AND NOT fl \<rparr>) s)"

definition pmm_page_has_flag :: "nat \<Rightarrow> u32 \<Rightarrow> pmm \<Rightarrow> bool" where
  "pmm_page_has_flag phys fl s =
     (if phys_to_pfn phys \<ge> MAX_PHYS_PAGES then False
      else (page_flags (page_array s (phys_to_pfn phys)) AND fl) \<noteq> 0)"

definition pmm_register_pressure_cb :: "nat \<Rightarrow> pmm \<Rightarrow> pmm" where
  "pmm_register_pressure_cb cb s =
     (if length (pressure_cbs s) < MAX_PRESSURE_CBS then s\<lparr> pressure_cbs := pressure_cbs s @ [cb] \<rparr>
      else s)"

definition all_zones :: "mem_zone_type list" where
  "all_zones = [ZONE_DMA, ZONE_DMA32, ZONE_NORMAL]"

definition pmm_is_low_memory :: "pmm \<Rightarrow> bool" where
  "pmm_is_low_memory s =
     list_ex (\<lambda>z. zone_total_pages (zones s z) > 0
       \<and> zone_free_pages (zones s z) \<le> watermark_low (zones s z)) all_zones"

definition pmm_is_oom :: "pmm \<Rightarrow> bool" where
  "pmm_is_oom s =
     list_all (\<lambda>z. \<not> (zone_total_pages (zones s z) > 0
       \<and> zone_free_pages (zones s z) > watermark_min (zones s z))) all_zones"

definition pmm_set_owner :: "nat \<Rightarrow> u64 \<Rightarrow> pmm \<Rightarrow> pmm" where
  "pmm_set_owner phys owner s =
     (case find_used phys s of
        Some i \<Rightarrow> upd_cell i (\<lambda>c. c\<lparr> cell_owner := owner \<rparr>) s
      | None \<Rightarrow>
          if phys_to_pfn phys < MAX_PHYS_PAGES
          then upd_page (phys_to_pfn phys) (\<lambda>p. p\<lparr> page_owner := owner \<rparr>) s else s)"

definition pmm_total_memory :: "pmm \<Rightarrow> nat" where "pmm_total_memory s = total_mem s"
definition pmm_free_memory :: "pmm \<Rightarrow> nat" where "pmm_free_memory s = free_mem s"

end
