(* ===== verification/Pmm_Inv.thy ===== *)
theory Pmm_Inv
  imports Pmm
begin

text \<open>
  The structural invariant of the physical memory manager: the cells form a forest whose split
  cells are tiled by their four children, the roots are disjoint, and the byte counters agree with
  the used cells.  It holds after initialisation from any memory map of disjoint entries below the
  52-bit physical limit, and every operation keeps it and returns.
\<close>

section \<open>The invariant\<close>

definition region :: "pmm \<Rightarrow> nat \<Rightarrow> nat set" where
  "region s i = {cell_base (cells s i) ..< cell_base (cells s i) + cell_size (cells s i)}"

definition used_cells :: "pmm \<Rightarrow> nat set" where
  "used_cells s = {i. i < cell_count s \<and> cell_state (cells s i) = CELL_USED}"

definition root_cells :: "pmm \<Rightarrow> nat set" where
  "root_cells s = {i. i < cell_count s \<and> cell_parent (cells s i) = NO_CELL}"

definition attached :: "pmm \<Rightarrow> nat \<Rightarrow> bool" where
  "attached s i \<longleftrightarrow> i < cell_count s \<and>
     (cell_parent (cells s i) \<noteq> NO_CELL \<longrightarrow>
        cell_state (cells s (cell_parent (cells s i))) = CELL_SPLIT
        \<and> (\<exists>j<4. cell_children (cells s (cell_parent (cells s i))) j = i))"

definition tiled :: "pmm \<Rightarrow> nat \<Rightarrow> bool" where
  "tiled s i \<longleftrightarrow> 4 dvd cell_size (cells s i) \<and>
     (\<forall>j<4. let c = cell_children (cells s i) j in
        i < c \<and> c < cell_count s \<and> cell_parent (cells s c) = i
        \<and> cell_base (cells s c) = cell_base (cells s i) + j * (cell_size (cells s i) div 4)
        \<and> cell_size (cells s c) = cell_size (cells s i) div 4
        \<and> cell_state (cells s c) \<noteq> CELL_RESERVED)"

definition cell_wf :: "pmm \<Rightarrow> nat \<Rightarrow> bool" where
  "cell_wf s i \<longleftrightarrow>
     (cell_parent (cells s i) \<noteq> NO_CELL \<longrightarrow> cell_parent (cells s i) < i)
     \<and> (\<exists>k. cell_size (cells s i) = 4096 * 4 ^ k)
     \<and> cell_base (cells s i) + cell_size (cells s i) \<le> 2 ^ 52
     \<and> 4096 dvd cell_base (cells s i) \<and> 4096 \<le> cell_base (cells s i)
     \<and> (cell_state (cells s i) = CELL_SPLIT \<longrightarrow> tiled s i)
     \<and> (cell_state (cells s i) = CELL_SPLIT \<or> cell_state (cells s i) = CELL_USED \<longrightarrow> attached s i)"

definition forest_wf :: "pmm \<Rightarrow> bool" where
  "forest_wf s \<longleftrightarrow> cell_count s \<le> CELL_POOL_SIZE \<and> (\<forall>i<cell_count s. cell_wf s i)
     \<and> (\<forall>i\<in>root_cells s. \<forall>j\<in>root_cells s. i \<noteq> j \<longrightarrow> region s i \<inter> region s j = {})"

definition bytes_wf :: "pmm \<Rightarrow> bool" where
  "bytes_wf s \<longleftrightarrow> total_mem s = (\<Sum>i\<in>root_cells s. cell_size (cells s i))
     \<and> free_mem s + (\<Sum>i\<in>used_cells s. cell_size (cells s i)) = total_mem s"

definition pmm_wf :: "pmm \<Rightarrow> bool" where
  "pmm_wf s \<longleftrightarrow> forest_wf s \<and> bytes_wf s"

lemma finite_cells [simp]: "finite (used_cells s)" "finite (root_cells s)"
  by (simp_all add: used_cells_def root_cells_def)

lemma forest_wfD:
  assumes "forest_wf s"
  shows "cell_count s \<le> CELL_POOL_SIZE" "i < cell_count s \<Longrightarrow> cell_wf s i"
  using assms by (simp_all add: forest_wf_def)

lemma count_no_cell: "forest_wf s \<Longrightarrow> i < cell_count s \<Longrightarrow> i \<noteq> NO_CELL"
  by (auto simp: forest_wf_def yam_consts)

section \<open>Distinct leaves are disjoint\<close>

definition parent_of :: "pmm \<Rightarrow> nat \<Rightarrow> nat \<Rightarrow> bool" where
  "parent_of s p i \<longleftrightarrow> attached s i \<and> cell_parent (cells s i) = p \<and> p \<noteq> NO_CELL"

lemma parent_ofD:
  assumes wf: "forest_wf s" and p: "parent_of s p i"
  shows "p < i" "cell_state (cells s p) = CELL_SPLIT" "attached s p" "region s i \<subseteq> region s p"
    "\<exists>j<4. cell_children (cells s p) j = i" "tiled s p"
proof -
  have a: "i < cell_count s" "cell_state (cells s p) = CELL_SPLIT"
    "\<exists>j<4. cell_children (cells s p) j = i"
    using p by (auto simp: parent_of_def attached_def)
  have lt: "p < i" using forest_wfD(2) [OF wf a(1)] p by (auto simp: cell_wf_def parent_of_def)
  then have wp: "cell_wf s p" using forest_wfD(2) [OF wf] a(1) by simp
  then have t: "tiled s p" and at: "attached s p" using a(2) by (simp_all add: cell_wf_def)
  show "p < i" "cell_state (cells s p) = CELL_SPLIT" "attached s p"
    "\<exists>j<4. cell_children (cells s p) j = i" "tiled s p"
    using lt a at t by simp_all
  obtain j where j: "j < 4" "cell_children (cells s p) j = i" using a(3) by blast
  let ?q = "cell_size (cells s p) div 4"
  have e: "cell_base (cells s i) = cell_base (cells s p) + j * ?q" "cell_size (cells s i) = ?q"
    "4 dvd cell_size (cells s p)"
    using t j by (auto simp: tiled_def Let_def)
  have "Suc j * ?q \<le> 4 * ?q" using j(1) by (intro mult_right_mono) auto
  then have "j * ?q + ?q \<le> cell_size (cells s p)" using e(3) by simp
  then show "region s i \<subseteq> region s p" using e by (auto simp: region_def)
qed

lemma siblings_disjoint:
  assumes wf: "forest_wf s" and "parent_of s p i" "parent_of s p k" "i \<noteq> k"
  shows "region s i \<inter> region s k = {}"
proof -
  obtain j m where j: "j < 4" "cell_children (cells s p) j = i" "m < 4" "cell_children (cells s p) m = k"
    using parent_ofD(5) [OF wf] assms(2,3) by blast
  have t: "tiled s p" by (rule parent_ofD(6) [OF wf assms(2)])
  define q where "q = cell_size (cells s p) div 4"
  define b where "b = cell_base (cells s p)"
  have r: "region s i = {b + j * q ..< b + j * q + q}" "region s k = {b + m * q ..< b + m * q + q}"
    using t j unfolding q_def b_def by (auto simp: tiled_def Let_def region_def)
  have "j < m \<or> m < j" using j assms(4) by (metis nat_neq_iff)
  then have "Suc j * q \<le> m * q \<or> Suc m * q \<le> j * q"
    by (metis Suc_leI mult_le_mono1)
  then have "j * q + q \<le> m * q \<or> m * q + q \<le> j * q"
    by (simp add: add.commute)
  then show ?thesis unfolding r by (intro ivl_disjointI) (simp only: add.assoc add_le_cancel_left)
qed

text \<open>A cell sharing an address with an attached cell of larger index is an ancestor of it.\<close>

lemma ancestor_region:
  assumes wf: "forest_wf s" and "(parent_of s)\<^sup>*\<^sup>* p i"
  shows "region s i \<subseteq> region s p \<and> p \<le> i"
  using assms(2)
proof (induction rule: rtranclp_induct)
  case (step y z)
  have "region s z \<subseteq> region s y" "y < z"
    by (rule parent_ofD [OF wf step(2)])+
  with step.IH show ?case by auto
qed simp

lemma has_root:
  assumes wf: "forest_wf s" and "attached s i"
  shows "\<exists>r\<in>root_cells s. r \<le> i \<and> region s i \<subseteq> region s r"
  using assms(2)
proof (induction i rule: less_induct)
  case (less i)
  show ?case
  proof (cases "cell_parent (cells s i) = NO_CELL")
    case True
    then show ?thesis using less.prems by (auto simp: root_cells_def attached_def)
  next
    case False
    then have "parent_of s (cell_parent (cells s i)) i" using less.prems by (simp add: parent_of_def)
    note P = parent_ofD [OF wf this]
    obtain r where "r \<in> root_cells s" "r \<le> cell_parent (cells s i)"
      "region s (cell_parent (cells s i)) \<subseteq> region s r"
      using less.IH [OF P(1) P(3)] by blast
    with P(1,4) show ?thesis by (intro bexI [of _ r]) auto
  qed
qed

lemma overlap_ancestor:
  assumes wf: "forest_wf s"
  shows "attached s i \<Longrightarrow> attached s j \<Longrightarrow> i \<le> j \<Longrightarrow> x \<in> region s i \<Longrightarrow> x \<in> region s j \<Longrightarrow>
    (parent_of s)\<^sup>*\<^sup>* i j"
proof (induction j arbitrary: i rule: less_induct)
  case (less j)
  show ?case
  proof (cases "i = j")
    case False
    with less.prems have ij: "i < j" by simp
    show ?thesis
    proof (cases "cell_parent (cells s j) = NO_CELL")
      case True
      then have rj: "j \<in> root_cells s" using less.prems by (simp add: root_cells_def attached_def)
      obtain r where r: "r \<in> root_cells s" "r \<le> i" "region s i \<subseteq> region s r"
        using has_root [OF wf less.prems(1)] by blast
      then have "region s r \<inter> region s j = {}" using wf rj ij by (auto simp: forest_wf_def)
      then show ?thesis using r(3) less.prems(4,5) by auto
    next
      case nr: False
      define p where "p = cell_parent (cells s j)"
      have pj: "parent_of s p j" using nr less.prems(2) by (simp add: parent_of_def p_def)
      note P = parent_ofD [OF wf pj]
      have xp: "x \<in> region s p" using P(4) less.prems(5) by blast
      show ?thesis
      proof (cases "i \<le> p")
        case True
        from less.IH [OF P(1) less.prems(1) P(3) True less.prems(4) xp] pj show ?thesis
          by (rule rtranclp.rtrancl_into_rtrancl)
      next
        case False
        then have "(parent_of s)\<^sup>*\<^sup>* p i"
          using less.IH [OF ij P(3) less.prems(1) _ xp less.prems(4)] by simp
        then obtain c where c: "parent_of s p c" "(parent_of s)\<^sup>*\<^sup>* c i"
          by (cases rule: converse_rtranclpE) (use False in auto)
        then have "x \<in> region s c" "c \<le> i"
          using ancestor_region [OF wf c(2)] less.prems(4) by blast+
        with siblings_disjoint [OF wf c(1) pj] less.prems(5) ij have False by auto
        then show ?thesis ..
      qed
    qed
  qed simp
qed

lemma leaf_ancestor:
  assumes wf: "forest_wf s" and "(parent_of s)\<^sup>*\<^sup>* i j" "cell_state (cells s i) \<noteq> CELL_SPLIT"
  shows "i = j"
  using assms(2)
proof (cases rule: converse_rtranclpE)
  case (step y)
  then show ?thesis using parent_ofD(2) [OF wf step(1)] assms(3) by simp
qed

lemma leaves_disjoint:
  assumes wf: "forest_wf s" and a: "attached s i" "attached s j" "i \<noteq> j"
    and l: "cell_state (cells s i) \<noteq> CELL_SPLIT" "cell_state (cells s j) \<noteq> CELL_SPLIT"
  shows "region s i \<inter> region s j = {}"
proof (rule equals0I)
  fix x assume x: "x \<in> region s i \<inter> region s j"
  show False
  proof (cases "i \<le> j")
    case True
    then have "(parent_of s)\<^sup>*\<^sup>* i j" using overlap_ancestor [OF wf a(1,2)] x by blast
    from leaf_ancestor [OF wf this l(1)] a(3) show False by simp
  next
    case False
    then have "(parent_of s)\<^sup>*\<^sup>* j i" using overlap_ancestor [OF wf a(2,1), of x] x by auto
    from leaf_ancestor [OF wf this l(2)] a(3) show False by simp
  qed
qed

lemma leaves_fit:
  assumes wf: "forest_wf s" and S: "finite S"
    and L: "\<And>i. i \<in> S \<Longrightarrow> attached s i \<and> cell_state (cells s i) \<noteq> CELL_SPLIT"
  shows "(\<Sum>i\<in>S. cell_size (cells s i)) \<le> (\<Sum>i\<in>root_cells s. cell_size (cells s i))"
proof -
  have c: "card (region s i) = cell_size (cells s i)" "finite (region s i)" for i
    by (simp_all add: region_def)
  have "\<forall>i\<in>S. \<forall>j\<in>S. i \<noteq> j \<longrightarrow> region s i \<inter> region s j = {}"
    using leaves_disjoint [OF wf] L by blast
  then have "card (\<Union>i\<in>S. region s i) = (\<Sum>i\<in>S. card (region s i))"
    by (intro card_UN_disjoint S) (simp_all add: c)
  moreover have "(\<Union>i\<in>S. region s i) \<subseteq> (\<Union>i\<in>root_cells s. region s i)"
  proof (rule UN_least)
    fix i assume "i \<in> S"
    with L has_root [OF wf] show "region s i \<subseteq> (\<Union>i\<in>root_cells s. region s i)" by blast
  qed
  then have "card (\<Union>i\<in>S. region s i) \<le> card (\<Union>i\<in>root_cells s. region s i)"
    by (intro card_mono) (simp_all add: c)
  moreover have "card (\<Union>i\<in>root_cells s. region s i) \<le> (\<Sum>i\<in>root_cells s. card (region s i))"
    by (rule card_UN_le) simp
  ultimately show ?thesis by (simp add: c)
qed

section \<open>Splitting\<close>

lemma add64_lt: "a + b < 2 ^ 64 \<Longrightarrow> add64 a b = a + b" by (simp add: add64_def)
lemma mul64_lt: "a * b < 2 ^ 64 \<Longrightarrow> mul64 a b = a * b" by (simp add: mul64_def)
lemma sub64_le: "b \<le> a \<Longrightarrow> a < 2 ^ 64 \<Longrightarrow> sub64 a b = a - b"
proof -
  assume "b \<le> a" "a < 2 ^ 64"
  then have "(a + 2 ^ 64 - b) mod 2 ^ 64 = (a - b + 2 ^ 64) mod 2 ^ 64" by simp
  also have "\<dots> = a - b" using \<open>a < 2 ^ 64\<close> by simp
  finally show ?thesis by (simp add: sub64_def)
qed

text \<open>What allocating the children does, whether or not the pool runs out on the way.\<close>

definition split_frame :: "nat list \<Rightarrow> nat \<Rightarrow> nat \<Rightarrow> pmm \<Rightarrow> bool \<Rightarrow> pmm \<Rightarrow> bool" where
  "split_frame is idx cs s ok s' \<longleftrightarrow>
     cell_count s \<le> cell_count s' \<and> cell_count s' \<le> CELL_POOL_SIZE
     \<and> (\<forall>i<cell_count s. i \<noteq> idx \<longrightarrow> cells s' i = cells s i)
     \<and> (\<exists>ch. cells s' idx = (cells s idx)\<lparr> cell_children := ch \<rparr>
          \<and> (\<forall>j. j \<notin> set is \<longrightarrow> ch j = cell_children (cells s idx) j)
          \<and> (ok \<longrightarrow> cell_count s' = cell_count s + length is
                \<and> (\<forall>k<length is. ch (is ! k) = cell_count s + k)))
     \<and> (\<forall>i. cell_count s \<le> i \<and> i < cell_count s' \<longrightarrow>
          cell_state (cells s' i) = CELL_FREE \<and> cell_parent (cells s' i) = idx
          \<and> cell_size (cells s' i) = cs
          \<and> (\<exists>k<length is. i = cell_count s + k
               \<and> cell_base (cells s' i) = add64 (cell_base (cells s idx)) (mul64 (is ! k) cs)))
     \<and> total_mem s' = total_mem s \<and> free_mem s' = free_mem s"

lemma upd_cell_simps [simp]:
  "cells (upd_cell i f s) j = (if j = i then f (cells s i) else cells s j)"
  "cell_count (upd_cell i f s) = cell_count s"
  "total_mem (upd_cell i f s) = total_mem s" "free_mem (upd_cell i f s) = free_mem s"
  by (simp_all add: upd_cell_def)

lemma split_frame_step:
  assumes f: "split_frame is idx cs s2 ok s'" and idx: "idx < cell_count s" and ni: "i \<notin> set is"
    and c2: "cell_count s2 = Suc (cell_count s)" "total_mem s2 = total_mem s" "free_mem s2 = free_mem s"
    and old: "\<And>j. j < cell_count s \<Longrightarrow> j \<noteq> idx \<Longrightarrow> cells s2 j = cells s j"
    and self: "cells s2 idx = (cells s idx)\<lparr> cell_children := (cell_children (cells s idx))(i := cell_count s) \<rparr>"
    and new: "cell_state (cells s2 (cell_count s)) = CELL_FREE" "cell_parent (cells s2 (cell_count s)) = idx"
      "cell_size (cells s2 (cell_count s)) = cs"
      "cell_base (cells s2 (cell_count s)) = add64 (cell_base (cells s idx)) (mul64 i cs)"
  shows "split_frame (i # is) idx cs s ok s'"
proof -
  let ?n = "cell_count s"
  note F = f [unfolded split_frame_def]
  obtain ch where ch: "cells s' idx = (cells s2 idx)\<lparr> cell_children := ch \<rparr>"
    and okch: "ok \<longrightarrow> cell_count s' = cell_count s2 + length is \<and>
      (\<forall>k<length is. ch (is ! k) = cell_count s2 + k)" and keep: "\<forall>j. j \<notin> set is \<longrightarrow>
      ch j = cell_children (cells s2 idx) j"
    using F by blast
  have chi: "ch i = ?n" using keep ni self by simp
  have nn: "cells s' ?n = cells s2 ?n" using F c2 idx by auto
  have "\<exists>k<length (i # is). j = ?n + k \<and>
      cell_base (cells s' j) = add64 (cell_base (cells s idx)) (mul64 ((i # is) ! k) cs)"
    if j: "?n \<le> j" "j < cell_count s'" for j
  proof (cases "j = ?n")
    case True
    then show ?thesis using nn new by (intro exI [of _ 0]) simp
  next
    case False
    then obtain k where "k < length is" "j = cell_count s2 + k"
      "cell_base (cells s' j) = add64 (cell_base (cells s2 idx)) (mul64 (is ! k) cs)"
      using F j c2 by (metis Suc_leI le_neq_implies_less)
    then show ?thesis using c2 self by (intro exI [of _ "Suc k"]) simp
  qed
  moreover have "cell_state (cells s' j) = CELL_FREE \<and> cell_parent (cells s' j) = idx
      \<and> cell_size (cells s' j) = cs" if j: "?n \<le> j" "j < cell_count s'" for j
    using F j c2 nn new by (cases "j = ?n") auto
  moreover have "\<forall>k<length (i # is). ok \<longrightarrow> ch ((i # is) ! k) = ?n + k"
    using okch chi c2 by (auto simp: nth_Cons split: nat.split)
  moreover have "\<forall>j. j \<notin> set (i # is) \<longrightarrow> ch j = cell_children (cells s idx) j"
    using keep self by simp
  ultimately show ?thesis
    using F ch okch old self c2 unfolding split_frame_def
    by (intro conjI exI [of _ ch] allI impI) auto
qed

lemma split_loop_frame:
  "idx < cell_count s \<Longrightarrow> cell_count s \<le> CELL_POOL_SIZE \<Longrightarrow> distinct is \<Longrightarrow>
    split_loop is idx cs s = (ok, s') \<Longrightarrow> split_frame is idx cs s ok s'"
proof (induction "is" arbitrary: s)
  case Nil
  then show ?case
    by (auto simp: split_frame_def intro!: exI [of _ "cell_children (cells s idx)"])
next
  case (Cons i "is")
  let ?n = "cell_count s"
  show ?case
  proof (cases "?n \<ge> CELL_POOL_SIZE")
    case True
    then have "ok = False \<and> s' = s" using Cons.prems by (simp add: cell_alloc_node_def)
    then show ?thesis
      using Cons.prems
      by (auto simp: split_frame_def intro!: exI [of _ "cell_children (cells s idx)"])
  next
    case False
    define s1 where "s1 = snd (cell_alloc_node s)"
    define s2 where "s2 = upd_cell idx (\<lambda>c. c\<lparr> cell_children := (cell_children c)(i := ?n) \<rparr>)
      (upd_cell ?n (\<lambda>c. c\<lparr> cell_base := add64 (cell_base (cells s1 idx)) (mul64 i cs),
               cell_size := cs, cell_state := CELL_FREE, cell_parent := idx \<rparr>) s1)"
    have n: "?n \<noteq> NO_CELL" "cell_alloc_node s = (?n, s1)"
      using False by (auto simp: cell_alloc_node_def yam_consts s1_def)
    have s1: "cell_count s1 = Suc ?n" "total_mem s1 = total_mem s" "free_mem s1 = free_mem s"
      "\<And>j. j \<noteq> ?n \<Longrightarrow> cells s1 j = cells s j"
      using False by (simp_all add: s1_def cell_alloc_node_def)
    have r: "split_loop is idx cs s2 = (ok, s')"
      using Cons.prems(4) n(1) by (simp add: n(2) s2_def)
    have "split_frame is idx cs s2 ok s'"
      using Cons.prems(1,3) False s1(1) by (intro Cons.IH r) (simp_all add: s2_def)
    then show ?thesis
      by (rule split_frame_step) (use Cons.prems(1,3) s1 in \<open>simp_all add: s2_def\<close>)
  qed
qed

lemma size_power:
  assumes "\<exists>k. n = 4096 * 4 ^ k" "n \<ge> PAGE_SIZE * 4"
  shows "4 dvd n" "\<exists>k. n div 4 = 4096 * (4 :: nat) ^ k"
proof -
  obtain k where k: "n = 4096 * 4 ^ k" using assms(1) by blast
  then obtain m where m: "k = Suc m" using assms(2) by (cases k) (auto simp: yam_consts)
  have n: "n = 4 * (4096 * 4 ^ m)" using k m by simp
  show "4 dvd n" unfolding n by (rule dvd_triv_left)
  have "n div 4 = 4096 * 4 ^ m" unfolding n by (rule nonzero_mult_div_cancel_left) simp
  then show "\<exists>k. n div 4 = 4096 * (4 :: nat) ^ k" by (rule exI)
qed

text \<open>Splitting, seen from outside: the old cells keep their place, owner and extent.\<close>

definition same_cells :: "pmm \<Rightarrow> pmm \<Rightarrow> bool" where
  "same_cells s s' \<longleftrightarrow> cell_count s \<le> cell_count s' \<and> total_mem s' = total_mem s \<and> free_mem s' = free_mem s
     \<and> (\<forall>i<cell_count s. cell_base (cells s' i) = cell_base (cells s i)
          \<and> cell_size (cells s' i) = cell_size (cells s i)
          \<and> (cell_state (cells s' i) = CELL_USED \<longleftrightarrow> cell_state (cells s i) = CELL_USED)
          \<and> (cell_parent (cells s' i) = NO_CELL \<longleftrightarrow> cell_parent (cells s i) = NO_CELL))
     \<and> (\<forall>i. cell_count s \<le> i \<and> i < cell_count s' \<longrightarrow>
          cell_state (cells s' i) \<noteq> CELL_USED \<and> cell_parent (cells s' i) \<noteq> NO_CELL)"

lemma same_cells_refl: "same_cells s s"
  by (simp add: same_cells_def)

lemma same_cells_trans:
  assumes a: "same_cells s s1" and b: "same_cells s1 s2"
  shows "same_cells s s2"
proof -
  have "cell_state (cells s2 i) \<noteq> CELL_USED \<and> cell_parent (cells s2 i) \<noteq> NO_CELL"
    if "cell_count s \<le> i" "i < cell_count s2" for i
    using that a b unfolding same_cells_def by (cases "i < cell_count s1") auto
  with a b show ?thesis unfolding same_cells_def by auto
qed

lemma same_cells_sets:
  assumes "same_cells s s'"
  shows "used_cells s' = used_cells s" "root_cells s' = root_cells s"
    "i < cell_count s \<Longrightarrow> region s' i = region s i" "bytes_wf s' \<longleftrightarrow> bytes_wf s"
proof -
  have lt: "i < cell_count s" if "i < cell_count s'" "cell_state (cells s' i) = CELL_USED \<or>
    cell_parent (cells s' i) = NO_CELL" for i
    using assms that unfolding same_cells_def by (meson not_le)
  have "i \<in> used_cells s' \<longleftrightarrow> i \<in> used_cells s" "i \<in> root_cells s' \<longleftrightarrow> i \<in> root_cells s" for i
    using assms lt [of i] by (cases "i < cell_count s"; auto simp: same_cells_def used_cells_def root_cells_def)+
  then show u: "used_cells s' = used_cells s" and r: "root_cells s' = root_cells s"
    by blast+
  show "i < cell_count s \<Longrightarrow> region s' i = region s i"
    using assms by (simp add: same_cells_def region_def)
  have "(\<Sum>i\<in>used_cells s. cell_size (cells s' i)) = (\<Sum>i\<in>used_cells s. cell_size (cells s i))"
    "(\<Sum>i\<in>root_cells s. cell_size (cells s' i)) = (\<Sum>i\<in>root_cells s. cell_size (cells s i))"
    using assms by (auto intro!: sum.cong simp: same_cells_def used_cells_def root_cells_def)
  then show "bytes_wf s' \<longleftrightarrow> bytes_wf s"
    using assms u r by (simp add: bytes_wf_def same_cells_def)
qed

lemma child_bounds:
  assumes "cell_wf s idx" "4 dvd cell_size (cells s idx)" "(j :: nat) < 4"
  shows "add64 (cell_base (cells s idx)) (mul64 j (cell_size (cells s idx) div 4)) =
      cell_base (cells s idx) + j * (cell_size (cells s idx) div 4)"
    "j * (cell_size (cells s idx) div 4) + cell_size (cells s idx) div 4 \<le> cell_size (cells s idx)"
proof -
  define q where "q = cell_size (cells s idx) div 4"
  have "Suc j * q \<le> 4 * q" using assms(3) by (intro mult_right_mono) auto
  moreover have "4 * q = cell_size (cells s idx)" using assms(2) by (simp add: q_def)
  ultimately have "j * q + q \<le> cell_size (cells s idx)" by simp
  moreover have "cell_base (cells s idx) + cell_size (cells s idx) \<le> 2 ^ 52"
    using assms(1) by (simp add: cell_wf_def)
  ultimately show "add64 (cell_base (cells s idx)) (mul64 j (cell_size (cells s idx) div 4)) =
      cell_base (cells s idx) + j * (cell_size (cells s idx) div 4)"
    "j * (cell_size (cells s idx) div 4) + cell_size (cells s idx) div 4 \<le> cell_size (cells s idx)"
    unfolding q_def [symmetric] by (simp_all add: add64_lt mul64_lt)
qed

lemma nth_0123: "k < 4 \<Longrightarrow> [0, 1, 2, 3 :: nat] ! k = k"
  by (auto simp: less_Suc_eq numeral_eq_Suc)

text \<open>The facts about a split that the invariant proofs use, for both outcomes.\<close>

lemma cell_split_effect:
  assumes wf: "forest_wf s" and idx: "idx < cell_count s" and fr: "cell_state (cells s idx) = CELL_FREE"
    and sz: "cell_size (cells s idx) \<ge> PAGE_SIZE * 4" and sp: "cell_split idx s = (ok, s')"
  obtains ch where
    "\<And>i. i < cell_count s \<Longrightarrow> i \<noteq> idx \<Longrightarrow> cells s' i = cells s i"
    "cells s' idx = (cells s idx)\<lparr> cell_children := ch, cell_state := if ok then CELL_SPLIT else CELL_FREE \<rparr>"
    "\<And>i. cell_count s \<le> i \<Longrightarrow> i < cell_count s' \<Longrightarrow> cell_state (cells s' i) = CELL_FREE
       \<and> cell_parent (cells s' i) = idx \<and> cell_size (cells s' i) = cell_size (cells s idx) div 4
       \<and> (\<exists>k<4. i = cell_count s + k \<and> cell_base (cells s' i) =
            cell_base (cells s idx) + k * (cell_size (cells s idx) div 4))"
    "ok \<Longrightarrow> cell_count s' = cell_count s + 4 \<and> (\<forall>k<4. ch k = cell_count s + k)"
    "cell_count s \<le> cell_count s'" "cell_count s' \<le> CELL_POOL_SIZE"
    "total_mem s' = total_mem s" "free_mem s' = free_mem s"
proof -
  let ?q = "cell_size (cells s idx) div 4"
  have cw: "cell_wf s idx" by (rule forest_wfD(2) [OF wf idx])
  have d4: "4 dvd cell_size (cells s idx)" using cw sz by (intro size_power(1)) (auto simp: cell_wf_def)
  obtain ok' t where l: "split_loop [0, 1, 2, 3] idx ?q s = (ok', t)" by fastforce
  have s': "ok = ok'" "s' = (if ok then upd_cell idx (\<lambda>c. c\<lparr> cell_state := CELL_SPLIT \<rparr>) t else t)"
    using sp fr sz l by (auto simp: cell_split_def split: if_splits)
  have "split_frame [0, 1, 2, 3] idx ?q s ok t"
    using split_loop_frame [OF idx forest_wfD(1) [OF wf] _ l] s'(1) by simp
  note F = this [unfolded split_frame_def]
  obtain ch where ch: "cells t idx = (cells s idx)\<lparr> cell_children := ch \<rparr>"
    "ok \<longrightarrow> cell_count t = cell_count s + 4 \<and> (\<forall>k<4. ch ([0, 1, 2, 3] ! k) = cell_count s + k)"
    using F by auto
  have cnt: "cell_count s' = cell_count t" "total_mem s' = total_mem t" "free_mem s' = free_mem t"
    using s' by simp_all
  show ?thesis
  proof
    show "cells s' i = cells s i" if "i < cell_count s" "i \<noteq> idx" for i
      using F that s'(2) by simp
    show "cells s' idx = (cells s idx)\<lparr> cell_children := ch, cell_state := if ok then CELL_SPLIT else CELL_FREE \<rparr>"
      using ch fr s'(2) by simp
    show "ok \<Longrightarrow> cell_count s' = cell_count s + 4 \<and> (\<forall>k<4. ch k = cell_count s + k)"
      using ch(2) cnt nth_0123 by auto
    show "cell_count s \<le> cell_count s'" "cell_count s' \<le> CELL_POOL_SIZE"
      "total_mem s' = total_mem s" "free_mem s' = free_mem s"
      using F cnt by simp_all
    fix i assume i: "cell_count s \<le> i" "i < cell_count s'"
    then have "i \<noteq> idx" using idx by simp
    then have ti: "cells s' i = cells t i" using s'(2) by simp
    obtain k where k: "k < 4" "i = cell_count s + k"
      "cell_base (cells t i) = add64 (cell_base (cells s idx)) (mul64 ([0, 1, 2, 3] ! k) ?q)"
      using F i cnt by auto
    then have "cell_base (cells t i) = cell_base (cells s idx) + k * ?q"
      using child_bounds(1) [OF cw d4 k(1)] unfolding nth_0123 [OF k(1)] by simp
    with F i cnt k ti show "cell_state (cells s' i) = CELL_FREE \<and> cell_parent (cells s' i) = idx
        \<and> cell_size (cells s' i) = ?q
        \<and> (\<exists>k<4. i = cell_count s + k \<and> cell_base (cells s' i) = cell_base (cells s idx) + k * ?q)"
      by auto
  qed
qed

lemma cell_split_wf:
  assumes wf: "forest_wf s" and a: "attached s idx" and fr: "cell_state (cells s idx) = CELL_FREE"
    and sz: "cell_size (cells s idx) \<ge> PAGE_SIZE * 4" and sp: "cell_split idx s = (ok, s')"
  shows "forest_wf s'" "same_cells s s'" "attached s' idx"
    "\<not> ok \<Longrightarrow> cell_state (cells s' idx) = CELL_FREE"
    "ok \<Longrightarrow> attached s' (cell_children (cells s' idx) 0)
      \<and> cell_state (cells s' (cell_children (cells s' idx) 0)) = CELL_FREE
      \<and> cell_base (cells s' (cell_children (cells s' idx) 0)) = cell_base (cells s idx)
      \<and> cell_size (cells s' (cell_children (cells s' idx) 0)) = cell_size (cells s idx) div 4"
proof -
  have idx: "idx < cell_count s" using a by (simp add: attached_def)
  let ?q = "cell_size (cells s idx) div 4"
  obtain ch where
    old: "\<And>i. i < cell_count s \<Longrightarrow> i \<noteq> idx \<Longrightarrow> cells s' i = cells s i" and
    self: "cells s' idx = (cells s idx)\<lparr> cell_children := ch,
      cell_state := if ok then CELL_SPLIT else CELL_FREE \<rparr>" and
    new: "\<And>i. cell_count s \<le> i \<Longrightarrow> i < cell_count s' \<Longrightarrow> cell_state (cells s' i) = CELL_FREE
       \<and> cell_parent (cells s' i) = idx \<and> cell_size (cells s' i) = ?q
       \<and> (\<exists>k<4. i = cell_count s + k \<and> cell_base (cells s' i) = cell_base (cells s idx) + k * ?q)" and
    okc: "ok \<Longrightarrow> cell_count s' = cell_count s + 4 \<and> (\<forall>k<4. ch k = cell_count s + k)" and
    le: "cell_count s \<le> cell_count s'" "cell_count s' \<le> CELL_POOL_SIZE"
      "total_mem s' = total_mem s" "free_mem s' = free_mem s"
    using cell_split_effect [OF wf idx fr sz sp] by metis
  have cw: "cell_wf s idx" by (rule forest_wfD(2) [OF wf idx])
  have pw: "4 dvd cell_size (cells s idx)" "\<exists>k. ?q = 4096 * 4 ^ k"
    using cw sz size_power [of "cell_size (cells s idx)"] by (auto simp: cell_wf_def)
  have ni: "idx \<noteq> NO_CELL" by (rule count_no_cell [OF wf idx])
  have fld: "cell_base (cells s' i) = cell_base (cells s i)" "cell_size (cells s' i) = cell_size (cells s i)"
    "cell_parent (cells s' i) = cell_parent (cells s i)" if "i < cell_count s" for i
    using old self that by (cases "i = idx"; simp)+
  have st: "cell_state (cells s' i) = cell_state (cells s i)" if "i < cell_count s" "i \<noteq> idx" for i
    using old that by simp
  have us: "cell_state (cells s' i) = CELL_USED \<longleftrightarrow> cell_state (cells s i) = CELL_USED"
    if "i < cell_count s" for i
    using st [OF that] self fr by (cases "i = idx") auto
  show same: "same_cells s s'"
    unfolding same_cells_def using le fld us new ni by auto
  show nok: "\<not> ok \<Longrightarrow> cell_state (cells s' idx) = CELL_FREE" using self by simp
  show first: "ok \<Longrightarrow> attached s' (cell_children (cells s' idx) 0)
      \<and> cell_state (cells s' (cell_children (cells s' idx) 0)) = CELL_FREE
      \<and> cell_base (cells s' (cell_children (cells s' idx) 0)) = cell_base (cells s idx)
      \<and> cell_size (cells s' (cell_children (cells s' idx) 0)) = ?q"
    using okc self new [of "cell_count s"] le by (auto simp: attached_def intro!: exI [of _ 0])
  have att: "attached s' i" if "attached s i" for i
  proof -
    have i: "i < cell_count s" using that by (simp add: attached_def)
    show ?thesis
    proof (cases "cell_parent (cells s i) = NO_CELL")
      case True
      then show ?thesis using i le fld by (simp add: attached_def)
    next
      case False
      let ?p = "cell_parent (cells s i)"
      have sp: "cell_state (cells s ?p) = CELL_SPLIT" using that False by (simp add: attached_def)
      then have "?p \<noteq> idx" using fr by auto
      moreover have "?p < cell_count s"
        using forest_wfD(2) [OF wf i] False i by (simp add: cell_wf_def)
      ultimately show ?thesis using that i le fld old by (simp add: attached_def)
    qed
  qed
  then show "attached s' idx" using a .
  have til: "tiled s' i" if i: "i < cell_count s" "i \<noteq> idx" and t: "tiled s i" for i
    unfolding tiled_def
  proof (intro conjI allI impI)
    show "4 dvd cell_size (cells s' i)" using t fld i by (simp add: tiled_def)
    fix j :: nat assume j: "j < 4"
    define c where "c = cell_children (cells s i) j"
    have c: "i < c" "c < cell_count s" "cell_parent (cells s c) = i"
      "cell_base (cells s c) = cell_base (cells s i) + j * (cell_size (cells s i) div 4)"
      "cell_size (cells s c) = cell_size (cells s i) div 4" "cell_state (cells s c) \<noteq> CELL_RESERVED"
      using t j by (auto simp: tiled_def Let_def c_def)
    have "cell_state (cells s' c) \<noteq> CELL_RESERVED"
      using c(2,6) st self by (cases "c = idx") simp_all
    with c le fld i old show "let c = cell_children (cells s' i) j
      in i < c \<and> c < cell_count s' \<and> cell_parent (cells s' c) = i \<and>
         cell_base (cells s' c) = cell_base (cells s' i) + j * (cell_size (cells s' i) div 4) \<and>
         cell_size (cells s' c) = cell_size (cells s' i) div 4 \<and> cell_state (cells s' c) \<noteq> CELL_RESERVED"
      by (simp add: Let_def c_def)
  qed
  have tidx: "tiled s' idx" if ok
    unfolding tiled_def
  proof (intro conjI allI impI)
    show "4 dvd cell_size (cells s' idx)" using pw self by simp
    fix j :: nat assume j: "j < 4"
    have "ch j = cell_count s + j" "cell_count s + j < cell_count s'" using okc [OF that] j by simp_all
    with new [of "cell_count s + j"] idx self show "let c = cell_children (cells s' idx) j
      in idx < c \<and> c < cell_count s' \<and> cell_parent (cells s' c) = idx \<and>
         cell_base (cells s' c) = cell_base (cells s' idx) + j * (cell_size (cells s' idx) div 4) \<and>
         cell_size (cells s' c) = cell_size (cells s' idx) div 4 \<and> cell_state (cells s' c) \<noteq> CELL_RESERVED"
      by (auto simp: Let_def)
  qed
  have "cell_wf s' i" if i: "i < cell_count s'" for i
  proof (cases "i < cell_count s")
    case True
    note w = forest_wfD(2) [OF wf True]
    show ?thesis
    proof (cases "i = idx")
      case True
      then show ?thesis using cw fld [OF idx] tidx att a self unfolding cell_wf_def by auto
    next
      case False
      then show ?thesis
        using w fld [OF True] st [OF True False] til [OF True False] att unfolding cell_wf_def by auto
    qed
  next
    case False
    with new [of i] i obtain k where k: "k < 4" "cell_base (cells s' i) = cell_base (cells s idx) + k * ?q"
      "cell_size (cells s' i) = ?q" "cell_state (cells s' i) = CELL_FREE" "cell_parent (cells s' i) = idx"
      by auto
    have "4096 dvd ?q" using pw(2) by auto
    then have "4096 dvd cell_base (cells s' i)" using cw k(2) by (simp add: cell_wf_def)
    moreover have "cell_base (cells s' i) + cell_size (cells s' i) \<le> 2 ^ 52"
      using child_bounds(2) [OF cw pw(1) k(1)] cw k(2,3) by (simp add: cell_wf_def)
    moreover have "4096 \<le> cell_base (cells s' i)" using cw k(2) by (simp add: cell_wf_def)
    ultimately show ?thesis using k pw(2) False idx by (simp add: cell_wf_def)
  qed
  moreover have "\<forall>i\<in>root_cells s'. \<forall>j\<in>root_cells s'. i \<noteq> j \<longrightarrow> region s' i \<inter> region s' j = {}"
    using wf same_cells_sets(2,3) [OF same] by (auto simp: forest_wf_def root_cells_def)
  ultimately show "forest_wf s'" using le by (simp add: forest_wf_def)
qed

section \<open>Searching\<close>

lemma split_children:
  assumes wf: "forest_wf s" and i: "i < cell_count s" "cell_state (cells s i) = CELL_SPLIT" and j: "j < 4"
  shows "attached s (cell_children (cells s i) j)" "i < cell_children (cells s i) j"
    "cell_children (cells s i) j \<noteq> NO_CELL" "parent_of s i (cell_children (cells s i) j)"
proof -
  have t: "tiled s i" using forest_wfD(2) [OF wf i(1)] i(2) by (simp add: cell_wf_def)
  then show lt: "i < cell_children (cells s i) j" using j by (simp add: tiled_def Let_def)
  have c: "cell_children (cells s i) j < cell_count s" "cell_parent (cells s (cell_children (cells s i) j)) = i"
    using t j by (auto simp: tiled_def Let_def)
  then show at: "attached s (cell_children (cells s i) j)" using i j by (auto simp: attached_def)
  show "cell_children (cells s i) j \<noteq> NO_CELL" by (rule count_no_cell [OF wf c(1)])
  show "parent_of s i (cell_children (cells s i) j)"
    using at c(2) count_no_cell [OF wf i(1)] by (simp add: parent_of_def)
qed

lemma less_4: "(j :: nat) < 4 \<longleftrightarrow> j = 0 \<or> j = 1 \<or> j = 2 \<or> j = 3"
  by auto

text \<open>A search returns, what it returns is a free attached cell that fits, and it misses none.\<close>

lemma find_free_correct:
  assumes wf: "forest_wf s"
  shows "attached s idx \<Longrightarrow> \<exists>r. find_free_cell_zone idx m z strict s = Some r
    \<and> (r \<noteq> NO_CELL \<longrightarrow> attached s r \<and> cell_state (cells s r) = CELL_FREE \<and> fits (cells s r) m z strict)
    \<and> (r = NO_CELL \<longrightarrow> (\<forall>d. (parent_of s)\<^sup>*\<^sup>* idx d \<and> cell_state (cells s d) = CELL_FREE \<longrightarrow>
          \<not> fits (cells s d) m z strict))"
proof (induction "cell_count s - idx" arbitrary: idx rule: less_induct)
  case less
  have i: "idx < cell_count s" using less.prems by (simp add: attached_def)
  show ?case
  proof (cases "cell_state (cells s idx) = CELL_SPLIT")
    case True
    let ?P = "\<lambda>c r. find_free_cell_zone c m z strict s = Some r
      \<and> (r \<noteq> NO_CELL \<longrightarrow> attached s r \<and> cell_state (cells s r) = CELL_FREE \<and> fits (cells s r) m z strict)
      \<and> (r = NO_CELL \<longrightarrow> (\<forall>d. (parent_of s)\<^sup>*\<^sup>* c d \<and> cell_state (cells s d) = CELL_FREE \<longrightarrow>
            \<not> fits (cells s d) m z strict))"
    let ?c = "cell_children (cells s idx)"
    note C = split_children [OF wf i True]
    have "\<exists>r. ?P (?c j) r" if "j < 4" for j
      using less.hyps [OF _ C(1) [OF that]] C(2) [OF that] i by fastforce
    then obtain r0 r1 r2 r3 where r: "?P (?c 0) r0" "?P (?c 1) r1" "?P (?c 2) r2" "?P (?c 3) r3"
      by (metis less_4)
    have ne: "?c 0 \<noteq> NO_CELL" "?c 1 \<noteq> NO_CELL" "?c 2 \<noteq> NO_CELL" "?c 3 \<noteq> NO_CELL"
      using C(3) by (simp_all add: less_4)
    have eq: "find_free_cell_zone idx m z strict s =
        Some (if r0 \<noteq> NO_CELL then r0 else if r1 \<noteq> NO_CELL then r1 else if r2 \<noteq> NO_CELL then r2 else r3)"
      using True r ne by (subst find_free_cell_zone.simps) simp
    have desc: "\<exists>j<4. (parent_of s)\<^sup>*\<^sup>* (?c j) d"
      if "(parent_of s)\<^sup>*\<^sup>* idx d" "cell_state (cells s d) = CELL_FREE" for d
      using that(1)
    proof (cases rule: converse_rtranclpE)
      case base
      then show ?thesis using that(2) True by simp
    next
      case (step y)
      then show ?thesis using parent_ofD(5) [OF wf step(1)] by blast
    qed
    have "\<not> fits (cells s d) m z strict"
      if "r0 = NO_CELL" "r1 = NO_CELL" "r2 = NO_CELL" "r3 = NO_CELL" "(parent_of s)\<^sup>*\<^sup>* idx d"
        "cell_state (cells s d) = CELL_FREE" for d
      using desc [OF that(5,6)] r that by (auto simp: less_4)
    with r eq show ?thesis by auto
  next
    case False
    have "d = idx" if "(parent_of s)\<^sup>*\<^sup>* idx d" for d
      using leaf_ancestor [OF wf that False] by simp
    with False less.prems count_no_cell [OF wf i] show ?thesis
      by (subst find_free_cell_zone.simps) auto
  qed
qed

lemma pick_root_correct:
  assumes wf: "forest_wf s"
  shows "\<forall>i\<in>set is. i < cell_count s \<Longrightarrow> \<exists>r. pick_root is req z strict s = Some r
    \<and> (case r of
         Some (idx, found) \<Rightarrow> idx \<in> set is \<and> attached s found \<and> cell_state (cells s found) = CELL_FREE
           \<and> fits (cells s found) req z strict
       | None \<Rightarrow> \<forall>i\<in>set is. \<forall>d. i \<in> root_cells s \<and> (parent_of s)\<^sup>*\<^sup>* i d \<and> cell_state (cells s d) = CELL_FREE
           \<longrightarrow> \<not> fits (cells s d) req z strict)"
proof (induction "is")
  case (Cons i "is")
  have i: "i < cell_count s" using Cons.prems by simp
  obtain r where r: "pick_root is req z strict s = Some r"
    "case r of Some (idx, found) \<Rightarrow> idx \<in> set is \<and> attached s found \<and> cell_state (cells s found) = CELL_FREE
           \<and> fits (cells s found) req z strict
       | None \<Rightarrow> \<forall>i\<in>set is. \<forall>d. i \<in> root_cells s \<and> (parent_of s)\<^sup>*\<^sup>* i d \<and> cell_state (cells s d) = CELL_FREE
           \<longrightarrow> \<not> fits (cells s d) req z strict"
    using Cons by auto
  show ?case
  proof (cases "cell_parent (cells s i) = NO_CELL")
    case False
    then have "i \<notin> root_cells s" by (simp add: root_cells_def)
    with False r show ?thesis by (auto split: option.splits)
  next
    case True
    then have "attached s i" using i by (simp add: attached_def)
    from find_free_correct [OF wf this, of req z strict] obtain f where
      f: "find_free_cell_zone i req z strict s = Some f"
        "f \<noteq> NO_CELL \<longrightarrow> attached s f \<and> cell_state (cells s f) = CELL_FREE \<and> fits (cells s f) req z strict"
        "f = NO_CELL \<longrightarrow> (\<forall>d. (parent_of s)\<^sup>*\<^sup>* i d \<and> cell_state (cells s d) = CELL_FREE \<longrightarrow>
          \<not> fits (cells s d) req z strict)" by blast
    show ?thesis
    proof (cases "f = NO_CELL")
      case True
      with \<open>cell_parent (cells s i) = NO_CELL\<close> f r show ?thesis by (auto split: option.splits)
    next
      case False
      with \<open>cell_parent (cells s i) = NO_CELL\<close> f show ?thesis by auto
    qed
  qed
qed simp

lemma split_loop_fail: "split_loop is idx cs s = (False, s') \<Longrightarrow> CELL_POOL_SIZE \<le> cell_count s'"
proof (induction "is" arbitrary: s)
  case (Cons i "is")
  then show ?case
    by (cases "CELL_POOL_SIZE \<le> cell_count s")
      (auto simp: cell_alloc_node_def yam_consts split: if_splits)
qed simp

lemma cell_split_fail:
  assumes "cell_split idx s = (False, s')" "cell_state (cells s idx) = CELL_FREE"
    "cell_size (cells s idx) \<ge> PAGE_SIZE * 4"
  shows "CELL_POOL_SIZE \<le> cell_count s'"
proof -
  obtain ok t where l: "split_loop [0, 1, 2, 3] idx (cell_size (cells s idx) div 4) s = (ok, t)"
    by fastforce
  then have "\<not> ok \<and> s' = t"
    using assms by (simp add: cell_split_def del: split_loop.simps split: if_splits)
  with l show ?thesis by (auto dest: split_loop_fail simp del: split_loop.simps)
qed

lemma split_down_correct:
  assumes "forest_wf s" "attached s found" "cell_state (cells s found) = CELL_FREE"
    "cell_size (cells s found) \<ge> req"
  shows "\<exists>leaf s'. split_down found req s = Some (leaf, s') \<and> forest_wf s' \<and> same_cells s s'
    \<and> attached s' leaf \<and> cell_state (cells s' leaf) = CELL_FREE
    \<and> cell_base (cells s' leaf) = cell_base (cells s found) \<and> cell_size (cells s' leaf) \<ge> req
    \<and> (cell_size (cells s' leaf) \<le> PAGE_SIZE \<or> cell_size (cells s' leaf) div 4 < req
        \<or> cell_size (cells s' leaf) < PAGE_SIZE * 4 \<or> cell_count s' = CELL_POOL_SIZE)"
  using assms
proof (induction "cell_size (cells s found)" arbitrary: found s rule: less_induct)
  case less
  show ?case
  proof (cases "cell_size (cells s found) div 4 \<ge> req \<and> cell_size (cells s found) \<ge> PAGE_SIZE * 4")
    case False
    then show ?thesis
      using less.prems same_cells_refl [of s] by (subst split_down.simps) auto
  next
    case True
    obtain ok s1 where sp: "cell_split found s = (ok, s1)" by fastforce
    note S = cell_split_wf [OF less.prems(1-3) conjunct2 [OF True] sp]
    have found: "found < cell_count s" using less.prems(2) by (simp add: attached_def)
    show ?thesis
    proof (cases ok)
      case False
      then have "cell_count s1 = CELL_POOL_SIZE"
        using cell_split_fail [of found s s1] sp less.prems(3) True forest_wfD(1) [OF S(1)]
        by (simp add: le_antisym)
      moreover have "cell_base (cells s1 found) = cell_base (cells s found)"
        "cell_size (cells s1 found) = cell_size (cells s found)"
        using S(2) found by (simp_all add: same_cells_def)
      ultimately show ?thesis
        using False S(1-4) sp True less.prems(4) by (subst split_down.simps) auto
    next
      case ok: True
      define c where "c = cell_children (cells s1 found) 0"
      have c: "attached s1 c" "cell_state (cells s1 c) = CELL_FREE"
        "cell_base (cells s1 c) = cell_base (cells s found)"
        "cell_size (cells s1 c) = cell_size (cells s found) div 4"
        using S(5) [OF ok] by (simp_all add: c_def)
      have "cell_size (cells s1 c) < cell_size (cells s found)" "req \<le> cell_size (cells s1 c)"
        using True c(4) by (simp_all add: yam_consts)
      from less.hyps [OF this(1) S(1) c(1,2) this(2)] obtain leaf s' where
        l: "split_down c req s1 = Some (leaf, s')" "forest_wf s'" "same_cells s1 s'" "attached s' leaf"
          "cell_state (cells s' leaf) = CELL_FREE" "cell_base (cells s' leaf) = cell_base (cells s1 c)"
          "cell_size (cells s' leaf) \<ge> req" "cell_size (cells s' leaf) \<le> PAGE_SIZE
            \<or> cell_size (cells s' leaf) div 4 < req
            \<or> cell_size (cells s' leaf) < PAGE_SIZE * 4 \<or> cell_count s' = CELL_POOL_SIZE"
        by blast
      have "split_down found req s = Some (leaf, s')"
        using True ok sp l(1) by (subst split_down.simps) (simp add: c_def)
      with l c(3) same_cells_trans [OF S(2) l(3)] show ?thesis by auto
    qed
  qed
qed

section \<open>Taking and releasing a cell\<close>

lemma upd_misc_simps [simp]:
  "cells (upd_zone z f s) = cells s" "cell_count (upd_zone z f s) = cell_count s"
  "total_mem (upd_zone z f s) = total_mem s" "free_mem (upd_zone z f s) = free_mem s"
  "cells (upd_pages a n g s) = cells s" "cell_count (upd_pages a n g s) = cell_count s"
  "total_mem (upd_pages a n g s) = total_mem s" "free_mem (upd_pages a n g s) = free_mem s"
  "cells (upd_page a g s) = cells s" "cell_count (upd_page a g s) = cell_count s"
  "total_mem (upd_page a g s) = total_mem s" "free_mem (upd_page a g s) = free_mem s"
  "cells (check_pressure zt s) = cells s" "cell_count (check_pressure zt s) = cell_count s"
  "total_mem (check_pressure zt s) = total_mem s" "free_mem (check_pressure zt s) = free_mem s"
  by (simp_all add: upd_zone_def upd_pages_def upd_page_def check_pressure_def)

text \<open>The invariant depends on nothing but the cells and the byte counters.\<close>

lemma forest_wf_cong: "cells s' = cells s \<Longrightarrow> cell_count s' = cell_count s \<Longrightarrow> forest_wf s' = forest_wf s"
  by (simp add: forest_wf_def cell_wf_def tiled_def attached_def region_def root_cells_def)

lemma cells_cong:
  assumes "cells s' = cells s" "cell_count s' = cell_count s"
  shows "used_cells s' = used_cells s" "root_cells s' = root_cells s" "region s' = region s"
    "attached s' = attached s"
proof -
  show "used_cells s' = used_cells s" "root_cells s' = root_cells s"
    using assms by (simp_all add: used_cells_def root_cells_def)
  show "region s' = region s" "attached s' = attached s"
    using assms by (simp_all add: region_def attached_def ext)
qed

lemma pmm_wf_cong:
  "cells s' = cells s \<Longrightarrow> cell_count s' = cell_count s \<Longrightarrow> total_mem s' = total_mem s \<Longrightarrow>
    free_mem s' = free_mem s \<Longrightarrow> pmm_wf s' = pmm_wf s"
  using forest_wf_cong [of s' s] cells_cong [of s' s] by (simp add: pmm_wf_def bytes_wf_def)

text \<open>Changing the state of one leaf between free and used.\<close>

lemma forest_wf_leaf:
  assumes wf: "forest_wf s" and a: "attached s i" and leaf: "cell_state (cells s i) \<noteq> CELL_SPLIT"
    and new: "st = CELL_FREE \<or> st = CELL_USED"
  shows "forest_wf (upd_cell i (\<lambda>c. c\<lparr> cell_state := st, cell_owner := ow c \<rparr>) s)"
proof -
  define s' where "s' = upd_cell i (\<lambda>c. c\<lparr> cell_state := st, cell_owner := ow c \<rparr>) s"
  have fld: "cell_base (cells s' j) = cell_base (cells s j)" "cell_size (cells s' j) = cell_size (cells s j)"
    "cell_parent (cells s' j) = cell_parent (cells s j)"
    "cell_children (cells s' j) = cell_children (cells s j)" "cell_count s' = cell_count s"
    "cell_state (cells s' j) = (if j = i then st else cell_state (cells s j))" for j
    by (simp_all add: s'_def)
  have sp: "cell_state (cells s' j) = CELL_SPLIT \<longleftrightarrow> cell_state (cells s j) = CELL_SPLIT" for j
    using leaf new by (auto simp: fld)
  have at: "attached s' = attached s" by (simp add: attached_def fun_eq_iff fld(3-5) sp)
  have ti: "tiled s j \<Longrightarrow> tiled s' j" for j
    using new unfolding tiled_def Let_def by (auto simp: fld)
  have "cell_wf s' j" if "j < cell_count s" for j
  proof (cases "j = i")
    case True
    then show ?thesis
      using forest_wfD(2) [OF wf that] a leaf unfolding cell_wf_def at sp by (simp add: fld)
  next
    case False
    then show ?thesis
      using forest_wfD(2) [OF wf that] ti [of j] unfolding cell_wf_def at sp by (simp add: fld)
  qed
  moreover have "root_cells s' = root_cells s" "region s' = region s"
    by (auto simp: root_cells_def region_def fld fun_eq_iff)
  ultimately show ?thesis using wf unfolding s'_def [symmetric] by (simp add: forest_wf_def fld)
qed

lemma used_attached: "forest_wf s \<Longrightarrow> i \<in> used_cells s \<Longrightarrow> attached s i"
  by (auto simp: used_cells_def forest_wf_def cell_wf_def)

lemma take_cell_wf:
  assumes wf: "pmm_wf s" and a: "attached s i" and fr: "cell_state (cells s i) = CELL_FREE"
    and tot: "total_mem s < 2 ^ 64"
  shows "pmm_wf (take_cell idx i s)" "used_cells (take_cell idx i s) = insert i (used_cells s)"
    "free_mem (take_cell idx i s) + cell_size (cells s i) = free_mem s"
    "total_mem (take_cell idx i s) = total_mem s"
    "region (take_cell idx i s) = region s" "i \<notin> used_cells s"
proof -
  define s' where "s' = take_cell idx i s"
  have fwf: "forest_wf s" and bwf: "bytes_wf s" using wf by (simp_all add: pmm_wf_def)
  have c: "cells s' j = (if j = i then (cells s i)\<lparr> cell_state := CELL_USED \<rparr> else cells s j)"
    "cell_count s' = cell_count s" "total_mem s' = total_mem s"
    "free_mem s' = sub64 (free_mem s) (cell_size (cells s i))" for j
    by (simp_all add: s'_def take_cell_def Let_def)
  have ilt: "i < cell_count s" using a by (simp add: attached_def)
  have nu: "i \<notin> used_cells s" using fr by (simp add: used_cells_def)
  have u: "used_cells s' = insert i (used_cells s)" using ilt by (auto simp: used_cells_def c)
  have r: "root_cells s' = root_cells s" "region s' = region s"
    by (auto simp: root_cells_def region_def c fun_eq_iff)
  have sz: "cell_size (cells s' j) = cell_size (cells s j)" for j by (simp add: c)
  have "attached s j \<and> cell_state (cells s j) \<noteq> CELL_SPLIT" if "j \<in> insert i (used_cells s)" for j
    using that used_attached [OF fwf, of j] a fr by (auto simp: used_cells_def)
  then have "(\<Sum>j\<in>insert i (used_cells s). cell_size (cells s j)) \<le> total_mem s"
    using leaves_fit [OF fwf, of "insert i (used_cells s)"] bwf by (simp add: bytes_wf_def)
  then have le: "cell_size (cells s i) + (\<Sum>j\<in>used_cells s. cell_size (cells s j)) \<le> total_mem s"
    using nu by simp
  then have f: "free_mem s' + cell_size (cells s i) = free_mem s"
    using bwf tot by (simp add: c(4) bytes_wf_def sub64_le)
  have "forest_wf (upd_cell i (\<lambda>c. c\<lparr> cell_state := CELL_USED, cell_owner := cell_owner c \<rparr>) s)"
    using forest_wf_leaf [OF fwf a, of CELL_USED cell_owner] fr by simp
  moreover have eq: "cells s' = cells (upd_cell i (\<lambda>c. c\<lparr> cell_state := CELL_USED, cell_owner := cell_owner c \<rparr>) s)"
    by (rule ext) (simp add: c)
  ultimately have "forest_wf s'" using forest_wf_cong [OF eq] c(2) by simp
  moreover have "bytes_wf s'" using bwf f nu by (simp add: bytes_wf_def u r sz c(3))
  ultimately show "pmm_wf (take_cell idx i s)" "used_cells (take_cell idx i s) = insert i (used_cells s)"
    "free_mem (take_cell idx i s) + cell_size (cells s i) = free_mem s"
    "total_mem (take_cell idx i s) = total_mem s" "region (take_cell idx i s) = region s" "i \<notin> used_cells s"
    using u f c(3) r nu by (simp_all add: pmm_wf_def s'_def)
qed

lemma total_bound:
  assumes "pmm_wf s"
  shows "total_mem s \<le> 2 ^ 52"
proof -
  have wf: "forest_wf s" using assms by (simp add: pmm_wf_def)
  have c: "card (region s i) = cell_size (cells s i)" "finite (region s i)" for i
    by (simp_all add: region_def)
  have "(\<Sum>i\<in>root_cells s. card (region s i)) = card (\<Union>i\<in>root_cells s. region s i)"
    using wf by (intro card_UN_disjoint [symmetric]) (auto simp: c forest_wf_def)
  also have "region s i \<subseteq> {0..<2 ^ 52}" if "i \<in> root_cells s" for i
    using forest_wfD(2) [OF wf, of i] that by (auto simp: root_cells_def cell_wf_def region_def)
  then have "card (\<Union>i\<in>root_cells s. region s i) \<le> card {0..<(2 :: nat) ^ 52}"
    by (intro card_mono) auto
  finally show ?thesis using assms by (simp add: c pmm_wf_def bytes_wf_def)
qed

lemma release_cell_wf:
  assumes wf: "pmm_wf s" and i: "i \<in> used_cells s"
  shows "pmm_wf (release_cell phys i s)" "used_cells (release_cell phys i s) = used_cells s - {i}"
    "free_mem (release_cell phys i s) = free_mem s + cell_size (cells s i)"
    "total_mem (release_cell phys i s) = total_mem s"
    "region (release_cell phys i s) = region s"
    "cell_count (release_cell phys i s) = cell_count s"
proof -
  define s' where "s' = release_cell phys i s"
  have fwf: "forest_wf s" and bwf: "bytes_wf s" using wf by (simp_all add: pmm_wf_def)
  have c: "cells s' j = (if j = i then (cells s i)\<lparr> cell_state := CELL_FREE, cell_owner := 0 \<rparr> else cells s j)"
    "cell_count s' = cell_count s" "total_mem s' = total_mem s"
    "free_mem s' = add64 (free_mem s) (cell_size (cells s i))" for j
    by (simp_all add: s'_def release_cell_def Let_def)
  have u: "used_cells s' = used_cells s - {i}" by (auto simp: used_cells_def c)
  have r: "root_cells s' = root_cells s" "region s' = region s"
    by (auto simp: root_cells_def region_def c fun_eq_iff)
  have sz: "cell_size (cells s' j) = cell_size (cells s j)" for j by (simp add: c)
  have sum: "(\<Sum>j\<in>used_cells s. cell_size (cells s j)) =
      cell_size (cells s i) + (\<Sum>j\<in>used_cells s - {i}. cell_size (cells s j))"
    using i by (simp add: sum.remove)
  have f: "free_mem s' = free_mem s + cell_size (cells s i)"
    using bwf sum total_bound [OF wf] by (simp add: c(4) bytes_wf_def add64_lt)
  have "cell_state (cells s i) = CELL_USED" using i by (simp add: used_cells_def)
  then have "forest_wf (upd_cell i (\<lambda>c. c\<lparr> cell_state := CELL_FREE, cell_owner := 0 \<rparr>) s)"
    using forest_wf_leaf [OF fwf used_attached [OF fwf i], of CELL_FREE "\<lambda>_. 0"] by simp
  moreover have eq: "cells s' = cells (upd_cell i (\<lambda>c. c\<lparr> cell_state := CELL_FREE, cell_owner := 0 \<rparr>) s)"
    by (rule ext) (simp add: c)
  ultimately have "forest_wf s'" using forest_wf_cong [OF eq] c(2) by simp
  moreover have "bytes_wf s'" using bwf f sum by (simp add: bytes_wf_def u r sz c(3))
  ultimately show "pmm_wf (release_cell phys i s)" "used_cells (release_cell phys i s) = used_cells s - {i}"
    "free_mem (release_cell phys i s) = free_mem s + cell_size (cells s i)"
    "total_mem (release_cell phys i s) = total_mem s" "region (release_cell phys i s) = region s"
    "cell_count (release_cell phys i s) = cell_count s"
    using u f c(2,3) r by (simp_all add: pmm_wf_def s'_def)
qed

section \<open>Merging\<close>

lemma merge_once_cells:
  assumes "cell_children (cells s p) 0 = a" "cell_children (cells s p) 1 = b"
   "cell_children (cells s p) 2 = c" "cell_children (cells s p) 3 = d" "distinct [p, a, b, c, d]"
  shows "cells (merge_once p s) j =
    (if j = p then (cells s p)\<lparr> cell_state := CELL_FREE, cell_children := (cell_children (cells s p))
        (0 := NO_CELL, 1 := NO_CELL, 2 := NO_CELL, 3 := NO_CELL) \<rparr>
     else if j \<in> {a, b, c, d} then (cells s j)\<lparr> cell_state := CELL_RESERVED \<rparr>
     else cells s j)"
proof -
  have ne: "p \<noteq> a" "p \<noteq> b" "p \<noteq> c" "p \<noteq> d" "a \<noteq> b" "a \<noteq> c" "a \<noteq> d" "b \<noteq> c" "b \<noteq> d" "c \<noteq> d"
    using assms(5) by auto
  note ne' = ne [THEN not_sym]
  show ?thesis
    using assms(1-4) ne ne' by (simp add: merge_once_def)
qed

lemma merge_once_frame [simp]:
  "cell_count (merge_once p s) = cell_count s" "total_mem (merge_once p s) = total_mem s"
  "free_mem (merge_once p s) = free_mem s"
  by (simp_all add: merge_once_def)

lemma merge_once_wf:
  assumes wf: "forest_wf s" and p: "p < cell_count s" and sp: "cell_state (cells s p) = CELL_SPLIT"
    and fr: "\<And>i. i < 4 \<Longrightarrow> cell_state (cells s (cell_children (cells s p) i)) = CELL_FREE"
  shows "forest_wf (merge_once p s)" "same_cells s (merge_once p s)"
proof -
  define s' where "s' = merge_once p s"
  let ?c = "cell_children (cells s p)"
  note C = split_children [OF wf p sp]
  have t: "tiled s p" using forest_wfD(2) [OF wf p] sp by (simp add: cell_wf_def)
  have pos: "0 < cell_size (cells s (?c i))" if "i < 4" for i
    using forest_wfD(2) [OF wf, of "?c i"] C(1) [OF that] by (auto simp: cell_wf_def attached_def)
  have inj: "?c i \<noteq> ?c j" if "i < 4" "j < 4" "i \<noteq> j" for i j
  proof
    assume "?c i = ?c j"
    moreover have "cell_base (cells s (?c k)) = cell_base (cells s p) + k * (cell_size (cells s p) div 4)"
      "cell_size (cells s (?c k)) = cell_size (cells s p) div 4" if "k < 4" for k
      using t that by (simp_all add: tiled_def Let_def)
    ultimately have "i * (cell_size (cells s p) div 4) = j * (cell_size (cells s p) div 4)"
      "cell_size (cells s p) div 4 > 0"
      using that pos [OF that(1)] by (metis add_left_cancel)+
    with that(3) show False by (metis mult_right_cancel less_irrefl)
  qed
  have m: "cells s' j =
    (if j = p then (cells s p)\<lparr> cell_state := CELL_FREE, cell_children := ?c
        (0 := NO_CELL, 1 := NO_CELL, 2 := NO_CELL, 3 := NO_CELL) \<rparr>
     else if \<exists>i<4. j = ?c i then (cells s j)\<lparr> cell_state := CELL_RESERVED \<rparr> else cells s j)" for j
  proof -
    have "distinct [p, ?c 0, ?c 1, ?c 2, ?c 3]"
      using C(2) [of 0] C(2) [of 1] C(2) [of 2] C(2) [of 3] inj [of 0 1] inj [of 0 2] inj [of 0 3]
        inj [of 1 2] inj [of 1 3] inj [of 2 3] by auto
    from merge_once_cells [OF refl refl refl refl this, of j] show ?thesis
      unfolding s'_def by (simp add: less_4 ex_disj_distrib conj_disj_distribR)
  qed
  have fld: "cell_base (cells s' j) = cell_base (cells s j)" "cell_size (cells s' j) = cell_size (cells s j)"
    "cell_parent (cells s' j) = cell_parent (cells s j)" for j by (simp_all add: m)
  have st: "cell_state (cells s' j) = CELL_SPLIT \<longleftrightarrow> cell_state (cells s j) = CELL_SPLIT \<and> j \<noteq> p"
    "cell_state (cells s' j) = CELL_USED \<longleftrightarrow> cell_state (cells s j) = CELL_USED" for j
    using fr sp by (auto simp: m)
  have ch: "cell_children (cells s' j) = cell_children (cells s j)" if "j \<noteq> p" for j
    using that by (simp add: m)
  have cc: "cell_count s' = cell_count s" by (simp add: s'_def)
  show same: "same_cells s (merge_once p s)"
    unfolding s'_def [symmetric] same_cells_def using fld st cc by (simp add: s'_def)
  have notchild: "cell_parent (cells s j) \<noteq> p"
    if j: "j < cell_count s" "attached s j" "cell_state (cells s j) = CELL_SPLIT \<or> cell_state (cells s j) = CELL_USED" for j
  proof
    assume e: "cell_parent (cells s j) = p"
    then obtain k where "k < 4" "?c k = j"
      using j(2) count_no_cell [OF wf p] by (auto simp: attached_def)
    with fr [of k] j(3) show False by auto
  qed
  have at: "attached s' j" if "j < cell_count s" "attached s j"
    "cell_state (cells s j) = CELL_SPLIT \<or> cell_state (cells s j) = CELL_USED" for j
    using notchild [OF that] that(2) ch by (simp add: attached_def fld cc st)
  have til: "tiled s' j" if j: "j < cell_count s" "j \<noteq> p" "tiled s j" for j
    unfolding tiled_def
  proof (intro conjI allI impI)
    show "4 dvd cell_size (cells s' j)" using j fld by (simp add: tiled_def)
    fix k :: nat assume k: "k < 4"
    define c where "c = cell_children (cells s j) k"
    have c: "j < c" "c < cell_count s" "cell_parent (cells s c) = j"
      "cell_base (cells s c) = cell_base (cells s j) + k * (cell_size (cells s j) div 4)"
      "cell_size (cells s c) = cell_size (cells s j) div 4" "cell_state (cells s c) \<noteq> CELL_RESERVED"
      using j(3) k by (auto simp: tiled_def Let_def c_def)
    have "c \<noteq> ?c i" if "i < 4" for i
      using t that c(3) j(2) by (auto simp: tiled_def Let_def)
    then have "cell_state (cells s' c) \<noteq> CELL_RESERVED" using c(6) by (auto simp: m)
    with c show "let c = cell_children (cells s' j) k
      in j < c \<and> c < cell_count s' \<and> cell_parent (cells s' c) = j \<and>
         cell_base (cells s' c) = cell_base (cells s' j) + k * (cell_size (cells s' j) div 4) \<and>
         cell_size (cells s' c) = cell_size (cells s' j) div 4 \<and> cell_state (cells s' c) \<noteq> CELL_RESERVED"
      by (simp add: Let_def ch [OF j(2)] fld cc flip: c_def)
  qed
  have "cell_wf s' j" if j: "j < cell_count s'" for j
  proof -
    note w = forest_wfD(2) [OF wf j [unfolded cc], unfolded cell_wf_def]
    show ?thesis unfolding cell_wf_def fld st
      using w til [of j] at [of j] j cc by auto
  qed
  moreover have "\<forall>i\<in>root_cells s'. \<forall>j\<in>root_cells s'. i \<noteq> j \<longrightarrow> region s' i \<inter> region s' j = {}"
    using wf by (auto simp: forest_wf_def root_cells_def region_def fld cc)
  ultimately show "forest_wf (merge_once p s)"
    using forest_wfD(1) [OF wf] cc by (simp add: forest_wf_def flip: s'_def)
qed

lemma try_merge_correct:
  "forest_wf s \<Longrightarrow> idx < cell_count s \<Longrightarrow> \<exists>s'. cell_try_merge idx s = Some s' \<and> forest_wf s'
    \<and> same_cells s s' \<and> cell_count s' = cell_count s"
proof (induction idx arbitrary: s rule: less_induct)
  case (less idx)
  show ?case
  proof (cases "can_merge idx s")
    case False
    then show ?thesis
      using less.prems same_cells_refl [of s] by (subst cell_try_merge.simps) simp
  next
    case True
    define p where "p = cell_parent (cells s idx)"
    have m: "p \<noteq> NO_CELL" "cell_state (cells s p) = CELL_SPLIT"
      "\<And>i. i < 4 \<Longrightarrow> cell_state (cells s (cell_children (cells s p) i)) = CELL_FREE"
      using True by (auto simp: can_merge_def Let_def p_def less_4)
    have lt: "p < idx" using forest_wfD(2) [OF less.prems] m(1) by (auto simp: cell_wf_def p_def)
    then have pc: "p < cell_count s" using less.prems by simp
    note M = merge_once_wf [OF less.prems(1) pc m(2,3)]
    from less.IH [OF lt M(1)] pc obtain s' where
      s': "cell_try_merge p (merge_once p s) = Some s'" "forest_wf s'" "same_cells (merge_once p s) s'"
        "cell_count s' = cell_count s" by auto
    then show ?thesis
      using True same_cells_trans [OF M(2) s'(3)]
      by (subst cell_try_merge.simps) (simp add: p_def)
  qed
qed

end
