(* ===== verification/Pmm_Props.thy ===== *)
theory Pmm_Props
  imports Pmm_Inv
begin

text \<open>
  Allocation, release and initialisation keep the invariant and return; the properties clients of
  the physical memory manager rely on.
\<close>

section \<open>Allocation\<close>

lemma visit_order_all:
  assumes "i < cell_count s"
  shows "i \<in> set (visit_order s)"
proof -
  let ?n = "cell_count s" and ?l = "last_used_cell s mod cell_count s"
  let ?k = "(i + (?n - ?l)) mod ?n"
  have l: "?l < ?n" using assms by simp
  have "(last_used_cell s + ?k) mod ?n = (?l + (i + (?n - ?l))) mod ?n"
    by (simp add: mod_simps)
  also have "?l + (i + (?n - ?l)) = i + ?n" using l by simp
  also have "(i + ?n) mod ?n = i" using assms by simp
  finally have "(last_used_cell s + ?k) mod ?n = i" .
  moreover have "?k \<in> set [0..<?n]" using assms by simp
  ultimately show ?thesis unfolding visit_order_def set_map by (metis (mono_tags, lifting) image_eqI)
qed

lemma visit_order_bound: "i \<in> set (visit_order s) \<Longrightarrow> i < cell_count s"
  by (auto simp: visit_order_def)

lemma has_root_path:
  assumes wf: "forest_wf s" and "attached s i"
  shows "\<exists>r\<in>root_cells s. (parent_of s)\<^sup>*\<^sup>* r i"
  using assms(2)
proof (induction i rule: less_induct)
  case (less i)
  show ?case
  proof (cases "cell_parent (cells s i) = NO_CELL")
    case True
    then show ?thesis using less.prems by (auto simp: root_cells_def attached_def)
  next
    case False
    then have p: "parent_of s (cell_parent (cells s i)) i" using less.prems by (simp add: parent_of_def)
    note P = parent_ofD [OF wf p]
    obtain r where "r \<in> root_cells s" "(parent_of s)\<^sup>*\<^sup>* r (cell_parent (cells s i))"
      using less.IH [OF P(1,3)] by blast
    then show ?thesis using p by (meson rtranclp.rtrancl_into_rtrancl)
  qed
qed

text \<open>A free attached cell able to hold the request (inside the zone when it is strict).\<close>

definition fitting_cell :: "pmm \<Rightarrow> nat \<Rightarrow> mem_zone_type \<Rightarrow> bool \<Rightarrow> nat \<Rightarrow> bool" where
  "fitting_cell s req z strict d \<longleftrightarrow> attached s d \<and> cell_state (cells s d) = CELL_FREE
     \<and> fits (cells s d) req z strict"

text \<open>The two outcomes of a pass: nothing fits and nothing changes, or one fresh cell is taken.\<close>

definition pass_found :: "nat \<Rightarrow> mem_zone_type \<Rightarrow> bool \<Rightarrow> pmm \<Rightarrow> nat \<Rightarrow> pmm \<Rightarrow> nat \<Rightarrow> bool" where
  "pass_found req z strict s r s' leaf \<longleftrightarrow>
     leaf \<notin> used_cells s \<and> used_cells s' = insert leaf (used_cells s)
     \<and> cell_base (cells s' leaf) = r \<and> req \<le> cell_size (cells s' leaf)
     \<and> (strict \<longrightarrow> add64 r req \<le> zone_limit z)
     \<and> (\<forall>j\<in>used_cells s. region s' j = region s j)
     \<and> free_mem s' + cell_size (cells s' leaf) = free_mem s
     \<and> (cell_size (cells s' leaf) \<le> PAGE_SIZE \<or> cell_size (cells s' leaf) div 4 < req
         \<or> cell_size (cells s' leaf) < PAGE_SIZE * 4 \<or> cell_count s' = CELL_POOL_SIZE)
     \<and> (\<forall>pfn. phys_to_pfn r \<le> pfn \<and> pfn < phys_to_pfn r + cell_size (cells s' leaf) div PAGE_SIZE
           \<and> pfn < MAX_PHYS_PAGES \<longrightarrow> page_refcount (page_array s' pfn) = 1)"

lemma take_cell_frame:
  "cells (take_cell idx i s) j = (if j = i then (cells s i)\<lparr> cell_state := CELL_USED \<rparr> else cells s j)"
  "cell_count (take_cell idx i s) = cell_count s"
  "page_refcount (page_array (take_cell idx i s) pfn) =
     (if phys_to_pfn (cell_base (cells s i)) \<le> pfn
        \<and> pfn < phys_to_pfn (cell_base (cells s i)) + cell_size (cells s i) div PAGE_SIZE
        \<and> pfn < MAX_PHYS_PAGES then 1 else page_refcount (page_array s pfn))"
  by (auto simp: take_cell_def Let_def upd_pages_def upd_zone_def upd_cell_def)

lemma alloc_pass_correct:
  assumes wf: "pmm_wf s"
  shows "\<exists>r s'. alloc_pass count z strict s = Some (r, s') \<and> pmm_wf s' \<and> total_mem s' = total_mem s
    \<and> (r = 0 \<longrightarrow> s' = s \<and> \<not> (\<exists>d. fitting_cell s (mul64 count PAGE_SIZE) z strict d))
    \<and> (r \<noteq> 0 \<longrightarrow> (\<exists>leaf. pass_found (mul64 count PAGE_SIZE) z strict s r s' leaf))"
proof -
  let ?req = "mul64 count PAGE_SIZE"
  have fwf: "forest_wf s" and bwf: "bytes_wf s" using wf by (simp_all add: pmm_wf_def)
  obtain p where p: "pick_root (visit_order s) ?req z strict s = Some p"
    "case p of
         Some (idx, found) \<Rightarrow> idx \<in> set (visit_order s) \<and> attached s found \<and> cell_state (cells s found) = CELL_FREE
           \<and> fits (cells s found) ?req z strict
       | None \<Rightarrow> \<forall>i\<in>set (visit_order s). \<forall>d. i \<in> root_cells s \<and> (parent_of s)\<^sup>*\<^sup>* i d
           \<and> cell_state (cells s d) = CELL_FREE \<longrightarrow> \<not> fits (cells s d) ?req z strict"
    using pick_root_correct [OF fwf, of "visit_order s" ?req z strict] visit_order_bound by blast
  show ?thesis
  proof (cases p)
    case None
    have "\<not> fitting_cell s ?req z strict d" for d
    proof
      assume d: "fitting_cell s ?req z strict d"
      then obtain r where "r \<in> root_cells s" "(parent_of s)\<^sup>*\<^sup>* r d"
        using has_root_path [OF fwf] by (auto simp: fitting_cell_def)
      moreover from this have "r \<in> set (visit_order s)" by (auto simp: root_cells_def visit_order_all)
      ultimately show False using p(2) None d by (auto simp: fitting_cell_def)
    qed
    then show ?thesis using p None wf by (simp add: alloc_pass_def)
  next
    case (Some q)
    then obtain idx found where q: "p = Some (idx, found)" by (cases q) auto
    have f: "attached s found" "cell_state (cells s found) = CELL_FREE" "fits (cells s found) ?req z strict"
      using p(2) q by simp_all
    then have "cell_size (cells s found) \<ge> ?req" by (simp add: fits_def)
    from split_down_correct [OF fwf f(1,2) this] obtain leaf s1 where
      l: "split_down found ?req s = Some (leaf, s1)" "forest_wf s1" "same_cells s s1"
        "attached s1 leaf" "cell_state (cells s1 leaf) = CELL_FREE"
        "cell_base (cells s1 leaf) = cell_base (cells s found)" "cell_size (cells s1 leaf) \<ge> ?req"
        "cell_size (cells s1 leaf) \<le> PAGE_SIZE \<or> cell_size (cells s1 leaf) div 4 < ?req
          \<or> cell_size (cells s1 leaf) < PAGE_SIZE * 4 \<or> cell_count s1 = CELL_POOL_SIZE" by blast
    note S = same_cells_sets [OF l(3)]
    have wf1: "pmm_wf s1" using l(2) S(4) bwf by (simp add: pmm_wf_def)
    have tot: "total_mem s1 < 2 ^ 64" using total_bound [OF wf1] by simp
    note T = take_cell_wf [OF wf1 l(4,5) tot]
    let ?s' = "take_cell idx leaf s1" and ?r = "cell_base (cells s1 leaf)"
    have eq: "alloc_pass count z strict s = Some (?r, ?s')"
      using p(1) q l(1) by (simp add: alloc_pass_def)
    have "found < cell_count s" using f(1) by (simp add: attached_def)
    from forest_wfD(2) [OF fwf this] have r0: "?r \<noteq> 0" by (auto simp: cell_wf_def l(6))
    have "region ?s' j = region s j" if "j \<in> used_cells s" for j
      using T(5) S(3) that by (simp add: used_cells_def)
    moreover have "strict \<longrightarrow> add64 ?r ?req \<le> zone_limit z" using f(3) by (auto simp: fits_def l(6))
    ultimately have "pass_found ?req z strict s ?r ?s' leaf"
      using T S l(3,7,8) by (auto simp: pass_found_def take_cell_frame same_cells_def)
    then show ?thesis using eq T(1,4) r0 l(3) by (auto simp: same_cells_def)
  qed
qed

lemma check_pressure_pages [simp]: "page_array (check_pressure zt s) = page_array s"
  by (simp add: check_pressure_def)

lemma check_pressure_wf [simp]: "pmm_wf (check_pressure zt s) = pmm_wf s"
  by (rule pmm_wf_cong) simp_all

lemma check_pressure_found [simp]:
  "pass_found req z strict s r (check_pressure zt s') leaf = pass_found req z strict s r s' leaf"
  using cells_cong [of "check_pressure zt s'" s'] by (simp add: pass_found_def)

text \<open>What a call of the allocator returns: the strict pass, the fallback pass, or nothing.\<close>

lemma alloc_internal_correct:
  assumes wf: "pmm_wf s"
  shows "\<exists>r s'. pmm_alloc_pages_internal count z strict s = Some (r, s') \<and> pmm_wf s'
    \<and> total_mem s' = total_mem s
    \<and> (r = 0 \<longrightarrow> s' = s \<and> \<not> (\<exists>d. fitting_cell s (mul64 count PAGE_SIZE) z False d))
    \<and> (r \<noteq> 0 \<longrightarrow> (\<exists>leaf. pass_found (mul64 count PAGE_SIZE) z strict s r s' leaf
         \<or> strict \<and> \<not> (\<exists>d. fitting_cell s (mul64 count PAGE_SIZE) z True d)
           \<and> pass_found (mul64 count PAGE_SIZE) z False s r s' leaf))"
proof -
  let ?req = "mul64 count PAGE_SIZE"
  obtain r s1 where a: "alloc_pass count z strict s = Some (r, s1)" "pmm_wf s1" "total_mem s1 = total_mem s"
    "r = 0 \<longrightarrow> s1 = s \<and> \<not> (\<exists>d. fitting_cell s ?req z strict d)"
    "r \<noteq> 0 \<longrightarrow> (\<exists>leaf. pass_found ?req z strict s r s1 leaf)"
    using alloc_pass_correct [OF wf, of count z strict] by blast
  obtain r2 s2 where b: "alloc_pass count z False s = Some (r2, s2)" "pmm_wf s2" "total_mem s2 = total_mem s"
    "r2 = 0 \<longrightarrow> s2 = s \<and> \<not> (\<exists>d. fitting_cell s ?req z False d)"
    "r2 \<noteq> 0 \<longrightarrow> (\<exists>leaf. pass_found ?req z False s r2 s2 leaf)"
    using alloc_pass_correct [OF wf, of count z False] by blast
  show ?thesis
  proof (cases "r = 0 \<and> strict")
    case True
    then show ?thesis
      using a b wf by (auto simp: pmm_alloc_pages_internal_def)
  next
    case False
    then show ?thesis
      using a wf by (auto simp: pmm_alloc_pages_internal_def)
  qed
qed

lemma used_disjoint:
  assumes wf: "forest_wf s" and "i \<in> used_cells s" "j \<in> used_cells s" "i \<noteq> j"
  shows "region s i \<inter> region s j = {}"
  using leaves_disjoint [OF wf used_attached [OF wf assms(2)] used_attached [OF wf assms(3)] assms(4)]
    assms(2,3) by (simp add: used_cells_def)

section \<open>Release\<close>

lemma find_used_SomeD:
  assumes "find_used phys s = Some i"
  shows "i \<in> used_cells s" "cell_base (cells s i) = phys"
  using scan_SomeD [OF assms [unfolded find_used_def]] by (simp_all add: used_cells_def)

lemma used_base_unique:
  assumes wf: "forest_wf s" and "i \<in> used_cells s" "j \<in> used_cells s"
    "cell_base (cells s i) = cell_base (cells s j)"
  shows "i = j"
proof (rule ccontr)
  assume "i \<noteq> j"
  then have "region s i \<inter> region s j = {}" by (rule used_disjoint [OF wf assms(2,3)])
  moreover have "cell_base (cells s i) \<in> region s k" if "k \<in> {i, j}" for k
    using forest_wfD(2) [OF wf, of k] that assms by (auto simp: cell_wf_def region_def used_cells_def)
  ultimately show False by blast
qed

lemma find_used_iff:
  assumes "forest_wf s"
  shows "find_used phys s = Some i \<longleftrightarrow> i \<in> used_cells s \<and> cell_base (cells s i) = phys"
proof
  show "find_used phys s = Some i \<Longrightarrow> i \<in> used_cells s \<and> cell_base (cells s i) = phys"
    using find_used_SomeD by blast
  assume i: "i \<in> used_cells s \<and> cell_base (cells s i) = phys"
  then have "find_used phys s \<noteq> None" by (auto simp: find_used_def scan_None_iff used_cells_def)
  then obtain k where k: "find_used phys s = Some k" by blast
  with find_used_SomeD [OF k] used_base_unique [OF assms] i show "find_used phys s = Some i" by metis
qed

lemma free_pages_correct:
  assumes wf: "pmm_wf s"
  shows "\<exists>s'. pmm_free_pages phys count s = Some s' \<and> pmm_wf s' \<and> total_mem s' = total_mem s
    \<and> (case find_used phys s of
         None \<Rightarrow> s' = s
       | Some i \<Rightarrow>
           if phys_to_pfn phys < MAX_PHYS_PAGES \<and> page_refcount (page_array s (phys_to_pfn phys)) > 1
           then used_cells s' = used_cells s \<and> region s' = region s \<and> free_mem s' = free_mem s
           else used_cells s' = used_cells s - {i} \<and> free_mem s' = free_mem s + cell_size (cells s i)
             \<and> (\<forall>j\<in>used_cells s'. region s' j = region s j))"
proof (cases "find_used phys s")
  case None
  then show ?thesis using wf by (simp add: pmm_free_pages_def)
next
  case (Some i)
  show ?thesis
  proof (cases "phys_to_pfn phys < MAX_PHYS_PAGES \<and> page_refcount (page_array s (phys_to_pfn phys)) > 1")
    case True
    let ?s' = "upd_page (phys_to_pfn phys) (\<lambda>p. p\<lparr> page_refcount := page_refcount p - 1 \<rparr>) s"
    have "pmm_wf ?s' = pmm_wf s" by (rule pmm_wf_cong) simp_all
    then show ?thesis
      using wf Some True cells_cong [of ?s' s] by (simp add: pmm_free_pages_def)
  next
    case False
    have iu: "i \<in> used_cells s" by (rule find_used_SomeD(1) [OF Some])
    note R = release_cell_wf [OF wf iu]
    let ?s1 = "release_cell phys i s"
    have "i < cell_count ?s1" "forest_wf ?s1" using iu R by (simp_all add: used_cells_def pmm_wf_def)
    from try_merge_correct [OF this(2,1)] obtain s' where
      m: "cell_try_merge i ?s1 = Some s'" "forest_wf s'" "same_cells ?s1 s'" by blast
    note S = same_cells_sets [OF m(3)]
    have "pmm_wf s'" using m(2) S(4) R(1) by (simp add: pmm_wf_def)
    moreover have "region s' j = region s j" if "j \<in> used_cells s" for j
      using S(3) [of j] R(5,6) that by (simp add: used_cells_def)
    ultimately show ?thesis
      using Some False m S(1) R by (auto simp: pmm_free_pages_def same_cells_def)
  qed
qed

section \<open>Initialisation\<close>

lemma chunk_loop_correct:
  assumes "chunk = 4096 * 4 ^ k" "chunk \<le> sz" "sz < 2 ^ 60"
  shows "\<exists>m. chunk_loop chunk sz = Some (4096 * 4 ^ m) \<and> 4096 * 4 ^ m \<le> sz"
  using assms
proof (induction "sz - chunk" arbitrary: chunk k rule: less_induct)
  case less
  have "chunk * 4 < 2 ^ 64" using less.prems by simp
  then have m4: "mul64 chunk 4 = chunk * 4" by (rule mul64_lt)
  show ?case
  proof (cases "chunk * 4 \<le> sz")
    case True
    have "0 < chunk" using less.prems(1) by simp
    then have "sz - chunk * 4 < sz - chunk" using True by linarith
    moreover have "chunk * 4 = 4096 * 4 ^ Suc k" using less.prems(1) by simp
    ultimately show ?thesis
      using less.hyps [of "chunk * 4" "Suc k"] True less.prems(3) m4
      by (subst chunk_loop.simps) simp
  next
    case False
    then show ?thesis using less.prems m4 by (subst chunk_loop.simps) auto
  qed
qed

text \<open>During initialisation every cell is a free root.\<close>

definition init_wf :: "pmm \<Rightarrow> bool" where
  "init_wf s \<longleftrightarrow> pmm_wf s \<and> (\<forall>i<cell_count s. cell_parent (cells s i) = NO_CELL
     \<and> cell_state (cells s i) = CELL_FREE)"

definition avoids :: "pmm \<Rightarrow> nat set \<Rightarrow> bool" where
  "avoids s A \<longleftrightarrow> (\<forall>i<cell_count s. \<forall>x\<in>region s i. x \<notin> A)"

lemma avoids_mono: "avoids s A \<Longrightarrow> B \<subseteq> A \<Longrightarrow> avoids s B"
  by (auto simp: avoids_def)

lemma add_root_full: "cell_count s \<ge> CELL_POOL_SIZE \<Longrightarrow> add_root base chunk s = s"
  by (simp add: add_root_def cell_alloc_node_def)

lemma add_root_wf:
  assumes wf: "init_wf s" and c: "chunk = 4096 * 4 ^ k" and b: "4096 dvd base" "4096 \<le> base"
    "base + chunk \<le> 2 ^ 52" and av: "avoids s {base..<base + chunk}"
  shows "init_wf (add_root base chunk s)"
    "avoids s A \<Longrightarrow> {base..<base + chunk} \<inter> A = {} \<Longrightarrow> avoids (add_root base chunk s) A"
proof -
  let ?n = "cell_count s"
  define s' where "s' = add_root base chunk s"
  have "init_wf s' \<and> (avoids s A \<longrightarrow> {base..<base + chunk} \<inter> A = {} \<longrightarrow> avoids s' A)"
  proof (cases "?n \<ge> CELL_POOL_SIZE")
    case True
    then show ?thesis using wf by (simp add: s'_def add_root_full)
  next
    case False
    have n: "?n \<noteq> NO_CELL" using False by (auto simp: yam_consts)
    have pw: "pmm_wf s" "forest_wf s" "bytes_wf s" using wf by (simp_all add: init_wf_def pmm_wf_def)
    have s': "cell_count s' = Suc ?n" "total_mem s' = add64 (total_mem s) chunk"
      "free_mem s' = add64 (free_mem s) chunk" "cells s' ?n = \<lparr> cell_base = base, cell_size = chunk,
         cell_state = CELL_FREE, cell_owner = 0, cell_parent = NO_CELL, cell_children = \<lambda>_. NO_CELL \<rparr>"
      "\<And>j. j \<noteq> ?n \<Longrightarrow> cells s' j = cells s j"
      using False n by (simp_all add: s'_def add_root_def cell_alloc_node_def Let_def)
    have rn: "region s' ?n = {base..<base + chunk}" by (simp add: region_def s')
    have ro: "region s' j = region s j" if "j < ?n" for j using that by (simp add: region_def s')
    have old: "cell_parent (cells s j) = NO_CELL" "cell_state (cells s j) = CELL_FREE" if "j < ?n" for j
      using wf that by (simp_all add: init_wf_def)
    have roots: "root_cells s = {..<?n}" "root_cells s' = {..<Suc ?n}" "used_cells s = {}" "used_cells s' = {}"
      using old s' by (auto simp: root_cells_def used_cells_def less_Suc_eq)
    have "cell_wf s' j" if "j < Suc ?n" for j
    proof (cases "j = ?n")
      case True
      then show ?thesis using c b by (auto simp: cell_wf_def s')
    next
      case False
      then have j: "j < ?n" using that by simp
      then show ?thesis
        using forest_wfD(2) [OF pw(2) j] old [OF j] False by (simp add: cell_wf_def s'(5))
    qed
    moreover have "region s' i \<inter> region s' j = {}" if "i < Suc ?n" "j < Suc ?n" "i \<noteq> j" for i j
    proof -
      have "region s i \<inter> region s j = {}" if "i < ?n" "j < ?n"
        using pw(2) that \<open>i \<noteq> j\<close> by (simp add: forest_wf_def roots)
      then show ?thesis
        using av that rn ro by (fastforce simp: avoids_def less_Suc_eq)
    qed
    ultimately have fw: "forest_wf s'" using False by (simp add: forest_wf_def s'(1) roots)
    have t: "total_mem s = (\<Sum>i<?n. cell_size (cells s i))" "free_mem s = total_mem s"
      using pw(3) by (simp_all add: bytes_wf_def roots)
    moreover have "(\<Sum>i<Suc ?n. cell_size (cells s' i)) = (\<Sum>i<?n. cell_size (cells s i)) + chunk"
      using s' by simp
    moreover have "total_mem s + chunk < 2 ^ 64" using total_bound [OF pw(1)] b by simp
    ultimately have "bytes_wf s'"
      by (simp add: bytes_wf_def roots s'(2,3) add64_lt)
    with fw s' old have "init_wf s'" by (auto simp: init_wf_def pmm_wf_def less_Suc_eq)
    moreover have "avoids s' A" if "avoids s A" "{base..<base + chunk} \<inter> A = {}"
      using that rn ro by (auto simp: avoids_def s'(1) less_Suc_eq)
    ultimately show ?thesis by blast
  qed
  then show "init_wf (add_root base chunk s)"
    "avoids s A \<Longrightarrow> {base..<base + chunk} \<inter> A = {} \<Longrightarrow> avoids (add_root base chunk s) A"
    by (simp_all add: s'_def)
qed

lemma carve_correct:
  assumes "init_wf s" "4096 dvd base" "4096 dvd sz" "4096 \<le> base" "base + sz \<le> 2 ^ 52"
    "avoids s {base..<base + sz}"
  shows "\<exists>s'. carve base sz s = Some s' \<and> init_wf s'
    \<and> (\<forall>A. avoids s A \<and> {base..<base + sz} \<inter> A = {} \<longrightarrow> avoids s' A)"
  using assms
proof (induction sz arbitrary: base s rule: less_induct)
  case (less sz)
  show ?case
  proof (cases "sz \<ge> PAGE_SIZE")
    case False
    then show ?thesis using less.prems by (subst carve.simps) simp
  next
    case True
    have "sz < 2 ^ 60" using less.prems(5) by simp
    then obtain m where ch: "chunk_loop PAGE_SIZE sz = Some (4096 * 4 ^ m)" "4096 * 4 ^ m \<le> sz"
      using chunk_loop_correct [of PAGE_SIZE 0 sz] True by (auto simp: yam_consts)
    define c where "c = (4096 :: nat) * 4 ^ m"
    have c: "c \<le> sz" "0 < c" "4096 dvd c" using ch by (simp_all add: c_def)
    have e: "add64 base c = base + c" "sub64 sz c = sz - c"
      using less.prems(5) c by (simp_all add: add64_lt sub64_le)
    have av: "avoids s {base..<base + c}"
      by (rule avoids_mono [OF less.prems(6)]) (use c(1) in auto)
    note R = add_root_wf [OF less.prems(1) c_def less.prems(2,4) _ av]
    have bc: "base + c \<le> 2 ^ 52" using less.prems(5) c(1) by simp
    have "avoids (add_root base c s) {base + c..<base + c + (sz - c)}"
      using avoids_mono [OF less.prems(6), of "{base + c..<base + c + (sz - c)}"] c(1)
      by (intro R(2) [OF bc]) auto
    then obtain s' where s': "carve (base + c) (sz - c) (add_root base c s) = Some s'" "init_wf s'"
      "\<And>A. avoids (add_root base c s) A \<Longrightarrow> {base + c..<base + c + (sz - c)} \<inter> A = {} \<Longrightarrow> avoids s' A"
      using less.IH [of "sz - c" "add_root base c s" "base + c"] R(1) [OF bc] less.prems c
      by auto
    have "carve base sz s = Some s'"
      using True ch(1) s'(1) e by (subst carve.simps) (simp add: c_def)
    moreover have "avoids s' A" if "avoids s A" "{base..<base + sz} \<inter> A = {}" for A
    proof (rule s'(3))
      show "avoids (add_root base c s) A"
        using that c(1) by (intro R(2) [OF bc]) (auto simp: disjoint_iff)
      show "{base + c..<base + c + (sz - c)} \<inter> A = {}" using that c(1) by (auto simp: disjoint_iff)
    qed
    ultimately show ?thesis using s'(2) by blast
  qed
qed

text \<open>
  What the boot protocol promises of the memory map: usable entries lie above the first page and
  inside the 52-bit physical address space, and do not overlap each other.
\<close>

definition entry_span :: "memmap_entry \<Rightarrow> nat set" where
  "entry_span e = {entry_base e ..< entry_base e + entry_length e}"

definition memmap_ok :: "memmap_entry list \<Rightarrow> bool" where
  "memmap_ok es \<longleftrightarrow>
     (\<forall>e\<in>set es. entry_type e = MEMMAP_USABLE \<longrightarrow>
        4096 \<le> entry_base e \<and> entry_base e + entry_length e \<le> 2 ^ 52)
     \<and> sorted_wrt (\<lambda>a b. entry_type a = MEMMAP_USABLE \<and> entry_type b = MEMMAP_USABLE \<longrightarrow>
          entry_span a \<inter> entry_span b = {}) es"

lemma init_pages_frame [simp]:
  "cells (init_page_descriptors b l zt u s) = cells s"
  "cell_count (init_page_descriptors b l zt u s) = cell_count s"
  "total_mem (init_page_descriptors b l zt u s) = total_mem s"
  "free_mem (init_page_descriptors b l zt u s) = free_mem s"
  by (simp_all add: init_page_descriptors_def Let_def)

lemma page_bounds:
  assumes "a \<le> 2 ^ 52" "e \<le> 2 ^ 52" "a + 4096 \<le> e"
  shows "a \<le> page_up a" "page_up a \<le> page_down e" "page_down e \<le> e" "4096 dvd page_up a"
    "4096 dvd page_down e"
proof -
  have u: "page_up a = (a + 4095) div 4096 * 4096"
    using assms by (simp add: page_up_def add64_lt yam_consts)
  have d: "page_down e = e div 4096 * 4096" by (simp add: page_down_def yam_consts)
  show "4096 dvd page_up a" "4096 dvd page_down e" unfolding u d by simp_all
  show "page_down e \<le> e" unfolding d by simp
  have "a + 4095 = (a + 4095) div 4096 * 4096 + (a + 4095) mod 4096" by simp
  moreover have "(a + 4095) mod 4096 \<le> 4095" by (simp add: less_Suc_eq_le [symmetric])
  ultimately show "a \<le> page_up a" unfolding u by linarith
  show "page_up a \<le> page_down e" unfolding u d
    using assms(3) by (intro mult_right_mono div_le_mono) auto
qed

lemma init_entry_correct:
  assumes wf: "init_wf s" and ok: "entry_type e = MEMMAP_USABLE \<Longrightarrow>
      4096 \<le> entry_base e \<and> entry_base e + entry_length e \<le> 2 ^ 52 \<and> avoids s (entry_span e)"
  shows "\<exists>s'. init_entry e s = Some s' \<and> init_wf s'
    \<and> (\<forall>A. avoids s A \<and> (entry_type e = MEMMAP_USABLE \<longrightarrow> entry_span e \<inter> A = {}) \<longrightarrow> avoids s' A)"
proof -
  define s1 where "s1 = init_page_descriptors (entry_base e) (entry_length e)
    (phys_to_zone (entry_base e)) (entry_type e = MEMMAP_USABLE) s"
  have s1: "cells s1 = cells s" "cell_count s1 = cell_count s" "total_mem s1 = total_mem s"
    "free_mem s1 = free_mem s" by (simp_all add: s1_def)
  have wf1: "init_wf s1" using wf pmm_wf_cong [OF s1] s1 by (simp add: init_wf_def)
  have av: "avoids s1 A = avoids s A" for A using cells_cong(3) [OF s1(1,2)] s1 by (simp add: avoids_def)
  show ?thesis
  proof (cases "entry_type e = MEMMAP_USABLE \<and> entry_length e \<ge> PAGE_SIZE")
    case False
    then show ?thesis using wf1 av unfolding init_entry_def Let_def s1_def [symmetric] by auto
  next
    case True
    let ?a = "entry_base e" and ?e = "entry_base e + entry_length e"
    have b: "4096 \<le> ?a" "?e \<le> 2 ^ 52" "avoids s (entry_span e)" "?a + 4096 \<le> ?e"
      using ok True by (auto simp: yam_consts)
    note P = page_bounds [OF _ b(2,4)]
    have a52: "?a \<le> 2 ^ 52" using b(2) by simp
    let ?u = "page_up ?a" and ?d = "page_down ?e"
    have e: "add64 ?a (entry_length e) = ?e" using b(2) by (simp add: add64_lt)
    have d: "sub64 ?d ?u = ?d - ?u" using P [OF a52] b(2) by (intro sub64_le) auto
    have sub: "{?u..<?u + (?d - ?u)} \<subseteq> entry_span e"
      using P [OF a52] by (auto simp: entry_span_def)
    have "avoids s1 {?u..<?u + (?d - ?u)}" using avoids_mono [OF b(3) sub] by (simp add: av)
    then obtain s' where s': "carve ?u (?d - ?u) s1 = Some s'" "init_wf s'"
      "\<And>A. avoids s1 A \<Longrightarrow> {?u..<?u + (?d - ?u)} \<inter> A = {} \<Longrightarrow> avoids s' A"
      using carve_correct [OF wf1 P(4) [OF a52], of "?d - ?u"] P [OF a52] b by auto
    have "init_entry e s = Some s'"
      using True e d s'(1) unfolding init_entry_def Let_def s1_def [symmetric] by simp
    moreover have "avoids s' A" if "avoids s A" "entry_span e \<inter> A = {}" for A
      using s'(3) [of A] that sub av by blast
    ultimately show ?thesis using s'(2) True by blast
  qed
qed

lemma init_entries_correct:
  assumes "init_wf s" "memmap_ok es"
    "\<And>e. e \<in> set es \<Longrightarrow> entry_type e = MEMMAP_USABLE \<Longrightarrow> avoids s (entry_span e)"
  shows "\<exists>s'. init_entries es s = Some s' \<and> init_wf s'"
  using assms
proof (induction es arbitrary: s)
  case (Cons e es)
  have "entry_type e = MEMMAP_USABLE \<Longrightarrow>
      4096 \<le> entry_base e \<and> entry_base e + entry_length e \<le> 2 ^ 52 \<and> avoids s (entry_span e)"
    using Cons.prems by (simp add: memmap_ok_def)
  from init_entry_correct [OF Cons.prems(1) this] obtain s1 where
    s1: "init_entry e s = Some s1" "init_wf s1" "\<And>A. avoids s A \<Longrightarrow>
      (entry_type e = MEMMAP_USABLE \<longrightarrow> entry_span e \<inter> A = {}) \<Longrightarrow> avoids s1 A" by blast
  have "avoids s1 (entry_span f)" if "f \<in> set es" "entry_type f = MEMMAP_USABLE" for f
    using Cons.prems(2,3) that by (intro s1(3)) (auto simp: memmap_ok_def)
  moreover have "memmap_ok es" using Cons.prems(2) by (simp add: memmap_ok_def)
  ultimately show ?case using Cons.IH [OF s1(2)] s1(1) by simp
qed simp

lemma pmm_init_correct:
  assumes "memmap_ok es"
  shows "\<exists>s'. pmm_init es hhdm s = Some s' \<and> pmm_wf s'"
proof -
  have c: "cell_count (pmm_clear hhdm s) = 0" "total_mem (pmm_clear hhdm s) = 0"
    "free_mem (pmm_clear hhdm s) = 0" by (simp_all add: pmm_clear_def)
  have "init_wf (pmm_clear hhdm s)"
    by (simp add: init_wf_def pmm_wf_def forest_wf_def bytes_wf_def c root_cells_def used_cells_def)
  moreover have "avoids (pmm_clear hhdm s) A" for A by (simp add: avoids_def c)
  ultimately obtain s1 where s1: "init_entries es (pmm_clear hhdm s) = Some s1" "init_wf s1"
    using init_entries_correct [OF _ assms] by blast
  have "pmm_wf (s1\<lparr> zones := \<lambda>z. zone_update_watermarks (zones s1 z) \<rparr>) = pmm_wf s1"
    by (rule pmm_wf_cong) simp_all
  then show ?thesis using s1 by (simp add: pmm_init_def init_wf_def)
qed

section \<open>Reachable states\<close>

datatype pmm_op =
    Alloc nat mem_zone_type bool
  | Free nat nat
  | Page_ref nat
  | Page_unref nat
  | Set_flags nat u32
  | Clear_flags nat u32
  | Set_owner nat u64
  | Register_cb nat

fun pmm_step :: "pmm_op \<Rightarrow> pmm \<Rightarrow> pmm option" where
  "pmm_step (Alloc count z strict) s = map_option snd (pmm_alloc_pages_internal count z strict s)"
| "pmm_step (Free phys count) s = pmm_free_pages phys count s"
| "pmm_step (Page_ref phys) s = Some (pmm_page_ref phys s)"
| "pmm_step (Page_unref phys) s = map_option snd (pmm_page_unref phys s)"
| "pmm_step (Set_flags phys fl) s = Some (pmm_page_set_flags phys fl s)"
| "pmm_step (Clear_flags phys fl) s = Some (pmm_page_clear_flags phys fl s)"
| "pmm_step (Set_owner phys ow) s = Some (pmm_set_owner phys ow s)"
| "pmm_step (Register_cb cb) s = Some (pmm_register_pressure_cb cb s)"

inductive pmm_reachable :: "pmm \<Rightarrow> bool" where
  boot: "memmap_ok es \<Longrightarrow> pmm_init es hhdm s0 = Some s \<Longrightarrow> pmm_reachable s"
| step: "pmm_reachable s \<Longrightarrow> pmm_step oper s = Some s' \<Longrightarrow> pmm_reachable s'"

lemma upd_page_wf [simp]: "pmm_wf (upd_page i f s) = pmm_wf s"
  by (rule pmm_wf_cong) simp_all

lemma set_owner_wf:
  assumes wf: "pmm_wf s"
  shows "pmm_wf (pmm_set_owner phys ow s)"
proof (cases "find_used phys s")
  case None
  then show ?thesis using wf by (simp add: pmm_set_owner_def)
next
  case (Some i)
  have iu: "i \<in> used_cells s" by (rule find_used_SomeD(1) [OF Some])
  have fw: "forest_wf s" and bw: "bytes_wf s" using wf by (simp_all add: pmm_wf_def)
  have st: "cell_state (cells s i) = CELL_USED" using iu by (simp add: used_cells_def)
  define s' where "s' = upd_cell i (\<lambda>c. c\<lparr> cell_owner := ow \<rparr>) s"
  have eq: "cells s' = cells (upd_cell i (\<lambda>c. c\<lparr> cell_state := CELL_USED, cell_owner := ow \<rparr>) s)"
    using st by (auto simp: fun_eq_iff s'_def)
  have "forest_wf s'"
    using forest_wf_leaf [OF fw used_attached [OF fw iu], of CELL_USED "\<lambda>_. ow"] st
      forest_wf_cong [OF eq] by (simp add: s'_def)
  moreover have "used_cells s' = used_cells s" "root_cells s' = root_cells s"
    "\<And>j. cell_size (cells s' j) = cell_size (cells s j)"
    by (auto simp: s'_def used_cells_def root_cells_def)
  with bw have "bytes_wf s'" by (simp add: bytes_wf_def s'_def)
  ultimately show ?thesis using Some by (simp add: pmm_set_owner_def pmm_wf_def s'_def)
qed

lemma pmm_step_wf:
  assumes wf: "pmm_wf s"
  shows "\<exists>s'. pmm_step oper s = Some s' \<and> pmm_wf s'"
proof (cases oper)
  case (Alloc count z strict)
  then show ?thesis using alloc_internal_correct [OF wf, of count z strict] by auto
next
  case (Free phys count)
  then show ?thesis using free_pages_correct [OF wf, of phys count] by auto
next
  case (Page_unref phys)
  let ?s1 = "upd_page (phys_to_pfn phys) (\<lambda>p. p\<lparr> page_refcount := page_refcount p - 1 \<rparr>) s"
  have "pmm_wf ?s1" using wf by simp
  from free_pages_correct [OF this, of phys 1] Page_unref wf show ?thesis
    by (auto simp: pmm_page_unref_def pmm_free_page_def Let_def)
next
  case (Register_cb cb)
  have "pmm_wf (s\<lparr> pressure_cbs := pressure_cbs s @ [cb] \<rparr>) = pmm_wf s" by (rule pmm_wf_cong) simp_all
  then show ?thesis using wf Register_cb by (simp add: pmm_register_pressure_cb_def)
qed (use wf in \<open>simp_all add: pmm_page_ref_def pmm_page_set_flags_def pmm_page_clear_flags_def set_owner_wf\<close>)

lemma pmm_reachable_wf: "pmm_reachable s \<Longrightarrow> pmm_wf s"
proof (induction rule: pmm_reachable.induct)
  case (boot es hhdm s0 s)
  then show ?case using pmm_init_correct [of es hhdm s0] by auto
next
  case (step s oper s')
  then show ?case using pmm_step_wf [of s oper] by auto
qed

subsection \<open>A concrete machine for the witnesses\<close>

text \<open>One 16 KB usable region above a reserved first page.\<close>

definition demo_map :: "memmap_entry list" where
  "demo_map = [\<lparr> entry_base = 0, entry_length = 0x1000, entry_type = MEMMAP_OTHER \<rparr>,
     \<lparr> entry_base = 0x1000, entry_length = 0x4000, entry_type = MEMMAP_USABLE \<rparr>]"
definition pmm_zero :: pmm where
  "pmm_zero = \<lparr> cells = \<lambda>_. zero_cell, cell_count = 0, total_mem = 0, free_mem = 0, hhdm_off = 0,
     last_used_cell = 0, zones = \<lambda>_. zero_zone 0 0, page_array = \<lambda>_. zero_page, max_pfn = 0,
     pressure_cbs = [], pressure_log = [] \<rparr>"
lemmas pmm_eval = pmm_init_def demo_map_def init_entry_def pmm_clear_def init_page_descriptors_def
  carve.simps chunk_loop.simps add_root_def cell_alloc_node_def upd_cell_def upd_zone_def upd_pages_def
  phys_to_pfn_def phys_to_zone_def page_up_def page_down_def add64_def mul64_def sub64_def Let_def
  zero_cell_def zero_zone_def zero_page_def zone_update_watermarks_def pmm_zero_def yam_consts
definition demo_pmm :: pmm where
  "demo_pmm = the (pmm_init demo_map 0 pmm_zero)"

lemma demo_pmm_facts:
  "cell_count demo_pmm = 1" "total_mem demo_pmm = 0x4000" "free_mem demo_pmm = 0x4000"
  "cells demo_pmm 0 = \<lparr> cell_base = 0x1000, cell_size = 0x4000, cell_state = CELL_FREE, cell_owner = 0,
    cell_parent = 0xFFFF, cell_children = \<lambda>_. 0xFFFF \<rparr>"
  "last_used_cell demo_pmm = 0" "j \<noteq> 0 \<Longrightarrow> cells demo_pmm j = zero_cell"
  by (simp_all add: demo_pmm_def pmm_eval)

lemmas alloc_eval = demo_pmm_facts cell_alloc_node_def upd_cell_def upd_zone_def upd_pages_def
  add64_def mul64_def sub64_def Let_def yam_consts pmm_alloc_page_def pmm_alloc_pages_def
  pmm_alloc_pages_zone_def pmm_alloc_pages_internal_def alloc_pass_def visit_order_def upt_conv_Cons
  find_free_cell_zone.simps fits_def split_down.simps cell_split_def take_cell_def check_pressure_def

lemma demo_pmm_reachable: "pmm_reachable demo_pmm"
proof -
  have ok: "memmap_ok demo_map" by (simp add: memmap_ok_def demo_map_def)
  obtain s where s: "pmm_init demo_map 0 pmm_zero = Some s" using pmm_init_correct [OF ok] by blast
  then have "demo_pmm = s" by (simp add: demo_pmm_def)
  with pmm_reachable.boot [OF ok s] show ?thesis by simp
qed

lemma demo_alloc: "\<exists>s'. pmm_alloc_pages 1 demo_pmm = Some (0x1000, s')"
proof -
  have "map_option fst (pmm_alloc_pages 1 demo_pmm) = Some 0x1000" by (simp add: alloc_eval)
  then show ?thesis by auto
qed









section \<open>Properties\<close>

text \<open>C7. On every state the memory manager reaches from a boot memory map of disjoint usable entries,
by any sequence of allocations, releases, reference and flag updates, the next operation returns (no
search, split or merge loops forever) and the structural invariant holds again: the cells form a forest,
split cells are tiled by their four children, root cells are disjoint and page aligned.\<close>

theorem pmm_total_and_wf:
  "pmm_reachable s \<Longrightarrow> \<exists>s'. pmm_step oper s = Some s' \<and> pmm_wf s'"
  by (rule pmm_step_wf [OF pmm_reachable_wf])

theorem pmm_total_and_wf_witness:
  "\<exists>s'. pmm_step (Alloc 1 ZONE_DMA True) demo_pmm = Some s' \<and> pmm_wf s'"
  by (rule pmm_total_and_wf [OF demo_pmm_reachable])



text \<open>C21. The byte counters are exact: on every reachable state the free bytes reported plus the sizes
of the used cells are the total, and the total is the size of the root cells (below $2^{52}$, so no counter
ever wraps).\<close>

theorem pmm_accounting:
  assumes "pmm_reachable s"
  shows "pmm_free_memory s + (\<Sum>i\<in>used_cells s. cell_size (cells s i)) = pmm_total_memory s
    \<and> pmm_total_memory s = (\<Sum>i\<in>root_cells s. cell_size (cells s i)) \<and> pmm_total_memory s \<le> 2 ^ 52"
  using pmm_reachable_wf [OF assms] total_bound [OF pmm_reachable_wf [OF assms]]
  by (simp add: pmm_wf_def bytes_wf_def pmm_free_memory_def pmm_total_memory_def)

theorem pmm_accounting_witness:
  "pmm_free_memory demo_pmm + (\<Sum>i\<in>used_cells demo_pmm. cell_size (cells demo_pmm i)) = 0x4000"
  using pmm_accounting [OF demo_pmm_reachable] by (simp add: pmm_total_memory_def demo_pmm_facts)

text \<open>C22. An allocation that succeeds returns fresh memory that is large enough: the address is the base of a
cell that was not used before and is used now, holds at least the requested pages (for requests below
$2^{52}$ pages), is disjoint from everything already allocated, which stays allocated where it was, has
reference count one on its pages, and wastes less than a factor of four unless the cell pool is exhausted.\<close>

theorem alloc_fresh:
  assumes "pmm_reachable s" "pmm_alloc_pages count s = Some (r, s')" "r \<noteq> 0" "count < 2 ^ 52"
  shows "\<exists>leaf. leaf \<notin> used_cells s \<and> used_cells s' = insert leaf (used_cells s)
    \<and> cell_base (cells s' leaf) = r \<and> count * PAGE_SIZE \<le> cell_size (cells s' leaf)
    \<and> (\<forall>j\<in>used_cells s. region s' j = region s j \<and> region s' leaf \<inter> region s' j = {})
    \<and> (phys_to_pfn r < MAX_PHYS_PAGES \<longrightarrow> pmm_page_refcount r s' = 1)
    \<and> (cell_count s' < CELL_POOL_SIZE \<longrightarrow>
        cell_size (cells s' leaf) < 4 * (count * PAGE_SIZE) \<or> cell_size (cells s' leaf) = PAGE_SIZE)"
proof -
  have req: "mul64 count PAGE_SIZE = count * PAGE_SIZE" using assms(4) by (simp add: mul64_lt yam_consts)
  note wf = pmm_reachable_wf [OF assms(1)]
  have wf': "pmm_wf s'" and "\<exists>leaf. pass_found (mul64 count PAGE_SIZE) ZONE_NORMAL False s r s' leaf"
    using alloc_internal_correct [OF wf, of count ZONE_NORMAL False] assms(2,3)
    by (auto simp: pmm_alloc_pages_def)
  then obtain leaf where p: "pass_found (count * PAGE_SIZE) ZONE_NORMAL False s r s' leaf" unfolding req by blast
  have fw: "forest_wf s'" using wf' by (simp add: pmm_wf_def)
  have lu: "leaf \<in> used_cells s'" using p by (simp add: pass_found_def)
  have dis: "region s' leaf \<inter> region s' j = {}" if "j \<in> used_cells s" for j
    using used_disjoint [OF fw lu, of j] that p by (auto simp: pass_found_def)
  have "cell_wf s' leaf" using forest_wfD(2) [OF fw] lu by (simp add: used_cells_def)
  then obtain k where k: "cell_size (cells s' leaf) = 4096 * 4 ^ k" by (auto simp: cell_wf_def)
  then have ge: "PAGE_SIZE \<le> cell_size (cells s' leaf)" by (simp add: yam_consts)
  have small: "cell_size (cells s' leaf) = PAGE_SIZE" if "cell_size (cells s' leaf) < PAGE_SIZE * 4"
  proof (cases k)
    case 0
    then show ?thesis using k by (simp add: yam_consts)
  next
    case (Suc m)
    then show ?thesis using k that by (simp add: yam_consts)
  qed
  have rc: "phys_to_pfn r < MAX_PHYS_PAGES \<longrightarrow> pmm_page_refcount r s' = 1"
    using p ge by (auto simp: pass_found_def pmm_page_refcount_def yam_consts)
  have "cell_size (cells s' leaf) div 4 < count * PAGE_SIZE \<Longrightarrow> cell_size (cells s' leaf) < 4 * (count * PAGE_SIZE)"
    by (simp add: mult.commute less_mult_imp_div_less div_less_iff_less_mult)
  then show ?thesis
    using p dis rc small ge by (auto simp: pass_found_def intro!: exI [of _ leaf])
qed

theorem alloc_fresh_witness:
  "\<exists>s' leaf. pmm_alloc_pages 1 demo_pmm = Some (0x1000, s') \<and> used_cells s' = insert leaf (used_cells demo_pmm)
    \<and> cell_base (cells s' leaf) = 0x1000 \<and> 1 * PAGE_SIZE \<le> cell_size (cells s' leaf)"
proof -
  obtain s' where s': "pmm_alloc_pages 1 demo_pmm = Some (0x1000, s')" using demo_alloc by blast
  from alloc_fresh [OF demo_pmm_reachable s'] s' show ?thesis by force
qed

text \<open>C23. Releasing what an allocation returned undoes it: the free byte count and the set of used
cells are what they were before the allocation.\<close>

theorem alloc_free_roundtrip:
  assumes "pmm_reachable s" "pmm_alloc_pages count s = Some (r, s1)" "r \<noteq> 0"
  shows "\<exists>s2. pmm_free_pages r n s1 = Some s2 \<and> pmm_free_memory s2 = pmm_free_memory s
    \<and> used_cells s2 = used_cells s \<and> (\<forall>j\<in>used_cells s. region s2 j = region s j)"
proof -
  have "\<exists>leaf. pass_found (mul64 count PAGE_SIZE) ZONE_NORMAL False s r s1 leaf" and wf1: "pmm_wf s1"
    using alloc_internal_correct [OF pmm_reachable_wf [OF assms(1)], of count ZONE_NORMAL False] assms(2,3)
    by (auto simp: pmm_alloc_pages_def)
  then obtain leaf where p: "pass_found (mul64 count PAGE_SIZE) ZONE_NORMAL False s r s1 leaf" by blast
  have fw: "forest_wf s1" using wf1 by (simp add: pmm_wf_def)
  have lu: "leaf \<in> used_cells s1" using p by (simp add: pass_found_def)
  have f: "find_used r s1 = Some leaf" using find_used_iff [OF fw] lu p by (simp add: pass_found_def)
  have "cell_wf s1 leaf" using forest_wfD(2) [OF fw] lu by (simp add: used_cells_def)
  then have "0 < cell_size (cells s1 leaf) div PAGE_SIZE" by (auto simp: cell_wf_def yam_consts)
  then have "\<not> (phys_to_pfn r < MAX_PHYS_PAGES \<and> page_refcount (page_array s1 (phys_to_pfn r)) > 1)"
    using p by (auto simp: pass_found_def)
  with free_pages_correct [OF wf1, of r n] f obtain s2 where
    "pmm_free_pages r n s1 = Some s2" "used_cells s2 = used_cells s1 - {leaf}"
    "free_mem s2 = free_mem s1 + cell_size (cells s1 leaf)" "\<forall>j\<in>used_cells s2. region s2 j = region s1 j"
    by auto
  with p show ?thesis by (auto simp: pass_found_def pmm_free_memory_def)
qed

theorem alloc_free_roundtrip_witness:
  "\<exists>s1 s2. pmm_alloc_pages 1 demo_pmm = Some (0x1000, s1) \<and> pmm_free_pages 0x1000 1 s1 = Some s2
    \<and> pmm_free_memory s2 = pmm_free_memory demo_pmm"
proof -
  obtain s1 where s1: "pmm_alloc_pages 1 demo_pmm = Some (0x1000, s1)" using demo_alloc by blast
  from alloc_free_roundtrip [OF demo_pmm_reachable s1, of 1] s1 show ?thesis by auto
qed

text \<open>C24. The allocator fails only when it must: a request that returns 0 leaves the state unchanged,
and no free cell of the forest is as large as the request.\<close>

theorem alloc_fails_only_if_full:
  assumes "pmm_reachable s" "pmm_alloc_pages count s = Some (0, s')"
  shows "s' = s \<and> (\<forall>d. attached s d \<and> cell_state (cells s d) = CELL_FREE \<longrightarrow>
    cell_size (cells s d) < mul64 count PAGE_SIZE)"
proof -
  have "s' = s \<and> \<not> (\<exists>d. fitting_cell s (mul64 count PAGE_SIZE) ZONE_NORMAL False d)"
    using alloc_internal_correct [OF pmm_reachable_wf [OF assms(1)], of count ZONE_NORMAL False] assms(2)
    by (simp add: pmm_alloc_pages_def)
  then show ?thesis by (auto simp: fitting_cell_def fits_def not_le [symmetric])
qed

theorem alloc_fails_only_if_full_witness:
  "\<exists>s'. pmm_alloc_pages 5 demo_pmm = Some (0, s') \<and> s' = demo_pmm"
proof -
  have "map_option fst (pmm_alloc_pages 5 demo_pmm) = Some 0" by (simp add: alloc_eval)
  then obtain s' where s': "pmm_alloc_pages 5 demo_pmm = Some (0, s')" by auto
  with alloc_fails_only_if_full [OF demo_pmm_reachable s'] show ?thesis by blast
qed

text \<open>Zone requests respect the zone whenever the zone can serve them: a zone allocation either
returns memory whose requested bytes end at or below the zone's limit, or no free cell could have
satisfied the request inside the zone and the result comes from the documented fallback.\<close>

theorem zone_alloc_in_zone:
  assumes "pmm_reachable s" "pmm_alloc_pages_zone count z s = Some (r, s')" "r \<noteq> 0" "count < 2 ^ 50"
  shows "r + count * PAGE_SIZE \<le> zone_limit z
    \<or> \<not> (\<exists>d. fitting_cell s (count * PAGE_SIZE) z True d)"
proof -
  have req: "mul64 count PAGE_SIZE = count * PAGE_SIZE" using assms(4) by (simp add: mul64_lt yam_consts)
  note A = alloc_internal_correct [OF pmm_reachable_wf [OF assms(1)], of count z True, unfolded req]
  then obtain leaf where p: "pass_found (count * PAGE_SIZE) z True s r s' leaf
      \<or> \<not> (\<exists>d. fitting_cell s (count * PAGE_SIZE) z True d)" and l: "leaf \<in> used_cells s'"
      "cell_base (cells s' leaf) = r" and wf: "pmm_wf s'"
    using assms(2,3) by (auto simp: pmm_alloc_pages_zone_def pass_found_def)
  have "cell_wf s' leaf" using wf l by (simp add: pmm_wf_def forest_wf_def used_cells_def)
  then have "r \<le> 2 ^ 52" using l by (simp add: cell_wf_def)
  then have "add64 r (count * PAGE_SIZE) = r + count * PAGE_SIZE"
    using assms(4) by (intro add64_lt) (simp add: yam_consts)
  with p show ?thesis by (auto simp: pass_found_def)
qed

theorem zone_alloc_in_zone_witness:
  "\<exists>s'. pmm_alloc_pages_zone 1 ZONE_DMA demo_pmm = Some (0x1000, s') \<and> 0x1000 + 1 * PAGE_SIZE \<le> zone_limit ZONE_DMA"
proof -
  have "map_option fst (pmm_alloc_pages_zone 1 ZONE_DMA demo_pmm) = Some 0x1000"
    by (simp add: alloc_eval zone_limit_def)
  then obtain s' where s': "pmm_alloc_pages_zone 1 ZONE_DMA demo_pmm = Some (0x1000, s')" by auto
  have "fitting_cell demo_pmm (1 * PAGE_SIZE) ZONE_DMA True 0"
    by (simp add: fitting_cell_def attached_def fits_def demo_pmm_facts zone_limit_def add64_def yam_consts)
  with zone_alloc_in_zone [OF demo_pmm_reachable s'] s' show ?thesis by auto
qed

text \<open>Releasing an address that is not the base of a used cell (a double release, an interior address,
a wild one) changes nothing.\<close>

theorem free_foreign_noop:
  assumes "\<forall>i\<in>used_cells s. cell_base (cells s i) \<noteq> phys"
  shows "pmm_free_pages phys n s = Some s"
proof -
  have "find_used phys s = None"
    using assms by (auto simp: find_used_def scan_None_iff used_cells_def)
  then show ?thesis by (simp add: pmm_free_pages_def)
qed

theorem free_foreign_noop_witness: "pmm_free_pages 0x9000 1 demo_pmm = Some demo_pmm"
proof (rule free_foreign_noop)
  have "used_cells demo_pmm = {}" by (auto simp: used_cells_def demo_pmm_facts less_Suc_eq)
  then show "\<forall>i\<in>used_cells demo_pmm. cell_base (cells demo_pmm i) \<noteq> 0x9000" by simp
qed

text \<open>
  The byte size of a request is computed in 64 bits: a request of $2^{52}$ pages wraps to zero bytes, so any
  free cell serves it.
\<close>

lemma alloc_size_wraps:
  assumes "pmm_reachable s" "attached s d" "cell_state (cells s d) = CELL_FREE"
  shows "\<exists>r s'. pmm_alloc_pages (2 ^ 52) s = Some (r, s') \<and> r \<noteq> 0"
proof -
  have "mul64 (2 ^ 52) PAGE_SIZE = 0" by (simp add: mul64_def yam_consts)
  then have "fitting_cell s (mul64 (2 ^ 52) PAGE_SIZE) ZONE_NORMAL False d"
    using assms(2,3) by (simp add: fitting_cell_def fits_def)
  then show ?thesis
    using alloc_internal_correct [OF pmm_reachable_wf [OF assms(1)], of "2 ^ 52" ZONE_NORMAL False]
    unfolding pmm_alloc_pages_def by blast
qed

end
