(* ===== verification/Frames.thy ===== *)
theory Frames
  imports Pmm_Props
begin

text \<open>
  The contract of a page-frame allocator, as its clients use it: an allocation returns, and hands out either nothing,
  leaving the allocator as it was because it is exhausted, or a page-aligned frame below the 52-bit limit that is
  disjoint from everything in use.  The physical memory manager fulfils it.
\<close>

definition page_at :: "nat \<Rightarrow> nat set" where
  "page_at a = {a ..< a + 4096}"

locale frame_allocator =
  fixes alloc :: "'p \<Rightarrow> (nat \<times> 'p) option" and inv :: "'p \<Rightarrow> bool" and used :: "'p \<Rightarrow> nat set" and exhausted :: "'p \<Rightarrow> bool"
  assumes alloc_total: "inv p \<Longrightarrow> \<exists>a q. alloc p = Some (a, q)"
    and alloc_none: "inv p \<Longrightarrow> alloc p = Some (0, q) \<Longrightarrow> q = p \<and> exhausted p"
    and alloc_some: "inv p \<Longrightarrow> alloc p = Some (a, q) \<Longrightarrow> a \<noteq> 0 \<Longrightarrow>
      inv q \<and> 4096 dvd a \<and> a + 4096 \<le> 2 ^ 52 \<and> page_at a \<inter> used p = {} \<and> used p \<union> page_at a \<subseteq> used q \<and> \<not> exhausted p"
begin

lemma alloc_inv: "inv p \<Longrightarrow> alloc p = Some (a, q) \<Longrightarrow> inv q \<and> used p \<subseteq> used q"
  using alloc_none [of p q] alloc_some [of p a q] by (cases "a = 0") auto

text \<open>An exhausted allocator stays as it is.\<close>

lemma alloc_exhausted: "inv p \<Longrightarrow> exhausted p \<Longrightarrow> alloc p = Some (a, q) \<Longrightarrow> a = 0 \<and> q = p"
  using alloc_none [of p q] alloc_some [of p a q] by (cases "a = 0") auto

text \<open>Frames handed out one after the other are distinct.\<close>

primrec take_frames :: "nat \<Rightarrow> 'p \<Rightarrow> (nat list \<times> 'p) option" where
  "take_frames 0 p = Some ([], p)"
| "take_frames (Suc n) p = Option.bind (alloc p) (\<lambda>(a, q). map_option (\<lambda>(as, r). (a # as, r)) (take_frames n q))"

lemma take_frames_distinct:
  "inv p \<Longrightarrow> take_frames n p = Some (as, q) \<Longrightarrow> 0 \<notin> set as \<Longrightarrow>
    distinct as \<and> inv q \<and> used p \<subseteq> used q \<and> (\<forall>a \<in> set as. page_at a \<inter> used p = {})"
proof (induction n arbitrary: p as)
  case (Suc n)
  obtain a r bs where a: "alloc p = Some (a, r)" "take_frames n r = Some (bs, q)" "as = a # bs"
    using Suc.prems(2) by (auto split: bind_splits prod.splits)
  have s: "inv r" "used p \<union> page_at a \<subseteq> used r" "page_at a \<inter> used p = {}"
    using alloc_some [OF Suc.prems(1) a(1)] Suc.prems(3) a(3) by auto
  have ih: "distinct bs" "inv q" "used r \<subseteq> used q" "\<And>b. b \<in> set bs \<Longrightarrow> page_at b \<inter> used r = {}"
    using Suc.IH [OF s(1) a(2)] Suc.prems(3) a(3) by auto
  have "a \<in> page_at a" by (simp add: page_at_def)
  then have "a \<notin> set bs" using ih(4) [of a] s(2) by blast
  moreover have "page_at b \<inter> used p = {}" if "b \<in> set bs" for b using ih(4) [OF that] s(2) by blast
  ultimately show ?case using ih(1-3) s a(3) by auto
qed simp

end

text \<open>The bytes of the used cells; the manager is exhausted when no free cell holds a page.\<close>

definition used_bytes :: "pmm \<Rightarrow> nat set" where
  "used_bytes p = (\<Union>i \<in> used_cells p. region p i)"

definition pmm_exhausted :: "pmm \<Rightarrow> bool" where
  "pmm_exhausted p \<longleftrightarrow> \<not> (\<exists>d. fitting_cell p PAGE_SIZE ZONE_NORMAL False d)"

lemma alloc_page_fits:
  assumes wf: "pmm_wf p" and a: "pmm_alloc_page p = Some (a, q)" "a \<noteq> 0"
  shows "\<exists>d. fitting_cell p PAGE_SIZE ZONE_NORMAL False d"
proof -
  have req: "mul64 1 PAGE_SIZE = PAGE_SIZE" by (simp add: mul64_def yam_consts)
  obtain r where r: "pick_root (visit_order p) PAGE_SIZE ZONE_NORMAL False p = Some r"
    "case r of Some (idx, found) \<Rightarrow> attached p found \<and> cell_state (cells p found) = CELL_FREE \<and> fits (cells p found) PAGE_SIZE ZONE_NORMAL False
       | None \<Rightarrow> True"
    using pick_root_correct [of p "visit_order p" PAGE_SIZE ZONE_NORMAL False] visit_order_bound wf
    by (fastforce simp: pmm_wf_def split: option.splits)
  have "r \<noteq> None" using a r(1) by (cases r) (auto simp: pmm_alloc_page_def pmm_alloc_pages_internal_def alloc_pass_def req [simplified] Let_def)
  then show ?thesis using r(2) by (auto simp: fitting_cell_def)
qed

lemma pmm_alloc_page_ok:
  assumes "pmm_wf p"
  shows "\<exists>a q. pmm_alloc_page p = Some (a, q) \<and> (a = 0 \<longrightarrow> q = p \<and> pmm_exhausted p) \<and>
    (a \<noteq> 0 \<longrightarrow> pmm_wf q \<and> 4096 dvd a \<and> a + 4096 \<le> 2 ^ 52 \<and> page_at a \<inter> used_bytes p = {} \<and>
       used_bytes p \<union> page_at a \<subseteq> used_bytes q \<and> \<not> pmm_exhausted p)"
proof -
  have req: "mul64 1 PAGE_SIZE = PAGE_SIZE" by (simp add: mul64_def yam_consts)
  obtain a q where a: "pmm_alloc_page p = Some (a, q)" "pmm_wf q" "a = 0 \<longrightarrow> q = p \<and> pmm_exhausted p"
    "a \<noteq> 0 \<longrightarrow> (\<exists>leaf. pass_found PAGE_SIZE ZONE_NORMAL False p a q leaf)"
    using alloc_internal_correct [OF assms, of 1 ZONE_NORMAL False]
    unfolding req pmm_alloc_page_def pmm_exhausted_def by blast
  have "pmm_wf q \<and> 4096 dvd a \<and> a + 4096 \<le> 2 ^ 52 \<and> page_at a \<inter> used_bytes p = {} \<and>
       used_bytes p \<union> page_at a \<subseteq> used_bytes q \<and> \<not> pmm_exhausted p" if "a \<noteq> 0"
  proof -
    obtain leaf where l: "pass_found PAGE_SIZE ZONE_NORMAL False p a q leaf" using a(4) \<open>a \<noteq> 0\<close> by blast
    have lu: "leaf \<in> used_cells q" "used_cells q = insert leaf (used_cells p)" "leaf \<notin> used_cells p"
      "cell_base (cells q leaf) = a" "PAGE_SIZE \<le> cell_size (cells q leaf)" "\<And>j. j \<in> used_cells p \<Longrightarrow> region q j = region p j"
      using l by (auto simp: pass_found_def)
    have fw: "forest_wf q" using a(2) by (simp add: pmm_wf_def)
    have cw: "cell_wf q leaf" using forest_wfD(2) [OF fw] lu(1) by (simp add: used_cells_def)
    have pg: "page_at a \<subseteq> region q leaf" using lu(4,5) by (auto simp: page_at_def region_def yam_consts)
    have "region q leaf \<inter> region p j = {}" if "j \<in> used_cells p" for j
      using used_disjoint [OF fw lu(1), of j] that lu(2,3,6) by force
    then have "page_at a \<inter> used_bytes p = {}" using pg by (auto simp: used_bytes_def)
    moreover have "used_bytes p \<union> page_at a \<subseteq> used_bytes q"
      using pg lu(2,6) by (auto simp: used_bytes_def)
    moreover have "4096 dvd a" "a + 4096 \<le> 2 ^ 52" using cw lu(4,5) by (auto simp: cell_wf_def yam_consts)
    moreover have "\<not> pmm_exhausted p" using alloc_page_fits [OF assms a(1) that] by (simp add: pmm_exhausted_def)
    ultimately show ?thesis using a(2) by blast
  qed
  then show ?thesis using a by blast
qed

interpretation pmm_frames: frame_allocator pmm_alloc_page pmm_wf used_bytes pmm_exhausted
  using pmm_alloc_page_ok by unfold_locales (metis option.inject prod.inject)+

end
