(* ===== verification/Vmm.thy ===== *)
theory Vmm
  imports Frames "HOL-Library.Monad_Syntax"
begin

text \<open>
  The virtual memory manager of \<^verbatim>\<open>src/src/mem/vmm.c\<close>: four-level page tables, copy-on-write, the mmap family of
  system calls and demand paging, over the physical memory manager.

  Physical memory is an explicit store of page frames, each an array of 512 words.  The source reaches a frame
  through its address in the direct map (\<^verbatim>\<open>phys + g_hhdm_offset\<close>); here a table pointer is the physical address of its
  frame, and a null pointer is \<open>None\<close>.  Shootdowns are logged.  An operation returns \<open>None\<close> when it does not
  return: a run of the physical memory manager that does not end, or the dereference of a null page-table root.
\<close>

section \<open>Types and constants\<close>

definition VMM_FLAG_PRESENT :: u64 where [yam_consts]: "VMM_FLAG_PRESENT = 0x1"
definition VMM_FLAG_WRITE :: u64 where [yam_consts]: "VMM_FLAG_WRITE = 0x2"
definition VMM_FLAG_USER :: u64 where [yam_consts]: "VMM_FLAG_USER = 0x4"
definition VMM_FLAG_HUGE :: u64 where [yam_consts]: "VMM_FLAG_HUGE = 0x80"
definition VMM_FLAG_COW :: u64 where [yam_consts]: "VMM_FLAG_COW = 0x200"
definition VMM_FLAG_DONT_FREE :: u64 where [yam_consts]: "VMM_FLAG_DONT_FREE = 0x400"
definition VMM_FLAG_NX :: u64 where [yam_consts]: "VMM_FLAG_NX = 0x8000000000000000"
definition HUGE_PAGE_SIZE :: u64 where [yam_consts]: "HUGE_PAGE_SIZE = 0x200000"
definition PROT_WRITE :: u32 where [yam_consts]: "PROT_WRITE = 2"
definition PROT_EXEC :: u32 where [yam_consts]: "PROT_EXEC = 4"
definition MAP_ANONYMOUS :: u32 where [yam_consts]: "MAP_ANONYMOUS = 0x20"
definition MAP_FAILED :: u64 where [yam_consts]: "MAP_FAILED = - 1"
definition MMAP_BASE :: u64 where [yam_consts]: "MMAP_BASE = 0x7F0000000000"
definition USER_BRK_DEFAULT :: u64 where [yam_consts]: "USER_BRK_DEFAULT = 0x400000"
definition PTE_ADDR :: u64 where [yam_consts]: "PTE_ADDR = 0x000FFFFFFFFFF000"
definition PDE_ADDR :: u64 where [yam_consts]: "PDE_ADDR = 0x000FFFFFFFE00000"
definition PTE_FLAGS :: u64 where [yam_consts]: "PTE_FLAGS = 0xFFF0000000000FFF"

record vma =
  vma_start :: u64
  vma_end :: u64
  vma_flags :: u32
  vma_prot :: u32

text \<open>The fields of a task that the manager uses.\<close>

record mm_task =
  mt_pml4 :: "u64 option"
  mt_vmas :: "vma list"
  mt_brk_start :: u64
  mt_brk_current :: u64

datatype shootdown = Shoot_page u64 | Shoot_all

record vmm =
  vm_frame :: "u64 \<Rightarrow> nat \<Rightarrow> u64"
  vm_pmm :: pmm
  vm_hhdm_offset :: u64
  vm_kernel_pml4 :: "u64 option"
  vm_cr3 :: u64
  vm_next_kernel_stack :: u64
  vm_next_mmap_addr :: u64
  vm_shot :: "shootdown list"

section \<open>Helpers\<close>

definition vmm_phys_to_virt :: "vmm \<Rightarrow> u64 \<Rightarrow> u64" where
  "vmm_phys_to_virt s phys = phys + vm_hhdm_offset s"

definition vmm_virt_hhdm_to_phys :: "vmm \<Rightarrow> u64 \<Rightarrow> u64" where
  "vmm_virt_hhdm_to_phys s virt = virt - vm_hhdm_offset s"

definition pml4_index :: "u64 \<Rightarrow> nat" where "pml4_index virt = unat (drop_bit 39 virt AND 0x1FF)"
definition pdpt_index :: "u64 \<Rightarrow> nat" where "pdpt_index virt = unat (drop_bit 30 virt AND 0x1FF)"
definition pd_index :: "u64 \<Rightarrow> nat" where "pd_index virt = unat (drop_bit 21 virt AND 0x1FF)"
definition pt_index :: "u64 \<Rightarrow> nat" where "pt_index virt = unat (drop_bit 12 virt AND 0x1FF)"

definition has_bits :: "u64 \<Rightarrow> u64 \<Rightarrow> bool" where
  "has_bits e flag \<longleftrightarrow> e AND flag \<noteq> 0"

text \<open>\<^verbatim>\<open>table[index] = e\<close>, and \<^verbatim>\<open>memset(frame, 0, PAGE_SIZE)\<close>\<close>

definition set_entry :: "u64 \<Rightarrow> nat \<Rightarrow> u64 \<Rightarrow> vmm \<Rightarrow> vmm" where
  "set_entry table index e s = s\<lparr> vm_frame := (vm_frame s)(table := (vm_frame s table)(index := e)) \<rparr>"

definition zero_frame :: "u64 \<Rightarrow> vmm \<Rightarrow> vmm" where
  "zero_frame phys s = s\<lparr> vm_frame := (vm_frame s)(phys := \<lambda>i. 0) \<rparr>"

text \<open>The physical memory manager, whose addresses are naturals below $2^{64}$.\<close>

definition frame_alloc :: "vmm \<Rightarrow> (u64 option \<times> vmm) option" where
  "frame_alloc s = do { (phys, p) \<leftarrow> pmm_alloc_page (vm_pmm s);
     Some (if phys = 0 then None else Some (of_nat phys), s\<lparr> vm_pmm := p \<rparr>) }"

definition frame_free :: "u64 \<Rightarrow> vmm \<Rightarrow> vmm option" where
  "frame_free phys s = map_option (\<lambda>p. s\<lparr> vm_pmm := p \<rparr>) (pmm_free_page (unat phys) (vm_pmm s))"

definition frame_ref :: "u64 \<Rightarrow> vmm \<Rightarrow> vmm" where
  "frame_ref phys s = s\<lparr> vm_pmm := pmm_page_ref (unat phys) (vm_pmm s) \<rparr>"

definition frame_unref :: "u64 \<Rightarrow> vmm \<Rightarrow> vmm option" where
  "frame_unref phys s = map_option (\<lambda>(last, p). s\<lparr> vm_pmm := p \<rparr>) (pmm_page_unref (unat phys) (vm_pmm s))"

definition vmm_shootdown_page :: "u64 \<Rightarrow> vmm \<Rightarrow> vmm" where
  "vmm_shootdown_page virt s = s\<lparr> vm_shot := vm_shot s @ [Shoot_page virt] \<rparr>"

definition vmm_shootdown_all :: "vmm \<Rightarrow> vmm" where
  "vmm_shootdown_all s = s\<lparr> vm_shot := vm_shot s @ [Shoot_all] \<rparr>"

definition alloc_page_table :: "vmm \<Rightarrow> (u64 option \<times> vmm) option" where
  "alloc_page_table s = do { (phys, s1) \<leftarrow> frame_alloc s;
     Some (phys, case phys of None \<Rightarrow> s1 | Some t \<Rightarrow> zero_frame t s1) }"

definition get_or_create_table :: "u64 \<Rightarrow> nat \<Rightarrow> u64 \<Rightarrow> vmm \<Rightarrow> (u64 option \<times> vmm) option" where
  "get_or_create_table table index flags s =
     (let e = vm_frame s table index
      in if has_bits e VMM_FLAG_PRESENT
         then Some (if has_bits e 0x80 then None else Some (e AND PTE_ADDR), s)
         else do { (new_table, s1) \<leftarrow> alloc_page_table s;
                   Some (new_table, case new_table of
                       None \<Rightarrow> s1
                     | Some phys \<Rightarrow> set_entry table index (phys OR VMM_FLAG_PRESENT OR VMM_FLAG_WRITE OR flags) s1) })"

section \<open>Mapping\<close>

definition vmm_init :: "u64 \<Rightarrow> vmm \<Rightarrow> vmm" where
  "vmm_init hhdm_offset s = s\<lparr> vm_hhdm_offset := hhdm_offset, vm_kernel_pml4 := Some (vm_cr3 s AND PTE_ADDR) \<rparr>"

definition vmm_get_kernel_pml4 :: "vmm \<Rightarrow> u64" where
  "vmm_get_kernel_pml4 s = (case vm_kernel_pml4 s of Some p \<Rightarrow> p | None \<Rightarrow> vm_cr3 s AND PTE_ADDR)"

definition vmm_map_page :: "u64 \<Rightarrow> u64 \<Rightarrow> u64 \<Rightarrow> u64 \<Rightarrow> vmm \<Rightarrow> (bool \<times> vmm) option" where
  "vmm_map_page pml4 virt phys flags s = do {
     (r1, s1) \<leftarrow> get_or_create_table pml4 (pml4_index virt) (flags AND VMM_FLAG_USER) s;
     case r1 of None \<Rightarrow> Some (False, s1) | Some pdpt \<Rightarrow> do {
       (r2, s2) \<leftarrow> get_or_create_table pdpt (pdpt_index virt) (flags AND VMM_FLAG_USER) s1;
       case r2 of None \<Rightarrow> Some (False, s2) | Some pd \<Rightarrow> do {
         (r3, s3) \<leftarrow> get_or_create_table pd (pd_index virt) (flags AND VMM_FLAG_USER) s2;
         case r3 of None \<Rightarrow> Some (False, s3) | Some pt \<Rightarrow>
           Some (True, vmm_shootdown_page virt
             (set_entry pt (pt_index virt) ((phys AND PTE_ADDR) OR flags OR VMM_FLAG_PRESENT) s3)) } } }"

definition vmm_map_huge_page :: "u64 \<Rightarrow> u64 \<Rightarrow> u64 \<Rightarrow> u64 \<Rightarrow> vmm \<Rightarrow> (bool \<times> vmm) option" where
  "vmm_map_huge_page pml4 virt phys flags s =
     (if has_bits virt (HUGE_PAGE_SIZE - 1) \<or> has_bits phys (HUGE_PAGE_SIZE - 1) then Some (False, s)
      else do {
        (r1, s1) \<leftarrow> get_or_create_table pml4 (pml4_index virt) (flags AND VMM_FLAG_USER) s;
        case r1 of None \<Rightarrow> Some (False, s1) | Some pdpt \<Rightarrow> do {
          (r2, s2) \<leftarrow> get_or_create_table pdpt (pdpt_index virt) (flags AND VMM_FLAG_USER) s1;
          case r2 of None \<Rightarrow> Some (False, s2) | Some pd \<Rightarrow>
            Some (True, vmm_shootdown_page virt
              (set_entry pd (pd_index virt) ((phys AND PDE_ADDR) OR flags OR VMM_FLAG_PRESENT OR VMM_FLAG_HUGE) s2)) } })"

text \<open>The page directory of an address, when the two levels above it are present.\<close>

definition walk_pd :: "vmm \<Rightarrow> u64 \<Rightarrow> u64 \<Rightarrow> u64 option" where
  "walk_pd s pml4 virt =
     (let e4 = vm_frame s pml4 (pml4_index virt)
      in if \<not> has_bits e4 VMM_FLAG_PRESENT then None
         else let e3 = vm_frame s (e4 AND PTE_ADDR) (pdpt_index virt)
           in if \<not> has_bits e3 VMM_FLAG_PRESENT then None else Some (e3 AND PTE_ADDR))"

definition vmm_unmap_page :: "u64 \<Rightarrow> u64 \<Rightarrow> vmm \<Rightarrow> vmm" where
  "vmm_unmap_page pml4 virt s =
     (case walk_pd s pml4 virt of
        None \<Rightarrow> s
      | Some pd \<Rightarrow>
          let e = vm_frame s pd (pd_index virt)
          in if \<not> has_bits e VMM_FLAG_PRESENT then s
             else vmm_shootdown_page virt (set_entry (e AND PTE_ADDR) (pt_index virt) 0 s))"

definition vmm_virt_to_phys :: "vmm \<Rightarrow> u64 \<Rightarrow> u64 \<Rightarrow> u64" where
  "vmm_virt_to_phys s pml4 virt =
     (case walk_pd s pml4 virt of
        None \<Rightarrow> 0
      | Some pd \<Rightarrow>
          let e = vm_frame s pd (pd_index virt)
          in if \<not> has_bits e VMM_FLAG_PRESENT then 0
             else if has_bits e VMM_FLAG_HUGE then (e AND PDE_ADDR) OR (virt AND (HUGE_PAGE_SIZE - 1))
             else let p = vm_frame s (e AND PTE_ADDR) (pt_index virt)
               in if \<not> has_bits p VMM_FLAG_PRESENT then 0 else (p AND PTE_ADDR) OR (virt AND 0xFFF))"

definition vmm_get_pte_flags :: "vmm \<Rightarrow> u64 \<Rightarrow> u64 \<Rightarrow> u64" where
  "vmm_get_pte_flags s pml4 virt =
     (case walk_pd s pml4 virt of
        None \<Rightarrow> 0
      | Some pd \<Rightarrow>
          let e = vm_frame s pd (pd_index virt)
          in if \<not> has_bits e VMM_FLAG_PRESENT then 0
             else if has_bits e VMM_FLAG_HUGE then e AND PTE_FLAGS
             else vm_frame s (e AND PTE_ADDR) (pt_index virt) AND PTE_FLAGS)"

definition vmm_update_flags :: "u64 \<Rightarrow> u64 \<Rightarrow> u64 \<Rightarrow> vmm \<Rightarrow> bool \<times> vmm" where
  "vmm_update_flags pml4 virt new_flags s =
     (case walk_pd s pml4 virt of
        None \<Rightarrow> (False, s)
      | Some pd \<Rightarrow>
          let e = vm_frame s pd (pd_index virt)
          in if \<not> has_bits e VMM_FLAG_PRESENT then (False, s)
             else if has_bits e VMM_FLAG_HUGE
             then (True, vmm_shootdown_page virt
                    (set_entry pd (pd_index virt) ((e AND PDE_ADDR) OR new_flags OR VMM_FLAG_PRESENT OR VMM_FLAG_HUGE) s))
             else let pt = e AND PTE_ADDR; p = vm_frame s pt (pt_index virt)
               in if \<not> has_bits p VMM_FLAG_PRESENT then (False, s)
                  else (True, vmm_shootdown_page virt
                         (set_entry pt (pt_index virt) ((p AND PTE_ADDR) OR new_flags OR VMM_FLAG_PRESENT) s)))"

definition vmm_create_user_pml4 :: "vmm \<Rightarrow> (u64 option \<times> vmm) option" where
  "vmm_create_user_pml4 s = do {
     (r, s1) \<leftarrow> alloc_page_table s;
     Some (r, case r of
         None \<Rightarrow> s1
       | Some new_pml4 \<Rightarrow>
           let k = vmm_get_kernel_pml4 s1
           in fold (\<lambda>i s. set_entry new_pml4 i (vm_frame s k i) s) [256 ..< 512] s1) }"


section \<open>Copy-on-write fork\<close>

text \<open>\<^verbatim>\<open>for (x in xs) body(x);\<close> for a body that may not return.\<close>

primrec each :: "('a \<Rightarrow> 's \<Rightarrow> 's option) \<Rightarrow> 'a list \<Rightarrow> 's \<Rightarrow> 's option" where
  "each f [] s = Some s"
| "each f (x # xs) s = do { s1 \<leftarrow> f x s; each f xs s1 }"

definition fork_pte :: "u64 \<Rightarrow> u64 \<Rightarrow> nat \<Rightarrow> vmm \<Rightarrow> vmm" where
  "fork_pte src_pt dst_pt l s =
     (let e = vm_frame s src_pt l
      in if \<not> has_bits e VMM_FLAG_PRESENT then s
         else let phys = e AND PTE_ADDR; flags = e AND PTE_FLAGS
           in if \<not> has_bits flags VMM_FLAG_DONT_FREE
              then let flags = (flags AND NOT VMM_FLAG_WRITE) OR VMM_FLAG_COW
                in set_entry dst_pt l (phys OR flags) (frame_ref phys (set_entry src_pt l (phys OR flags) s))
              else set_entry dst_pt l (phys OR flags) s)"

definition fork_pde :: "u64 \<Rightarrow> u64 \<Rightarrow> nat \<Rightarrow> vmm \<Rightarrow> vmm option" where
  "fork_pde src_pd dst_pd k s =
     (let e = vm_frame s src_pd k
      in if \<not> has_bits e VMM_FLAG_PRESENT then Some s
         else if has_bits e VMM_FLAG_HUGE
         then let phys = e AND PDE_ADDR;
                  flags = ((e AND 0xFFF) AND NOT VMM_FLAG_WRITE) OR VMM_FLAG_COW
           in Some (frame_ref phys (set_entry src_pd k (phys OR flags OR VMM_FLAG_HUGE)
                (set_entry dst_pd k (phys OR flags OR VMM_FLAG_HUGE) s)))
         else do { (r, s1) \<leftarrow> alloc_page_table s;
                   case r of None \<Rightarrow> Some s1 | Some dst_pt \<Rightarrow>
                     Some (fold (fork_pte (e AND PTE_ADDR) dst_pt) [0 ..< 512]
                       (set_entry dst_pd k (dst_pt OR (e AND 0xFFF)) s1)) })"

definition fork_pdpte :: "u64 \<Rightarrow> u64 \<Rightarrow> nat \<Rightarrow> vmm \<Rightarrow> vmm option" where
  "fork_pdpte src_pdpt dst_pdpt j s =
     (let e = vm_frame s src_pdpt j
      in if \<not> has_bits e VMM_FLAG_PRESENT then Some s
         else do { (r, s1) \<leftarrow> alloc_page_table s;
                   case r of None \<Rightarrow> Some s1 | Some dst_pd \<Rightarrow>
                     each (fork_pde (e AND PTE_ADDR) dst_pd) [0 ..< 512]
                       (set_entry dst_pdpt j (dst_pd OR (e AND 0xFFF)) s1) })"

definition fork_pml4e :: "u64 \<Rightarrow> u64 \<Rightarrow> nat \<Rightarrow> vmm \<Rightarrow> vmm option" where
  "fork_pml4e src_pml4 new_pml4 i s =
     (let e = vm_frame s src_pml4 i
      in if \<not> has_bits e VMM_FLAG_PRESENT then Some s
         else do { (r, s1) \<leftarrow> alloc_page_table s;
                   case r of None \<Rightarrow> Some s1 | Some dst_pdpt \<Rightarrow>
                     each (fork_pdpte (e AND PTE_ADDR) dst_pdpt) [0 ..< 512]
                       (set_entry new_pml4 i (dst_pdpt OR (e AND 0xFFF)) s1) })"

definition vmm_fork_address_space :: "u64 \<Rightarrow> vmm \<Rightarrow> (u64 option \<times> vmm) option" where
  "vmm_fork_address_space src_pml4 s = do {
     (r, s1) \<leftarrow> vmm_create_user_pml4 s;
     case r of None \<Rightarrow> Some (None, s1) | Some new_pml4 \<Rightarrow> do {
       s2 \<leftarrow> each (fork_pml4e src_pml4 new_pml4) [0 ..< 256] s1;
       Some (Some new_pml4, vmm_shootdown_all s2) } }"

definition vmm_handle_cow_fault :: "u64 \<Rightarrow> u64 \<Rightarrow> vmm \<Rightarrow> (bool \<times> vmm) option" where
  "vmm_handle_cow_fault pml4 fault_addr s =
     (let page_addr = fault_addr AND NOT 0xFFF; flags = vmm_get_pte_flags s pml4 page_addr
      in if \<not> has_bits flags VMM_FLAG_COW then Some (False, s)
         else let old_phys = vmm_virt_to_phys s pml4 page_addr AND NOT 0xFFF;
                  new_flags = (flags AND NOT VMM_FLAG_COW) OR VMM_FLAG_WRITE
           in if old_phys = 0 then Some (False, s)
              else if pmm_page_refcount (unat old_phys) (vm_pmm s) \<le> 1
              then Some (True, snd (vmm_update_flags pml4 page_addr new_flags s))
              else do { (r, s1) \<leftarrow> frame_alloc s;
                        case r of None \<Rightarrow> Some (False, s1) | Some new_phys \<Rightarrow> do {
                          (ok, s2) \<leftarrow> vmm_map_page pml4 page_addr new_phys new_flags
                            (s1\<lparr> vm_frame := (vm_frame s1)(new_phys := vm_frame s1 old_phys) \<rparr>);
                          s3 \<leftarrow> frame_unref old_phys s2;
                          Some (True, s3) } })"

section \<open>Tearing an address space down\<close>

definition release_user_mapping :: "u64 \<Rightarrow> bool \<Rightarrow> vmm \<Rightarrow> vmm option" where
  "release_user_mapping entry huge s =
     (if \<not> has_bits entry VMM_FLAG_PRESENT then Some s
      else if has_bits entry VMM_FLAG_DONT_FREE then Some s
      else let phys = entry AND (if huge then PDE_ADDR else PTE_ADDR)
        in if phys = 0 then Some s else frame_unref phys s)"

definition free_pt :: "u64 \<Rightarrow> vmm \<Rightarrow> vmm option" where
  "free_pt pt s = each (\<lambda>i s. release_user_mapping (vm_frame s pt i) False s) [0 ..< 512] s"

definition free_pd :: "u64 \<Rightarrow> vmm \<Rightarrow> vmm option" where
  "free_pd pd s = each (\<lambda>i s.
     let e = vm_frame s pd i
     in if \<not> has_bits e VMM_FLAG_PRESENT then Some s
        else if has_bits e VMM_FLAG_HUGE then release_user_mapping e True s
        else do { s1 \<leftarrow> free_pt (e AND PTE_ADDR) s; frame_free (e AND PTE_ADDR) s1 }) [0 ..< 512] s"

definition free_pdpt :: "u64 \<Rightarrow> vmm \<Rightarrow> vmm option" where
  "free_pdpt pdpt s = each (\<lambda>i s.
     let e = vm_frame s pdpt i
     in if \<not> has_bits e VMM_FLAG_PRESENT then Some s
        else do { s1 \<leftarrow> free_pd (e AND PTE_ADDR) s; frame_free (e AND PTE_ADDR) s1 }) [0 ..< 512] s"

definition vmm_destroy_user_pml4 :: "u64 option \<Rightarrow> vmm \<Rightarrow> vmm option" where
  "vmm_destroy_user_pml4 root s =
     (case root of None \<Rightarrow> Some s | Some pml4 \<Rightarrow> do {
        s1 \<leftarrow> each (\<lambda>i s.
          let e = vm_frame s pml4 i
          in if \<not> has_bits e VMM_FLAG_PRESENT then Some s
             else do { s1 \<leftarrow> free_pdpt (e AND PTE_ADDR) s; frame_free (e AND PTE_ADDR) s1 }) [0 ..< 256] s;
        frame_free pml4 s1 })"

section \<open>Kernel stacks\<close>

definition page_align_up :: "u64 \<Rightarrow> u64" where
  "page_align_up x = (x + 4095) AND NOT 4095"

definition vmm_free_kernel_stack :: "u64 \<Rightarrow> u64 \<Rightarrow> vmm \<Rightarrow> vmm option" where
  "vmm_free_kernel_stack stack usable_size s =
     (if stack = 0 \<or> usable_size = 0 then Some s
      else each (\<lambda>i s.
        let pml4 = vmm_get_kernel_pml4 s; va = stack + of_nat i * 4096; phys = vmm_virt_to_phys s pml4 va
        in if phys = 0 then Some s else frame_free (phys AND NOT 0xFFF) (vmm_unmap_page pml4 va s))
        [0 ..< unat (page_align_up usable_size) div 4096] s)"

fun stack_fill :: "u64 \<Rightarrow> nat \<Rightarrow> nat \<Rightarrow> vmm \<Rightarrow> (bool \<times> vmm) option" where
  "stack_fill usable 0 i s = Some (True, s)"
| "stack_fill usable (Suc n) i s = do {
     (r, s1) \<leftarrow> frame_alloc s;
     case r of None \<Rightarrow> Some (False, s1) | Some phys \<Rightarrow> do {
       (ok, s2) \<leftarrow> vmm_map_page (vmm_get_kernel_pml4 s1) (usable + of_nat i * 4096) phys (VMM_FLAG_WRITE OR VMM_FLAG_NX) s1;
       if ok then stack_fill usable n (Suc i) s2
       else do { s3 \<leftarrow> frame_free phys s2; Some (False, s3) } } }"

definition vmm_alloc_kernel_stack :: "u64 \<Rightarrow> vmm \<Rightarrow> (u64 option \<times> vmm) option" where
  "vmm_alloc_kernel_stack usable_size s =
     (if usable_size = 0 then Some (None, s)
      else let sz = page_align_up usable_size;
               base = vm_next_kernel_stack s;
               usable = base + 4096
        in do { (ok, s1) \<leftarrow> stack_fill usable (unat sz div 4096) 0 (s\<lparr> vm_next_kernel_stack := base + (sz + 2 * 4096) \<rparr>);
                if ok then Some (Some usable, s1)
                else do { s2 \<leftarrow> vmm_free_kernel_stack usable sz s1; Some (None, s2) } })"


section \<open>System calls\<close>

text \<open>
  The system calls act on the current task, \<open>None\<close> when there is none, and return it updated.  \<open>heap_ok\<close> says
  whether \<^verbatim>\<open>kmalloc\<close> finds room for an area descriptor.
\<close>

definition user_pte_flags :: "bool \<Rightarrow> u32 \<Rightarrow> u64" where
  "user_pte_flags write prot =
     VMM_FLAG_PRESENT OR VMM_FLAG_USER OR (if write then VMM_FLAG_WRITE else 0) OR (if prot AND PROT_EXEC = 0 then VMM_FLAG_NX else 0)"

fun mmap_fill :: "u64 option \<Rightarrow> u64 \<Rightarrow> u32 \<Rightarrow> nat \<Rightarrow> nat \<Rightarrow> vmm \<Rightarrow> (bool \<times> vmm) option" where
  "mmap_fill root vaddr prot 0 i s = Some (True, s)"
| "mmap_fill root vaddr prot (Suc n) i s = do {
     (r, s1) \<leftarrow> frame_alloc s;
     case r of None \<Rightarrow> Some (False, s1) | Some phys \<Rightarrow> do {
       pml4 \<leftarrow> root;
       (ok, s2) \<leftarrow> vmm_map_page pml4 (vaddr + of_nat i * 4096) phys (user_pte_flags True prot) s1;
       mmap_fill root vaddr prot n (Suc i) (zero_frame phys s2) } }"

definition sys_mmap :: "bool \<Rightarrow> u64 \<Rightarrow> u32 \<Rightarrow> u32 \<Rightarrow> mm_task option \<Rightarrow> vmm \<Rightarrow> (u64 \<times> mm_task option \<times> vmm) option" where
  "sys_mmap heap_ok len prot flags t s =
     (if len = 0 then Some (MAP_FAILED, t, s)
      else let pages = (len + 4095) div 4096; sz = pages * 4096; vaddr = vm_next_mmap_addr s;
               s1 = s\<lparr> vm_next_mmap_addr := vaddr + sz \<rparr>
        in if \<not> heap_ok then Some (MAP_FAILED, t, s1)
           else let v = \<lparr> vma_start = vaddr, vma_end = vaddr + sz, vma_flags = flags, vma_prot = prot \<rparr>;
                    t1 = map_option (\<lambda>k. k\<lparr> mt_vmas := v # mt_vmas k \<rparr>) t
             in if flags AND MAP_ANONYMOUS \<noteq> 0 then Some (vaddr, t1, s1)
                else do { (ok, s2) \<leftarrow> mmap_fill (Option.bind t1 mt_pml4) vaddr prot (unat pages) 0 s1;
                          Some (if ok then vaddr else MAP_FAILED, t1, s2) })"

fun remove_vma :: "u64 \<Rightarrow> vma list \<Rightarrow> vma list" where
  "remove_vma vaddr [] = []"
| "remove_vma vaddr (v # vs) = (if vma_start v = vaddr then vs else v # remove_vma vaddr vs)"

definition sys_munmap :: "u64 \<Rightarrow> u64 \<Rightarrow> mm_task option \<Rightarrow> vmm \<Rightarrow> (int \<times> mm_task option \<times> vmm) option" where
  "sys_munmap vaddr len t s =
     (case t of None \<Rightarrow> Some (- 1, t, s) | Some k \<Rightarrow>
      case mt_pml4 k of None \<Rightarrow> Some (- 1, t, s) | Some pml4 \<Rightarrow> do {
        s1 \<leftarrow> each (\<lambda>i s.
          let va = vaddr + of_nat i * 4096; phys = vmm_virt_to_phys s pml4 va
          in if phys = 0 then Some s else frame_free (phys AND NOT 0xFFF) (vmm_unmap_page pml4 va s))
          [0 ..< unat ((len + 4095) div 4096)] s;
        Some (0, Some (k\<lparr> mt_vmas := remove_vma vaddr (mt_vmas k) \<rparr>), s1) })"

definition mprotect_page :: "u64 \<Rightarrow> u32 \<Rightarrow> u64 \<Rightarrow> vmm \<Rightarrow> vmm" where
  "mprotect_page pml4 prot va s =
     (let old_flags = vmm_get_pte_flags s pml4 va
      in if \<not> has_bits old_flags VMM_FLAG_PRESENT then s
         else let new_flags = user_pte_flags (prot AND PROT_WRITE \<noteq> 0) prot
                    OR (if has_bits old_flags VMM_FLAG_COW then VMM_FLAG_COW else 0)
                    OR (if has_bits old_flags VMM_FLAG_DONT_FREE then VMM_FLAG_DONT_FREE else 0)
           in snd (vmm_update_flags pml4 va new_flags s))"

fun protect_vma :: "u64 \<Rightarrow> u64 \<Rightarrow> u32 \<Rightarrow> vma list \<Rightarrow> vma list" where
  "protect_vma lo hi prot [] = []"
| "protect_vma lo hi prot (v # vs) =
     (if vma_start v \<le> lo \<and> vma_end v \<ge> hi then v\<lparr> vma_prot := prot \<rparr> # vs else v # protect_vma lo hi prot vs)"

definition sys_mprotect :: "u64 \<Rightarrow> u64 \<Rightarrow> u32 \<Rightarrow> mm_task option \<Rightarrow> vmm \<Rightarrow> int \<times> mm_task option \<times> vmm" where
  "sys_mprotect addr len prot t s =
     (let vaddr = addr AND NOT 0xFFF; pages = (len + 4095) div 4096
      in case t of None \<Rightarrow> (- 1, t, s) | Some k \<Rightarrow>
         case mt_pml4 k of None \<Rightarrow> (- 1, t, s) | Some pml4 \<Rightarrow>
           (0, Some (k\<lparr> mt_vmas := protect_vma vaddr (vaddr + pages * 4096) prot (mt_vmas k) \<rparr>),
            fold (\<lambda>i s. mprotect_page pml4 prot (vaddr + of_nat i * 4096) s) [0 ..< unat pages] s))"

text \<open>The number of pages between two page-aligned addresses.\<close>

definition pages_between :: "u64 \<Rightarrow> u64 \<Rightarrow> nat" where
  "pages_between lo hi = (if lo < hi then unat (hi - lo) div 4096 else 0)"

fun brk_grow :: "u64 \<Rightarrow> u64 \<Rightarrow> nat \<Rightarrow> nat \<Rightarrow> vmm \<Rightarrow> (bool \<times> vmm) option" where
  "brk_grow pml4 start 0 i s = Some (True, s)"
| "brk_grow pml4 start (Suc n) i s =
     (let va = start + of_nat i * 4096
      in if vmm_virt_to_phys s pml4 va \<noteq> 0 then brk_grow pml4 start n (Suc i) s
         else do { (r, s1) \<leftarrow> frame_alloc s;
                   case r of None \<Rightarrow> Some (False, s1) | Some phys \<Rightarrow> do {
                     (ok, s2) \<leftarrow> vmm_map_page pml4 va phys (VMM_FLAG_PRESENT OR VMM_FLAG_WRITE OR VMM_FLAG_USER OR VMM_FLAG_NX) s1;
                     brk_grow pml4 start n (Suc i) (zero_frame phys s2) } })"

definition sys_brk :: "u64 \<Rightarrow> mm_task option \<Rightarrow> vmm \<Rightarrow> (u64 \<times> mm_task option \<times> vmm) option" where
  "sys_brk new_brk t s =
     (case t of None \<Rightarrow> Some (0, None, s) | Some k0 \<Rightarrow>
        let k = (if mt_brk_start k0 = 0 then k0\<lparr> mt_brk_start := USER_BRK_DEFAULT, mt_brk_current := USER_BRK_DEFAULT \<rparr> else k0);
            old_brk = mt_brk_current k; k' = k\<lparr> mt_brk_current := new_brk \<rparr>
        in if new_brk = 0 \<or> new_brk < mt_brk_start k then Some (old_brk, Some k, s)
           else if new_brk > old_brk
           then (case mt_pml4 k of None \<Rightarrow> Some (new_brk, Some k', s) | Some pml4 \<Rightarrow> do {
                   (ok, s1) \<leftarrow> brk_grow pml4 (page_align_up old_brk) (pages_between (page_align_up old_brk) (page_align_up new_brk)) 0 s;
                   Some (if ok then (new_brk, Some k', s1) else (old_brk, Some k, s1)) })
           else (case mt_pml4 k of None \<Rightarrow> Some (new_brk, Some k', s) | Some pml4 \<Rightarrow> do {
                   s1 \<leftarrow> each (\<lambda>i s.
                     let va = page_align_up new_brk + of_nat i * 4096; phys = vmm_virt_to_phys s pml4 va
                     in if phys = 0 then Some s else frame_unref (phys AND NOT 0xFFF) (vmm_unmap_page pml4 va s))
                     [0 ..< pages_between (page_align_up new_brk) (page_align_up old_brk)] s;
                   Some (new_brk, Some k', s1) }))"

definition vmm_destroy_task_vmas :: "mm_task \<Rightarrow> mm_task" where
  "vmm_destroy_task_vmas t = t\<lparr> mt_vmas := [] \<rparr>"

text \<open>\<open>heap_ok\<close> is asked once per area; a failure releases the copies made so far.\<close>

definition vmm_clone_task_vmas :: "bool list \<Rightarrow> mm_task \<Rightarrow> mm_task \<Rightarrow> bool \<times> mm_task" where
  "vmm_clone_task_vmas heap_ok src dst =
     (if list_all id (take (length (mt_vmas src)) heap_ok) then (True, dst\<lparr> mt_vmas := mt_vmas src \<rparr>)
      else (False, vmm_destroy_task_vmas dst))"

definition vmm_handle_page_fault :: "u64 \<Rightarrow> u64 \<Rightarrow> mm_task option \<Rightarrow> vmm \<Rightarrow> (bool \<times> vmm) option" where
  "vmm_handle_page_fault fault_addr error_code t s =
     (case t of None \<Rightarrow> Some (False, s) | Some k \<Rightarrow> do {
        (cow, s1) \<leftarrow> (case mt_pml4 k of
            Some pml4 \<Rightarrow> if error_code AND 3 = 3 then vmm_handle_cow_fault pml4 fault_addr s else Some (False, s)
          | None \<Rightarrow> Some (False, s));
        if cow then Some (True, s1)
        else case find (\<lambda>v. fault_addr \<ge> vma_start v \<and> fault_addr < vma_end v) (mt_vmas k) of
            None \<Rightarrow> Some (False, s1)
          | Some v \<Rightarrow> do {
              (r, s2) \<leftarrow> frame_alloc s1;
              case r of None \<Rightarrow> Some (False, s2) | Some phys \<Rightarrow> do {
                pml4 \<leftarrow> mt_pml4 k;
                (ok, s3) \<leftarrow> vmm_map_page pml4 (fault_addr AND NOT 0xFFF) phys
                  (user_pte_flags (vma_prot v AND PROT_WRITE \<noteq> 0) (vma_prot v)) s2;
                Some (True, zero_frame phys s3) } } })"

end
