(* ===== verification/Vmm_Inv.thy ===== *)
theory Vmm_Inv
  imports Vmm
begin

text \<open>
  The page tables of a set of user address spaces as trees: no table is shared between two places, and every table is
  a frame in use.  What an address space maps is then a function from page indices to entries (\<open>view\<close>), and the
  operations on the tables are updates of that function.
\<close>

section \<open>Entries and bits\<close>

lemma has_bits_pow: "has_bits e (2 ^ n) \<longleftrightarrow> bit e n"
  by (simp add: has_bits_def and_exp_eq_0_iff_not_bit)

lemma flag_pow:
  "VMM_FLAG_PRESENT = 2 ^ 0" "VMM_FLAG_WRITE = 2 ^ 1" "VMM_FLAG_USER = 2 ^ 2" "VMM_FLAG_HUGE = 2 ^ 7" "VMM_FLAG_COW = 2 ^ 9"
  "VMM_FLAG_DONT_FREE = 2 ^ 10" "VMM_FLAG_NX = 2 ^ 63"
  by (simp_all add: yam_consts)

lemma has_flag_bit:
  "has_bits e VMM_FLAG_PRESENT \<longleftrightarrow> bit e 0" "has_bits e VMM_FLAG_WRITE \<longleftrightarrow> bit e 1" "has_bits e VMM_FLAG_HUGE \<longleftrightarrow> bit e 7"
  "has_bits e VMM_FLAG_COW \<longleftrightarrow> bit e 9" "has_bits e VMM_FLAG_DONT_FREE \<longleftrightarrow> bit e 10"
  unfolding flag_pow by (rule has_bits_pow)+

lemma has_bit_7: "has_bits e 0x80 \<longleftrightarrow> bit e 7"
  using has_bits_pow [of e 7] by simp

lemma bit_pow64: "m < 64 \<Longrightarrow> bit (2 ^ m :: u64) n \<longleftrightarrow> n = m"
  by (auto simp: bit_exp_iff)

lemma bit_pte_addr: "bit PTE_ADDR n \<longleftrightarrow> 12 \<le> n \<and> n < 52"
proof -
  have eq: "PTE_ADDR = push_bit 12 (mask 40)" by (simp add: PTE_ADDR_def mask_eq_exp_minus_1 push_bit_eq_mult)
  show ?thesis unfolding eq bit_push_bit_iff bit_mask_iff by auto
qed

lemma bit_pde_addr: "bit PDE_ADDR n \<longleftrightarrow> 21 \<le> n \<and> n < 52"
proof -
  have eq: "PDE_ADDR = push_bit 21 (mask 31)" by (simp add: PDE_ADDR_def mask_eq_exp_minus_1 push_bit_eq_mult)
  show ?thesis unfolding eq bit_push_bit_iff bit_mask_iff by auto
qed

lemma bit_pte_flags: "bit PTE_FLAGS n \<longleftrightarrow> n < 64 \<and> \<not> (12 \<le> n \<and> n < 52)"
proof -
  have eq: "PTE_FLAGS = NOT PTE_ADDR" by (simp add: PTE_FLAGS_def PTE_ADDR_def)
  show ?thesis unfolding eq bit_not_iff bit_pte_addr by simp
qed

lemma bit_flags:
  "bit VMM_FLAG_PRESENT n \<longleftrightarrow> n = 0" "bit VMM_FLAG_WRITE n \<longleftrightarrow> n = 1" "bit VMM_FLAG_USER n \<longleftrightarrow> n = 2" "bit VMM_FLAG_HUGE n \<longleftrightarrow> n = 7"
  "bit VMM_FLAG_COW n \<longleftrightarrow> n = 9" "bit VMM_FLAG_DONT_FREE n \<longleftrightarrow> n = 10" "bit VMM_FLAG_NX n \<longleftrightarrow> n = 63"
  unfolding flag_pow by (rule bit_pow64, simp)+

lemmas pte_bits = bit_pte_addr bit_pde_addr bit_pte_flags bit_flags bit_and_iff bit_or_iff bit_not_iff

definition frame_addr :: "u64 \<Rightarrow> bool" where
  "frame_addr t \<longleftrightarrow> t AND PTE_ADDR = t"

lemma frame_addr_bit: "frame_addr t \<Longrightarrow> bit t n \<Longrightarrow> 12 \<le> n \<and> n < 52"
  unfolding frame_addr_def by (metis bit_and_iff bit_pte_addr)

lemma frame_addr_masked [simp]: "frame_addr (e AND PTE_ADDR)"
  by (simp add: frame_addr_def and.assoc)

lemma frame_addr_of_nat:
  assumes "4096 dvd a" "a < 2 ^ 52"
  shows "frame_addr (of_nat a)"
proof -
  obtain k where k: "a = 4096 * k" using assms(1) by blast
  have "bit (of_nat a :: u64) n \<Longrightarrow> 12 \<le> n \<and> n < 52" for n
  proof -
    assume b: "bit (of_nat a :: u64) n"
    then have a: "bit a n" by (simp add: bit_of_nat_iff)
    have "a = push_bit 12 k" by (simp add: k push_bit_eq_mult)
    then have "12 \<le> n" using a by (auto simp: bit_push_bit_iff)
    moreover have "n < 52" using a assms(2) by (metis bit_take_bit_iff take_bit_nat_eq_self)
    ultimately show ?thesis by blast
  qed
  then show ?thesis unfolding frame_addr_def by (intro bit_word_eqI) (auto simp: pte_bits)
qed

text \<open>What an entry links to: the frame of the next table, unless it is absent or maps a large page.\<close>

definition pte_link :: "u64 \<Rightarrow> u64 option" where
  "pte_link e = (if bit e 0 \<and> \<not> bit e 7 then Some (e AND PTE_ADDR) else None)"

lemma pte_link_0 [simp]: "pte_link 0 = None"
  by (simp add: pte_link_def)

lemma pte_link_new:
  assumes "frame_addr t" "fl \<in> {0, VMM_FLAG_USER}"
  shows "pte_link (t OR VMM_FLAG_PRESENT OR VMM_FLAG_WRITE OR fl) = Some t"
proof -
  let ?e = "t OR VMM_FLAG_PRESENT OR VMM_FLAG_WRITE OR fl"
  have fl: "bit fl n \<Longrightarrow> n = 2" for n using assms(2) by (auto simp: bit_flags)
  have "?e AND PTE_ADDR = t"
    by (intro bit_word_eqI) (auto simp: pte_bits dest: fl frame_addr_bit [OF assms(1)])
  moreover have "bit ?e 0" "\<not> bit ?e 7" using fl [of 7] frame_addr_bit [OF assms(1), of 7] by (auto simp: pte_bits)
  ultimately show ?thesis by (simp add: pte_link_def)
qed

section \<open>Trees of tables\<close>

text \<open>The table at a path of indices, the last index first, from the root.\<close>

primrec tbl :: "(u64 \<Rightarrow> nat \<Rightarrow> u64) \<Rightarrow> u64 \<Rightarrow> nat list \<Rightarrow> u64 option" where
  "tbl f P [] = Some P"
| "tbl f P (i # p) = Option.bind (tbl f P p) (\<lambda>t. pte_link (f t i))"

text \<open>The paths of the user half: at most three indices, the first below 256.\<close>

definition upath :: "nat list \<Rightarrow> bool" where
  "upath p \<longleftrightarrow> length p \<le> 3 \<and> (\<forall>i \<in> set p. i < 512) \<and> (p \<noteq> [] \<longrightarrow> last p < 256)"

lemma upath_tl: "upath (i # p) \<Longrightarrow> upath p"
  by (auto simp: upath_def)

lemma upath_Nil [simp]: "upath []"
  by (simp add: upath_def)

definition tables_ok :: "(u64 \<Rightarrow> nat \<Rightarrow> u64) \<Rightarrow> u64 set \<Rightarrow> bool" where
  "tables_ok f A \<longleftrightarrow>
     (\<forall>P \<in> A. \<forall>Q \<in> A. \<forall>p q t. upath p \<longrightarrow> upath q \<longrightarrow> tbl f P p = Some t \<longrightarrow> tbl f Q q = Some t \<longrightarrow> P = Q \<and> p = q) \<and>
     (\<forall>P \<in> A. \<forall>p t i. upath (i # p) \<longrightarrow> length p \<le> 1 \<longrightarrow> tbl f P p = Some t \<longrightarrow> bit (f t i) 0 \<longrightarrow> \<not> bit (f t i) 7)"

lemma tables_okD:
  assumes "tables_ok f A"
  shows "P \<in> A \<Longrightarrow> Q \<in> A \<Longrightarrow> upath p \<Longrightarrow> upath q \<Longrightarrow> tbl f P p = Some t \<Longrightarrow> tbl f Q q = Some t \<Longrightarrow> P = Q \<and> p = q"
    "P \<in> A \<Longrightarrow> upath (i # p) \<Longrightarrow> length p \<le> 1 \<Longrightarrow> tbl f P p = Some t \<Longrightarrow> bit (f t i) 0 \<Longrightarrow> \<not> bit (f t i) 7"
  using assms unfolding tables_ok_def by blast+

definition in_use :: "vmm \<Rightarrow> u64 \<Rightarrow> bool" where
  "in_use s t \<longleftrightarrow> frame_addr t \<and> page_at (unat t) \<subseteq> used_bytes (vm_pmm s)"

definition vm_wf :: "vmm \<Rightarrow> u64 set \<Rightarrow> bool" where
  "vm_wf s A \<longleftrightarrow> pmm_wf (vm_pmm s) \<and> tables_ok (vm_frame s) A \<and>
     (\<forall>P \<in> A. \<forall>p t. upath p \<longrightarrow> tbl (vm_frame s) P p = Some t \<longrightarrow> in_use s t)"

text \<open>Changing an entry of a table without changing what it links to leaves every tree as it is.\<close>

lemma tbl_set_entry:
  assumes ok: "tables_ok f A" and t: "P \<in> A" "upath p" "tbl f P p = Some t" and l: "length p < 3 \<longrightarrow> pte_link e = pte_link (f t j)"
    and g: "\<And>u i. g u i = (if u = t \<and> i = j then e else f u i)" and Q: "Q \<in> A" and q: "upath q"
  shows "tbl g Q q = tbl f Q q"
  using q
proof (induction q)
  case (Cons i q)
  have ih: "tbl g Q q = tbl f Q q" using Cons upath_tl by blast
  show ?case
  proof (cases "tbl f Q q")
    case (Some u)
    have "pte_link (g u i) = pte_link (f u i)"
    proof (cases "u = t \<and> i = j")
      case True
      then have "q = p" using tables_okD(1) [OF ok Q t(1) _ t(2) _ t(3), of q] Some upath_tl [OF Cons.prems] by simp
      then have "length p < 3" using Cons.prems by (simp add: upath_def)
      then show ?thesis using l True g [of u i] by simp
    next
      case False
      then show ?thesis using g [of u i] by auto
    qed
    then show ?thesis using ih Some by simp
  qed (simp add: ih)
qed simp

text \<open>Linking a fresh empty frame below an absent entry adds one table.\<close>

lemma tbl_add_table:
  assumes ok: "tables_ok f A" and t: "P \<in> A" "upath p" "tbl f P p = Some t" and l: "pte_link (f t j) = None" "pte_link e = Some n"
    and g: "\<And>u i. g u i = (if u = t \<and> i = j then e else if u = n then 0 else f u i)"
    and fresh: "\<And>Q q. Q \<in> A \<Longrightarrow> upath q \<Longrightarrow> tbl f Q q \<noteq> Some n" and Q: "Q \<in> A" and q: "upath q"
  shows "tbl g Q q = (if Q = P \<and> q = j # p then Some n else tbl f Q q)"
  using q
proof (induction q)
  case (Cons i q)
  have nt: "n \<noteq> t" using fresh [OF t(1,2)] t(3) by auto
  have uq: "upath q" by (rule upath_tl [OF Cons.prems])
  have ih: "tbl g Q q = (if Q = P \<and> q = j # p then Some n else tbl f Q q)" using Cons.IH uq by blast
  show ?case
  proof (cases "Q = P \<and> q = j # p")
    case True
    have "tbl f P (j # p) = None" using t(3) l(1) by simp
    then have "tbl f Q (i # q) = None" using True by simp
    moreover have "tbl g Q q = Some n" using ih True by simp
    then have "tbl g Q (i # q) = None" using nt g [of n i] by simp
    moreover have "i # q \<noteq> j # p" using True by auto
    ultimately show ?thesis by simp
  next
    case False
    show ?thesis
    proof (cases "tbl f Q q")
      case (Some u)
      have un: "u \<noteq> n" using fresh [OF Q uq] Some by auto
      have gu: "tbl g Q (i # q) = pte_link (g u i)" using ih False Some by simp
      show ?thesis
      proof (cases "u = t \<and> i = j")
        case True
        then have "Q = P \<and> q = p" using tables_okD(1) [OF ok Q t(1) uq t(2) _ t(3)] Some by simp
        then have "tbl g Q (i # q) = Some n" using gu True l(2) g [of u i] by simp
        then show ?thesis using \<open>Q = P \<and> q = p\<close> True by simp
      next
        case ne: False
        then have "\<not> (Q = P \<and> i # q = j # p)" using Some t(3) by auto
        moreover have "pte_link (g u i) = pte_link (f u i)" using ne un g [of u i] by auto
        ultimately show ?thesis using gu Some by auto
      qed
    next
      case None
      then have "\<not> (Q = P \<and> i # q = j # p)" using t(3) by auto
      then show ?thesis using ih False None by simp
    qed
  qed
qed simp


section \<open>What an address space maps\<close>

text \<open>
  The leaf entry at a full path of four indices, and whether it maps a large page; an absent table reads as an empty
  entry.
\<close>

fun view :: "(u64 \<Rightarrow> nat \<Rightarrow> u64) \<Rightarrow> u64 \<Rightarrow> nat list \<Rightarrow> bool \<times> u64" where
  "view f Q [a, b, c, d] =
     (case tbl f Q [c, d] of
        None \<Rightarrow> (False, 0)
      | Some pd \<Rightarrow> if bit (f pd b) 0 \<and> bit (f pd b) 7 then (True, f pd b)
          else case pte_link (f pd b) of None \<Rightarrow> (False, 0) | Some pt \<Rightarrow> (False, f pt a))"
| "view f Q _ = (False, 0)"

definition vidx :: "u64 \<Rightarrow> nat list" where
  "vidx v = [pt_index v, pd_index v, pdpt_index v, pml4_index v]"

definition user :: "u64 \<Rightarrow> bool" where
  "user v \<longleftrightarrow> v < 0x800000000000"

definition fpath :: "nat list \<Rightarrow> bool" where
  "fpath w \<longleftrightarrow> length w = 4 \<and> (\<forall>i \<in> set w. i < 512) \<and> last w < 256"

lemma fpath_cases:
  assumes "fpath w"
  obtains a b c d where "w = [a, b, c, d]" "a < 512" "upath [b, c, d]" "upath [c, d]" "upath [d]"
proof -
  obtain a b c d where "w = [a, b, c, d]"
    using assms by (auto simp: fpath_def length_Suc_conv numeral_eq_Suc)
  then show ?thesis using that assms by (simp add: fpath_def upath_def)
qed

lemma index_lt: "pml4_index v < 512" "pdpt_index v < 512" "pd_index v < 512" "pt_index v < 512"
proof -
  have m: "unat (x AND 0x1FF) < 512" for x :: u64
  proof -
    have "x AND 0x1FF = take_bit 9 x" by (simp add: take_bit_eq_mask mask_eq_exp_minus_1)
    then show ?thesis using take_bit_nat_less_exp [of 9 "unat x"] by (simp add: unsigned_take_bit_eq)
  qed
  show "pml4_index v < 512" "pdpt_index v < 512" "pd_index v < 512" "pt_index v < 512"
    by (simp_all add: pml4_index_def pdpt_index_def pd_index_def pt_index_def m)
qed

lemma user_bits: "user v \<longleftrightarrow> take_bit 47 v = v"
proof -
  have "user v \<longleftrightarrow> unat v < 2 ^ 47" by (simp add: user_def word_less_nat_alt)
  also have "\<dots> \<longleftrightarrow> take_bit 47 (unat v) = unat v" by (simp add: take_bit_nat_eq_self_iff)
  also have "\<dots> \<longleftrightarrow> take_bit 47 v = v" by (simp add: word_unat_eq_iff unsigned_take_bit_eq)
  finally show ?thesis .
qed

lemma user_bit_lt: "user v \<Longrightarrow> bit v n \<Longrightarrow> n < 47"
  by (metis user_bits bit_take_bit_iff)

lemma field_bits: "bit (x AND 0x1FF :: u64) n \<longleftrightarrow> n < 9 \<and> bit x n"
proof -
  have "x AND 0x1FF = take_bit 9 x" by (simp add: take_bit_eq_mask mask_eq_exp_minus_1)
  then show ?thesis by (simp add: bit_take_bit_iff)
qed

lemma user_pml4: "user v \<Longrightarrow> pml4_index v < 256"
proof -
  assume u: "user v"
  define x where "x = drop_bit 39 v AND 0x1FF"
  have "n < 8" if "bit x n" for n
    using that user_bit_lt [OF u, of "39 + n"] by (simp add: x_def field_bits bit_drop_bit_eq)
  then have "take_bit 8 x = x" by (intro bit_word_eqI) (auto simp: bit_take_bit_iff)
  then have "unat x < 2 ^ 8" by (metis unsigned_take_bit_eq take_bit_nat_less_exp)
  then show ?thesis by (simp add: pml4_index_def x_def)
qed

lemma vidx_fpath: "user v \<Longrightarrow> fpath (vidx v)"
  using index_lt [of v] user_pml4 [of v] by (simp add: fpath_def vidx_def)

lemma vidx_eq:
  assumes "user v" "user w"
  shows "vidx v = vidx w \<longleftrightarrow> drop_bit 12 v = drop_bit 12 w"
proof
  assume "vidx v = vidx w"
  then have e: "drop_bit k v AND 0x1FF = drop_bit k w AND 0x1FF" if "k \<in> {12, 21, 30, 39}" for k
    using that by (auto simp: vidx_def pml4_index_def pdpt_index_def pd_index_def pt_index_def word_unat_eq_iff)
  have b: "bit v (k + n) = bit w (k + n)" if "k \<in> {12, 21, 30, 39}" "n < 9" for k n
  proof -
    have "bit (drop_bit k v AND 0x1FF) n = bit (drop_bit k w AND 0x1FF) n" by (simp only: e [OF that(1)])
    then show ?thesis using that(2) by (simp add: field_bits bit_drop_bit_eq)
  qed
  have "bit v (12 + n) = bit w (12 + n)" for n
  proof -
    consider "n < 9" | "9 \<le> n" "n < 18" | "18 \<le> n" "n < 27" | "27 \<le> n" "n < 36" | "36 \<le> n" by linarith
    then show ?thesis
    proof cases
      case 5
      then show ?thesis using user_bit_lt [OF assms(1), of "12 + n"] user_bit_lt [OF assms(2), of "12 + n"] by auto
    qed (use b [of 12 n] b [of 21 "n - 9"] b [of 30 "n - 18"] b [of 39 "n - 27"] in simp_all)
  qed
  then show "drop_bit 12 v = drop_bit 12 w" by (intro bit_word_eqI) (simp add: bit_drop_bit_eq)
next
  assume e: "drop_bit 12 v = drop_bit 12 w"
  have "drop_bit (12 + k) v = drop_bit (12 + k) w" for k
    using arg_cong [OF e, of "drop_bit k"] by (simp add: drop_bit_drop_bit add.commute)
  from this [of 0] this [of 9] this [of 18] this [of 27] show "vidx v = vidx w"
    by (simp add: vidx_def pml4_index_def pdpt_index_def pd_index_def pt_index_def)
qed


section \<open>Translation reads the view\<close>

lemma walk_pd_tbl:
  assumes ok: "tables_ok (vm_frame s) A" and P: "P \<in> A" and v: "user v"
  shows "walk_pd s P v = tbl (vm_frame s) P [pdpt_index v, pml4_index v]"
proof -
  let ?f = "vm_frame s" and ?i4 = "pml4_index v" and ?i3 = "pdpt_index v"
  have up: "upath [?i4]" "upath [?i3, ?i4]" using index_lt [of v] user_pml4 [OF v] by (simp_all add: upath_def)
  have h4: "\<not> bit (?f P ?i4) 7" if "bit (?f P ?i4) 0" using tables_okD(2) [OF ok P up(1), of P] that by simp
  have h3: "\<not> bit (?f (?f P ?i4 AND PTE_ADDR) ?i3) 7" if "bit (?f P ?i4) 0" "bit (?f (?f P ?i4 AND PTE_ADDR) ?i3) 0"
    using tables_okD(2) [OF ok P up(2), of "?f P ?i4 AND PTE_ADDR"] h4 [OF that(1)] that by (simp add: pte_link_def)
  show ?thesis using h4 h3 by (auto simp: walk_pd_def Let_def has_flag_bit pte_link_def)
qed

lemma translate_view:
  assumes "tables_ok (vm_frame s) A" "P \<in> A" "user v"
  shows "vmm_virt_to_phys s P v = (case view (vm_frame s) P (vidx v) of (huge, e) \<Rightarrow>
      if \<not> bit e 0 then 0 else if huge then (e AND PDE_ADDR) OR (v AND (HUGE_PAGE_SIZE - 1)) else (e AND PTE_ADDR) OR (v AND 0xFFF))"
    "vmm_get_pte_flags s P v = snd (view (vm_frame s) P (vidx v)) AND PTE_FLAGS"
  unfolding vmm_virt_to_phys_def vmm_get_pte_flags_def walk_pd_tbl [OF assms] vidx_def
  by (auto simp: Let_def has_flag_bit pte_link_def split: option.split)

section \<open>How the views change\<close>

lemma upath_inj:
  assumes "tables_ok f A" "P \<in> A" "Q \<in> A" "upath p" "upath q" "tbl f P p = Some t" "tbl f Q q = Some u"
  shows "t = u \<longleftrightarrow> P = Q \<and> p = q"
  using tables_okD(1) [OF assms(1-5)] assms(6,7) by auto

lemma view_set_pte:
  assumes ok: "tables_ok f A" and t: "P \<in> A" "upath p" "tbl f P p = Some t" "length p = 3"
    and g: "\<And>u i. g u i = (if u = t \<and> i = j then e else f u i)" and Q: "Q \<in> A" "fpath w"
  shows "view g Q w = (if Q = P \<and> w = j # p then (False, e) else view f Q w)"
proof -
  obtain a b c d where w: "w = [a, b, c, d]" "upath [b, c, d]" "upath [c, d]" using fpath_cases [OF Q(2)] by metis
  have tb: "tbl g Q q = tbl f Q q" if "upath q" for q using tbl_set_entry [OF ok t(1-3) _ g Q(1) that] t(4) by simp
  show ?thesis
  proof (cases "tbl f Q [c, d]")
    case None
    then have "tbl f Q [b, c, d] = None" by simp
    then have "\<not> (Q = P \<and> w = j # p)" using t(3) w(1) by auto
    then show ?thesis using None tb [OF w(3)] w(1) by auto
  next
    case (Some pd)
    have "pd \<noteq> t" using upath_inj [OF ok Q(1) t(1) w(3) t(2) Some t(3)] t(4) by auto
    then have e: "g pd b = f pd b" using g by simp
    show ?thesis
    proof (cases "pte_link (f pd b)")
      case None
      then have "tbl f Q [b, c, d] = None" using Some by simp
      then have "\<not> (Q = P \<and> w = j # p)" using t(3) w(1) by auto
      then show ?thesis using None Some tb [OF w(3)] w(1) e by auto
    next
      case pt: (Some pt)
      then have q: "tbl f Q [b, c, d] = Some pt" using Some by simp
      have "pt = t \<longleftrightarrow> Q = P \<and> [b, c, d] = p" by (rule upath_inj [OF ok Q(1) t(1) w(2) t(2) q t(3)])
      moreover have "\<not> (bit (f pd b) 0 \<and> bit (f pd b) 7)" using pt by (auto simp: pte_link_def split: if_splits)
      ultimately show ?thesis using Some pt tb [OF w(3)] w(1) e g [of pt a] by auto
    qed
  qed
qed

lemma view_add_table:
  assumes ok: "tables_ok f A" and t: "P \<in> A" "upath (j # p)" "tbl f P p = Some t" and l: "\<not> bit (f t j) 0" "pte_link e = Some n"
    and g: "\<And>u i. g u i = (if u = t \<and> i = j then e else if u = n then 0 else f u i)"
    and fresh: "\<And>Q q. Q \<in> A \<Longrightarrow> upath q \<Longrightarrow> tbl f Q q \<noteq> Some n" and Q: "Q \<in> A" "fpath w"
  shows "view g Q w = view f Q w"
proof -
  obtain a b c d where w: "w = [a, b, c, d]" "upath [b, c, d]" "upath [c, d]" using fpath_cases [OF Q(2)] by metis
  have up: "upath p" by (rule upath_tl [OF t(2)])
  have l0: "pte_link (f t j) = None" using l(1) by (simp add: pte_link_def)
  have nt: "n \<noteq> t" using fresh [OF t(1) up] t(3) by auto
  have tb: "tbl g Q q = (if Q = P \<and> q = j # p then Some n else tbl f Q q)" if "upath q" for q
    by (rule tbl_add_table [OF ok t(1) up t(3) l0 l(2) g fresh Q(1) that])
  show ?thesis
  proof (cases "Q = P \<and> [c, d] = j # p")
    case True
    then have "tbl f Q [c, d] = None" using t(3) l0 by auto
    moreover have "tbl g Q [c, d] = Some n" using tb [OF w(3)] True by simp
    moreover have "g n b = 0" using g [of n b] nt by simp
    ultimately show ?thesis using w(1) by simp
  next
    case False
    then have c: "tbl g Q [c, d] = tbl f Q [c, d]" using tb [OF w(3)] by auto
    show ?thesis
    proof (cases "tbl f Q [c, d]")
      case (Some pd)
      have pn: "pd \<noteq> n" using fresh [OF Q(1) w(3)] Some by auto
      show ?thesis
      proof (cases "pd = t \<and> b = j")
        case True
        have "g n a = 0" using g [of n a] nt by simp
        moreover have "g pd b = e" using g [of pd b] True by simp
        moreover have "\<not> bit e 7" using l(2) by (auto simp: pte_link_def split: if_splits)
        ultimately have "view g Q w = (False, 0)" using c Some w(1) l(2) by simp
        then show ?thesis using Some True w(1) l(1) l0 by simp
      next
        case ne: False
        then have e: "g pd b = f pd b" using g [of pd b] pn by auto
        have "g pt a = f pt a" if pt: "pte_link (f pd b) = Some pt" for pt
        proof -
          have q: "tbl f Q [b, c, d] = Some pt" using Some pt by simp
          have "p \<noteq> [b, c, d]" using t(2) by (auto simp: upath_def)
          then have "pt \<noteq> t" using upath_inj [OF ok Q(1) t(1) w(2) up q t(3)] by auto
          moreover have "pt \<noteq> n" using fresh [OF Q(1) w(2)] q by auto
          ultimately show ?thesis using g [of pt a] by simp
        qed
        then show ?thesis using c Some w(1) e by (auto split: option.split)
      qed
    qed (use c w in simp)
  qed
qed

end
