(* ===== verification/Vmm_Ops.thy ===== *)
theory Vmm_Ops
  imports Vmm_Inv
begin

text \<open>The operations of the virtual memory manager keep the trees of tables and update the views.\<close>

section \<open>Allocation\<close>

definition used_mono :: "vmm \<Rightarrow> vmm \<Rightarrow> bool" where
  "used_mono s s' \<longleftrightarrow> pmm_wf (vm_pmm s') \<and> used_bytes (vm_pmm s) \<subseteq> used_bytes (vm_pmm s')"

lemma used_mono_trans [trans]: "used_mono s s1 \<Longrightarrow> used_mono s1 s2 \<Longrightarrow> used_mono s s2"
  by (auto simp: used_mono_def)

lemma used_mono_same: "pmm_wf (vm_pmm s) \<Longrightarrow> vm_pmm s' = vm_pmm s \<Longrightarrow> used_mono s s'"
  by (simp add: used_mono_def)

definition fresh_frame :: "vmm \<Rightarrow> u64 \<Rightarrow> bool" where
  "fresh_frame s n \<longleftrightarrow> page_at (unat n) \<inter> used_bytes (vm_pmm s) = {}"

lemma fresh_not_in_use: "fresh_frame s n \<Longrightarrow> in_use s t \<Longrightarrow> t \<noteq> n"
proof -
  have "unat t \<in> page_at (unat t)" by (simp add: page_at_def)
  then show "fresh_frame s n \<Longrightarrow> in_use s t \<Longrightarrow> t \<noteq> n" by (auto simp: fresh_frame_def in_use_def)
qed

lemma in_use_mono: "in_use s t \<Longrightarrow> used_mono s s' \<Longrightarrow> in_use s' t"
  by (auto simp: in_use_def used_mono_def)

lemma frame_alloc_ok:
  assumes "pmm_wf (vm_pmm s)"
  shows "\<exists>r s'. frame_alloc s = Some (r, s') \<and> s' = s\<lparr> vm_pmm := vm_pmm s' \<rparr> \<and> used_mono s s' \<and>
    (r = None \<longrightarrow> s' = s \<and> pmm_exhausted (vm_pmm s)) \<and>
    (\<forall>n. r = Some n \<longrightarrow> in_use s' n \<and> fresh_frame s n \<and> \<not> pmm_exhausted (vm_pmm s))"
proof -
  obtain a q where a: "pmm_alloc_page (vm_pmm s) = Some (a, q)" using pmm_frames.alloc_total [OF assms] by blast
  show ?thesis
  proof (cases "a = 0")
    case True
    then have "q = vm_pmm s \<and> pmm_exhausted (vm_pmm s)" using pmm_frames.alloc_none [OF assms] a by simp
    then show ?thesis using a True assms by (simp add: frame_alloc_def used_mono_def)
  next
    case False
    note f = pmm_frames.alloc_some [OF assms a False]
    have "unat (of_nat a :: u64) = a" using f by (intro unat_of_nat_lt) (simp add: le_less_trans)
    then show ?thesis
      using a False f frame_addr_of_nat [of a]
      by (auto simp: frame_alloc_def used_mono_def in_use_def fresh_frame_def)
  qed
qed

lemma alloc_page_table_ok:
  assumes "pmm_wf (vm_pmm s)"
  shows "\<exists>r s'. alloc_page_table s = Some (r, s') \<and> used_mono s s' \<and>
    (r = None \<longrightarrow> s' = s \<and> pmm_exhausted (vm_pmm s)) \<and>
    (\<forall>n. r = Some n \<longrightarrow> in_use s' n \<and> fresh_frame s n \<and> \<not> pmm_exhausted (vm_pmm s) \<and>
       s' = s\<lparr> vm_pmm := vm_pmm s', vm_frame := (vm_frame s)(n := \<lambda>i. 0) \<rparr>)"
proof -
  obtain r s1 where a: "frame_alloc s = Some (r, s1)" "s1 = s\<lparr> vm_pmm := vm_pmm s1 \<rparr>" "used_mono s s1"
    "r = None \<longrightarrow> s1 = s \<and> pmm_exhausted (vm_pmm s)"
    "\<And>n. r = Some n \<Longrightarrow> in_use s1 n \<and> fresh_frame s n \<and> \<not> pmm_exhausted (vm_pmm s)"
    using frame_alloc_ok [OF assms] by blast
  show ?thesis
  proof (cases r)
    case None
    then show ?thesis using a by (simp add: alloc_page_table_def)
  next
    case (Some n)
    have z: "zero_frame n s1 = s\<lparr> vm_pmm := vm_pmm s1, vm_frame := (vm_frame s)(n := \<lambda>i. 0) \<rparr>"
      using arg_cong [OF a(2), of "zero_frame n"] by (simp add: zero_frame_def)
    have "used_mono s (zero_frame n s1)" "in_use (zero_frame n s1) n"
      using a(3) a(5) [OF Some] by (simp_all add: zero_frame_def used_mono_def in_use_def)
    moreover have "alloc_page_table s = Some (Some n, zero_frame n s1)" using a(1) Some by (simp add: alloc_page_table_def)
    ultimately show ?thesis using a(5) [OF Some] z by (intro exI [of _ "Some n"] exI [of _ "zero_frame n s1"]) (simp add: zero_frame_def)
  qed
qed

section \<open>Changing a table\<close>

lemma vm_wfD:
  assumes "vm_wf s A"
  shows "pmm_wf (vm_pmm s)" "tables_ok (vm_frame s) A" "P \<in> A \<Longrightarrow> upath p \<Longrightarrow> tbl (vm_frame s) P p = Some t \<Longrightarrow> in_use s t"
  using assms unfolding vm_wf_def by blast+

lemma vm_set_entry:
  assumes wf: "vm_wf s A" and t: "P \<in> A" "upath p" "tbl (vm_frame s) P p = Some t"
    and l: "length p < 3 \<longrightarrow> pte_link e = pte_link (vm_frame s t j)" "length p \<le> 1 \<longrightarrow> \<not> (bit e 0 \<and> bit e 7)"
    and g: "\<And>u i. vm_frame s' u i = (if u = t \<and> i = j then e else vm_frame s u i)" and m: "used_mono s s'"
  shows "vm_wf s' A" "Q \<in> A \<Longrightarrow> upath q \<Longrightarrow> tbl (vm_frame s') Q q = tbl (vm_frame s) Q q"
proof -
  let ?f = "vm_frame s" and ?g = "vm_frame s'"
  note ok = vm_wfD(2) [OF wf]
  have tb: "tbl ?g Q q = tbl ?f Q q" if "Q \<in> A" "upath q" for Q q
    by (rule tbl_set_entry [OF ok t l(1) g that])
  then show "Q \<in> A \<Longrightarrow> upath q \<Longrightarrow> tbl ?g Q q = tbl ?f Q q" .
  have "\<not> bit (?g u i) 7" if "Q \<in> A" "upath (i # q)" "length q \<le> 1" "tbl ?g Q q = Some u" "bit (?g u i) 0" for Q q u i
  proof -
    have u: "tbl ?f Q q = Some u" "upath q" using tb [OF that(1)] that(2,4) upath_tl by auto
    show ?thesis
    proof (cases "u = t \<and> i = j")
      case True
      then have "q = p" using upath_inj [OF ok that(1) t(1) u(2) t(2) u(1) t(3)] by simp
      then show ?thesis using l(2) that(3,5) True g [of u i] by auto
    next
      case False
      then have "?g u i = ?f u i" using g [of u i] by auto
      then show ?thesis using tables_okD(2) [OF ok that(1-3) u(1)] that(5) by simp
    qed
  qed
  moreover have "P = Q \<and> p = q"
    if "P \<in> A" "Q \<in> A" "upath p" "upath q" "tbl ?g P p = Some t" "tbl ?g Q q = Some t" for P Q p q t
    using tables_okD(1) [OF ok that(1-4)] that(5,6) tb [OF that(1,3)] tb [OF that(2,4)] by simp
  ultimately have "tables_ok ?g A" unfolding tables_ok_def by blast
  moreover have "in_use s' u" if "Q \<in> A" "upath q" "tbl ?g Q q = Some u" for Q q u
    using vm_wfD(3) [OF wf that(1,2), of u] tb [OF that(1,2)] that(3) in_use_mono [OF _ m] by simp
  ultimately show "vm_wf s' A" using m unfolding vm_wf_def used_mono_def by blast
qed

lemma vm_add_table:
  assumes wf: "vm_wf s A" and t: "P \<in> A" "upath (j # p)" "tbl (vm_frame s) P p = Some t" and l: "\<not> bit (vm_frame s t j) 0" "pte_link e = Some n"
    and g: "\<And>u i. vm_frame s' u i = (if u = t \<and> i = j then e else if u = n then 0 else vm_frame s u i)"
    and m: "used_mono s s'" and n: "in_use s' n" "fresh_frame s n"
  shows "vm_wf s' A" "Q \<in> A \<Longrightarrow> upath q \<Longrightarrow> tbl (vm_frame s') Q q = (if Q = P \<and> q = j # p then Some n else tbl (vm_frame s) Q q)"
    "Q \<in> A \<Longrightarrow> fpath w \<Longrightarrow> view (vm_frame s') Q w = view (vm_frame s) Q w"
proof -
  let ?f = "vm_frame s" and ?g = "vm_frame s'"
  note ok = vm_wfD(2) [OF wf]
  have up: "upath p" by (rule upath_tl [OF t(2)])
  have fresh: "tbl ?f Q q \<noteq> Some n" if "Q \<in> A" "upath q" for Q q
    using vm_wfD(3) [OF wf that] fresh_not_in_use [OF n(2)] by blast
  have l0: "pte_link (?f t j) = None" using l(1) by (simp add: pte_link_def)
  have tb: "tbl ?g Q q = (if Q = P \<and> q = j # p then Some n else tbl ?f Q q)" if "Q \<in> A" "upath q" for Q q
    by (rule tbl_add_table [OF ok t(1) up t(3) l0 l(2) g fresh that])
  then show "Q \<in> A \<Longrightarrow> upath q \<Longrightarrow> tbl ?g Q q = (if Q = P \<and> q = j # p then Some n else tbl ?f Q q)" .
  show "Q \<in> A \<Longrightarrow> fpath w \<Longrightarrow> view ?g Q w = view ?f Q w"
    by (rule view_add_table [OF ok t l g fresh])
  have "\<not> bit (?g u i) 7" if "Q \<in> A" "upath (i # q)" "length q \<le> 1" "tbl ?g Q q = Some u" "bit (?g u i) 0" for Q q u i
  proof -
    have e7: "\<not> bit e 7" using l(2) by (auto simp: pte_link_def split: if_splits)
    have uq: "upath q" by (rule upath_tl [OF that(2)])
    show ?thesis
    proof (cases "u = t \<and> i = j \<or> u = n")
      case True
      then show ?thesis using e7 that(5) g [of u i] by auto
    next
      case False
      then have "?g u i = ?f u i" "tbl ?f Q q = Some u" using g [of u i] tb [OF that(1) uq] that(4) by (auto split: if_splits)
      then show ?thesis using tables_okD(2) [OF ok that(1-3)] that(5) by simp
    qed
  qed
  moreover have "P' = Q \<and> p' = q"
    if "P' \<in> A" "Q \<in> A" "upath p'" "upath q" "tbl ?g P' p' = Some u" "tbl ?g Q q = Some u" for P' Q p' q u
    using tables_okD(1) [OF ok that(1-4)] that(5,6) tb [OF that(1,3)] tb [OF that(2,4)] fresh [OF that(1,3)] fresh [OF that(2,4)]
    by (auto split: if_splits)
  ultimately have "tables_ok ?g A" unfolding tables_ok_def by blast
  moreover have "in_use s' u" if "Q \<in> A" "upath q" "tbl ?g Q q = Some u" for Q q u
    using vm_wfD(3) [OF wf that(1,2), of u] tb [OF that(1,2)] that(3) in_use_mono [OF _ m, of u] n(1) by (auto split: if_splits)
  ultimately show "vm_wf s' A" using m unfolding vm_wf_def used_mono_def by blast
qed

text \<open>A frame in use that is no table holds data; the operations on tables leave it alone.\<close>

definition data_frame :: "vmm \<Rightarrow> u64 set \<Rightarrow> u64 \<Rightarrow> bool" where
  "data_frame s A u \<longleftrightarrow> in_use s u \<and> (\<forall>Q \<in> A. \<forall>q. upath q \<longrightarrow> tbl (vm_frame s) Q q \<noteq> Some u)"

definition kept :: "u64 set \<Rightarrow> vmm \<Rightarrow> vmm \<Rightarrow> bool" where
  "kept A s s' \<longleftrightarrow> (\<forall>u. data_frame s A u \<longrightarrow> data_frame s' A u \<and> vm_frame s' u = vm_frame s u)"

lemma kept_refl [simp]: "kept A s s"
  by (simp add: kept_def)

lemma kept_trans [trans]: "kept A s s1 \<Longrightarrow> kept A s1 s2 \<Longrightarrow> kept A s s2"
  by (simp add: kept_def)

lemma keptI:
  assumes "used_mono s s'" "\<And>u Q q. data_frame s A u \<Longrightarrow> Q \<in> A \<Longrightarrow> upath q \<Longrightarrow> tbl (vm_frame s') Q q = Some u \<Longrightarrow> tbl (vm_frame s) Q q = Some u"
    "\<And>u i. data_frame s A u \<Longrightarrow> vm_frame s' u i = vm_frame s u i"
  shows "kept A s s'"
  unfolding kept_def
proof (intro allI impI conjI)
  fix u assume u: "data_frame s A u"
  then have "in_use s' u" using in_use_mono [OF _ assms(1)] by (simp add: data_frame_def)
  then show "data_frame s' A u" using assms(2) [OF u] u unfolding data_frame_def by blast
  show "vm_frame s' u = vm_frame s u" by (rule ext) (rule assms(3) [OF u])
qed

lemma data_frame_not_table: "data_frame s A u \<Longrightarrow> Q \<in> A \<Longrightarrow> upath q \<Longrightarrow> tbl (vm_frame s) Q q = Some t \<Longrightarrow> u \<noteq> t"
  unfolding data_frame_def by blast

lemma kept_set_entry:
  assumes wf: "vm_wf s A" and t: "P \<in> A" "upath p" "tbl (vm_frame s) P p = Some t"
    and l: "length p < 3 \<longrightarrow> pte_link e = pte_link (vm_frame s t j)" "length p \<le> 1 \<longrightarrow> \<not> (bit e 0 \<and> bit e 7)"
    and g: "\<And>u i. vm_frame s' u i = (if u = t \<and> i = j then e else vm_frame s u i)" and m: "used_mono s s'"
  shows "kept A s s'"
proof (rule keptI [OF m])
  fix u Q q i
  assume u: "data_frame s A u"
  show "tbl (vm_frame s) Q q = Some u" if "Q \<in> A" "upath q" "tbl (vm_frame s') Q q = Some u"
    using vm_set_entry(2) [OF wf t l g m that(1,2)] that(3) by simp
  show "vm_frame s' u i = vm_frame s u i" using g [of u i] data_frame_not_table [OF u t] by simp
qed

lemma kept_add_table:
  assumes wf: "vm_wf s A" and t: "P \<in> A" "upath (j # p)" "tbl (vm_frame s) P p = Some t" and l: "\<not> bit (vm_frame s t j) 0" "pte_link e = Some n"
    and g: "\<And>u i. vm_frame s' u i = (if u = t \<and> i = j then e else if u = n then 0 else vm_frame s u i)"
    and m: "used_mono s s'" and n: "in_use s' n" "fresh_frame s n"
  shows "kept A s s'"
proof (rule keptI [OF m])
  fix u Q q i
  assume u: "data_frame s A u"
  then have un: "u \<noteq> n" using fresh_not_in_use [OF n(2)] by (simp add: data_frame_def)
  show "tbl (vm_frame s) Q q = Some u" if "Q \<in> A" "upath q" "tbl (vm_frame s') Q q = Some u"
    using vm_add_table(2) [OF wf t l g m n that(1,2)] that(3) un by (auto split: if_splits)
  show "vm_frame s' u i = vm_frame s u i" using g [of u i] data_frame_not_table [OF u t(1) upath_tl [OF t(2)] t(3)] un by simp
qed

section \<open>Mapping and unmapping\<close>

lemma get_or_create_ok:
  assumes wf: "vm_wf s A" and t: "P \<in> A" "upath (j # p)" "tbl (vm_frame s) P p = Some t" and fl: "fl \<in> {0, VMM_FLAG_USER}"
  shows "\<exists>r s'. get_or_create_table t j fl s = Some (r, s') \<and> vm_wf s' A \<and> used_mono s s' \<and> kept A s s' \<and>
    (\<forall>Q \<in> A. \<forall>w. fpath w \<longrightarrow> view (vm_frame s') Q w = view (vm_frame s) Q w) \<and>
    (r = None \<longrightarrow> s' = s \<and> (pmm_exhausted (vm_pmm s) \<or> bit (vm_frame s t j) 0 \<and> bit (vm_frame s t j) 7)) \<and>
    (\<forall>n. r = Some n \<longrightarrow> tbl (vm_frame s') P (j # p) = Some n)"
proof (cases "bit (vm_frame s t j) 0")
  case True
  have m: "used_mono s s" by (rule used_mono_same [OF vm_wfD(1) [OF wf]]) simp
  show ?thesis using True wf m t(3)
    by (auto simp: get_or_create_table_def Let_def has_flag_bit has_bit_7 pte_link_def)
next
  case False
  obtain r s1 where a: "alloc_page_table s = Some (r, s1)" "used_mono s s1" "r = None \<longrightarrow> s1 = s \<and> pmm_exhausted (vm_pmm s)"
    "\<And>n. r = Some n \<Longrightarrow> in_use s1 n \<and> fresh_frame s n \<and> s1 = s\<lparr> vm_pmm := vm_pmm s1, vm_frame := (vm_frame s)(n := \<lambda>i. 0) \<rparr>"
    using alloc_page_table_ok [OF vm_wfD(1) [OF wf]] by blast
  show ?thesis
  proof (cases r)
    case None
    then show ?thesis using a(1-3) wf False by (simp add: get_or_create_table_def Let_def has_flag_bit)
  next
    case (Some n)
    define e where "e = n OR VMM_FLAG_PRESENT OR VMM_FLAG_WRITE OR fl"
    have n: "in_use s1 n" "fresh_frame s n" "vm_frame s1 = (vm_frame s)(n := \<lambda>i. 0)" using a(4) [OF Some] by (metis, metis, metis vmm.select_convs(1) vmm.surjective vmm.update_convs(1,2))
    have le: "pte_link e = Some n" unfolding e_def by (rule pte_link_new [OF _ fl]) (use n(1) in \<open>simp add: in_use_def\<close>)
    have nt: "n \<noteq> t" using fresh_not_in_use [OF n(2) vm_wfD(3) [OF wf t(1) upath_tl [OF t(2)] t(3)]] by simp
    define s' where "s' = set_entry t j e s1"
    have g: "vm_frame s' u i = (if u = t \<and> i = j then e else if u = n then 0 else vm_frame s u i)" for u i
      using nt by (simp add: s'_def set_entry_def n(3))
    have m: "used_mono s s'" "in_use s' n" using a(2) n(1) by (simp_all add: s'_def set_entry_def used_mono_def in_use_def)
    have "get_or_create_table t j fl s = Some (Some n, s')"
      using a(1) Some False by (simp add: get_or_create_table_def Let_def has_flag_bit s'_def e_def)
    moreover have "tbl (vm_frame s') P (j # p) = Some n" using vm_add_table(2) [OF wf t False le g m n(2) t(1,2)] by simp
    ultimately show ?thesis
      using vm_add_table(1,3) [OF wf t False le g m n(2)] kept_add_table [OF wf t False le g m n(2)] m(1) by (auto simp del: tbl.simps)
  qed
qed

lemma user_bit_flags: "fl AND VMM_FLAG_USER \<in> {0, VMM_FLAG_USER}"
proof -
  have "fl AND VMM_FLAG_USER = (if bit fl 2 then VMM_FLAG_USER else 0)"
    by (rule bit_word_eqI) (auto simp: pte_bits)
  then show ?thesis by simp
qed

lemma vidx_paths:
  assumes "user v"
  shows "upath [pml4_index v]" "upath [pdpt_index v, pml4_index v]" "upath [pd_index v, pdpt_index v, pml4_index v]"
  using index_lt [of v] user_pml4 [OF assms] by (simp_all add: upath_def)

lemma vmm_map_page_ok:
  assumes wf: "vm_wf s A" and P: "P \<in> A" and v: "user v"
  shows "\<exists>ok s'. vmm_map_page P v phys fl s = Some (ok, s') \<and> vm_wf s' A \<and> used_mono s s' \<and> kept A s s' \<and>
    (\<forall>Q \<in> A. \<forall>w. fpath w \<longrightarrow> view (vm_frame s') Q w =
       (if ok \<and> Q = P \<and> w = vidx v then (False, (phys AND PTE_ADDR) OR fl OR VMM_FLAG_PRESENT) else view (vm_frame s) Q w)) \<and>
    (\<not> ok \<longrightarrow> pmm_exhausted (vm_pmm s') \<or> fst (view (vm_frame s) P (vidx v)))"
proof -
  let ?fl = "fl AND VMM_FLAG_USER"
  note up = vidx_paths [OF v]
  obtain r1 s1 where g1: "get_or_create_table P (pml4_index v) ?fl s = Some (r1, s1)" "vm_wf s1 A" "used_mono s s1 \<and> kept A s s1"
    "\<And>Q w. Q \<in> A \<Longrightarrow> fpath w \<Longrightarrow> view (vm_frame s1) Q w = view (vm_frame s) Q w"
    "r1 = None \<longrightarrow> s1 = s \<and> (pmm_exhausted (vm_pmm s) \<or> bit (vm_frame s P (pml4_index v)) 0 \<and> bit (vm_frame s P (pml4_index v)) 7)"
    "\<And>n. r1 = Some n \<Longrightarrow> tbl (vm_frame s1) P [pml4_index v] = Some n"
    using get_or_create_ok [OF wf P up(1) _ user_bit_flags] by fastforce
  show ?thesis
  proof (cases r1)
    case None
    have "\<not> (bit (vm_frame s P (pml4_index v)) 0 \<and> bit (vm_frame s P (pml4_index v)) 7)"
      using tables_okD(2) [OF vm_wfD(2) [OF wf] P up(1)] by auto
    then show ?thesis using g1 None by (auto simp: vmm_map_page_def)
  next
    case (Some pdpt)
    have t1: "tbl (vm_frame s1) P [pml4_index v] = Some pdpt" by (rule g1(6) [OF Some])
    obtain r2 s2 where g2: "get_or_create_table pdpt (pdpt_index v) ?fl s1 = Some (r2, s2)" "vm_wf s2 A" "used_mono s1 s2 \<and> kept A s1 s2"
      "\<And>Q w. Q \<in> A \<Longrightarrow> fpath w \<Longrightarrow> view (vm_frame s2) Q w = view (vm_frame s1) Q w"
      "r2 = None \<longrightarrow> s2 = s1 \<and> (pmm_exhausted (vm_pmm s1) \<or> bit (vm_frame s1 pdpt (pdpt_index v)) 0 \<and> bit (vm_frame s1 pdpt (pdpt_index v)) 7)"
      "\<And>n. r2 = Some n \<Longrightarrow> tbl (vm_frame s2) P [pdpt_index v, pml4_index v] = Some n"
      using get_or_create_ok [OF g1(2) P up(2) t1 user_bit_flags] by blast
    have m2: "used_mono s s2 \<and> kept A s s2" using g1(3) g2(3) used_mono_trans kept_trans by blast
    show ?thesis
    proof (cases r2)
      case None
      have "\<not> (bit (vm_frame s1 pdpt (pdpt_index v)) 0 \<and> bit (vm_frame s1 pdpt (pdpt_index v)) 7)"
        using tables_okD(2) [OF vm_wfD(2) [OF g1(2)] P up(2) _ t1] by auto
      then show ?thesis using g1 g2 m2 None Some by (auto simp: vmm_map_page_def)
    next
      case pd: (Some pd)
      have t2: "tbl (vm_frame s2) P [pdpt_index v, pml4_index v] = Some pd" by (rule g2(6) [OF pd])
      obtain r3 s3 where g3: "get_or_create_table pd (pd_index v) ?fl s2 = Some (r3, s3)" "vm_wf s3 A" "used_mono s2 s3 \<and> kept A s2 s3"
        "\<And>Q w. Q \<in> A \<Longrightarrow> fpath w \<Longrightarrow> view (vm_frame s3) Q w = view (vm_frame s2) Q w"
        "r3 = None \<longrightarrow> s3 = s2 \<and> (pmm_exhausted (vm_pmm s2) \<or> bit (vm_frame s2 pd (pd_index v)) 0 \<and> bit (vm_frame s2 pd (pd_index v)) 7)"
        "\<And>n. r3 = Some n \<Longrightarrow> tbl (vm_frame s3) P [pd_index v, pdpt_index v, pml4_index v] = Some n"
        using get_or_create_ok [OF g2(2) P up(3) t2 user_bit_flags] by blast
      have m3: "used_mono s s3 \<and> kept A s s3" using m2 g3(3) used_mono_trans kept_trans by blast
      have vw: "view (vm_frame s3) Q w = view (vm_frame s) Q w" if "Q \<in> A" "fpath w" for Q w
        using g1(4) g2(4) g3(4) that by simp
      show ?thesis
      proof (cases r3)
        case None
        have "fst (view (vm_frame s) P (vidx v))" if "bit (vm_frame s2 pd (pd_index v)) 0 \<and> bit (vm_frame s2 pd (pd_index v)) 7"
        proof -
          have "fst (view (vm_frame s2) P (vidx v))" using t2 that by (simp add: vidx_def)
          then show ?thesis using vw [OF P vidx_fpath [OF v]] g3(4) [OF P vidx_fpath [OF v]] by simp
        qed
        then show ?thesis using g1(1) g2(1) g3 m3 None Some pd vw by (auto simp: vmm_map_page_def)
      next
        case pt: (Some pt)
        define e where "e = (phys AND PTE_ADDR) OR fl OR VMM_FLAG_PRESENT"
        define s' where "s' = vmm_shootdown_page v (set_entry pt (pt_index v) e s3)"
        have g: "vm_frame s' u i = (if u = pt \<and> i = pt_index v then e else vm_frame s3 u i)" for u i
          by (simp add: s'_def vmm_shootdown_page_def set_entry_def)
        have m: "used_mono s3 s'" using vm_wfD(1) [OF g3(2)] by (simp add: s'_def vmm_shootdown_page_def set_entry_def used_mono_def)
        have t3: "tbl (vm_frame s3) P [pd_index v, pdpt_index v, pml4_index v] = Some pt" by (rule g3(6) [OF pt])
        have "vmm_map_page P v phys fl s = Some (True, s')"
          using g1(1) g2(1) g3(1) Some pd pt by (simp add: vmm_map_page_def s'_def e_def)
        moreover have "vm_wf s' A" by (rule vm_set_entry(1) [OF g3(2) P up(3) t3 _ _ g m]) simp_all
        moreover have "view (vm_frame s') Q w = (if Q = P \<and> w = vidx v then (False, e) else view (vm_frame s) Q w)" if "Q \<in> A" "fpath w" for Q w
          using view_set_pte [OF vm_wfD(2) [OF g3(2)] P up(3) t3 _ g that] vw [OF that] by (simp add: vidx_def)
        moreover have "kept A s3 s'" by (rule kept_set_entry [OF g3(2) P up(3) t3 _ _ g m]) simp_all
        then have "used_mono s s' \<and> kept A s s'" using m3 m used_mono_trans kept_trans by blast
        ultimately show ?thesis using e_def by auto
      qed
    qed
  qed
qed


lemma vmm_unmap_page_ok:
  assumes wf: "vm_wf s A" and P: "P \<in> A" and v: "user v" and h: "\<not> fst (view (vm_frame s) P (vidx v))"
  shows "vm_wf (vmm_unmap_page P v s) A \<and> vm_pmm (vmm_unmap_page P v s) = vm_pmm s \<and> kept A s (vmm_unmap_page P v s) \<and>
    (\<forall>Q \<in> A. \<forall>w. fpath w \<longrightarrow> view (vm_frame (vmm_unmap_page P v s)) Q w = (if Q = P \<and> w = vidx v then (False, 0) else view (vm_frame s) Q w))"
proof -
  let ?f = "vm_frame s"
  note up = vidx_paths [OF v] and ok = vm_wfD(2) [OF wf]
  note w = walk_pd_tbl [OF ok P v]
  consider (absent) "vmm_unmap_page P v s = s" "view ?f P (vidx v) = (False, 0)"
    | (present) pt where "tbl ?f P [pd_index v, pdpt_index v, pml4_index v] = Some pt"
        "vmm_unmap_page P v s = vmm_shootdown_page v (set_entry pt (pt_index v) 0 s)"
  proof (cases "tbl ?f P [pdpt_index v, pml4_index v]")
    case None
    then show ?thesis using that(1) w by (simp add: vmm_unmap_page_def vidx_def)
  next
    case (Some pd)
    then have nh: "\<not> (bit (?f pd (pd_index v)) 0 \<and> bit (?f pd (pd_index v)) 7)" using h by (auto simp: vidx_def)
    show ?thesis
    proof (cases "bit (?f pd (pd_index v)) 0")
      case True
      then have l: "pte_link (?f pd (pd_index v)) = Some (?f pd (pd_index v) AND PTE_ADDR)" using nh by (simp add: pte_link_def)
      have "tbl ?f P [pd_index v, pdpt_index v, pml4_index v] = Some (?f pd (pd_index v) AND PTE_ADDR)" using Some l by simp
      then show ?thesis using that(2) Some w True by (simp add: vmm_unmap_page_def Let_def has_flag_bit)
    next
      case False
      then have "pte_link (?f pd (pd_index v)) = None" by (simp add: pte_link_def)
      then show ?thesis using that(1) Some w False by (simp add: vmm_unmap_page_def vidx_def Let_def has_flag_bit)
    qed
  qed
  then show ?thesis
  proof cases
    case absent
    then show ?thesis using wf by auto
  next
    case present
    define s' where "s' = vmm_unmap_page P v s"
    have g: "vm_frame s' u i = (if u = pt \<and> i = pt_index v then 0 else ?f u i)" for u i
      by (simp add: s'_def present(2) vmm_shootdown_page_def set_entry_def)
    have m: "vm_pmm s' = vm_pmm s" by (simp add: s'_def present(2) vmm_shootdown_page_def set_entry_def)
    have "vm_wf s' A" by (rule vm_set_entry(1) [OF wf P up(3) present(1) _ _ g used_mono_same [OF vm_wfD(1) [OF wf] m]]) simp_all
    moreover have "kept A s s'" by (rule kept_set_entry [OF wf P up(3) present(1) _ _ g used_mono_same [OF vm_wfD(1) [OF wf] m]]) simp_all
    ultimately show ?thesis
      using view_set_pte [OF ok P up(3) present(1) _ g] m unfolding s'_def [symmetric] by (simp add: vidx_def)
  qed
qed

lemma vmm_update_flags_ok:
  assumes wf: "vm_wf s A" and P: "P \<in> A" and v: "user v" and h: "view (vm_frame s) P (vidx v) = (False, e)"
  shows "fst (vmm_update_flags P v fl s) = bit e 0 \<and> vm_wf (snd (vmm_update_flags P v fl s)) A \<and>
    vm_pmm (snd (vmm_update_flags P v fl s)) = vm_pmm s \<and> kept A s (snd (vmm_update_flags P v fl s)) \<and>
    (\<forall>Q \<in> A. \<forall>w. fpath w \<longrightarrow> view (vm_frame (snd (vmm_update_flags P v fl s))) Q w =
       (if bit e 0 \<and> Q = P \<and> w = vidx v then (False, (e AND PTE_ADDR) OR fl OR VMM_FLAG_PRESENT) else view (vm_frame s) Q w))"
proof -
  let ?f = "vm_frame s" and ?e = "(e AND PTE_ADDR) OR fl OR VMM_FLAG_PRESENT"
  note up = vidx_paths [OF v] and ok = vm_wfD(2) [OF wf]
  note w = walk_pd_tbl [OF ok P v]
  show ?thesis
  proof (cases "bit e 0")
    case False
    then have "vmm_update_flags P v fl s = (False, s)"
      using h w by (auto simp: vmm_update_flags_def vidx_def Let_def has_flag_bit pte_link_def split: option.splits if_splits)
    then show ?thesis using False wf by simp
  next
    case True
    then obtain pd where pd: "tbl ?f P [pdpt_index v, pml4_index v] = Some pd" using h by (auto simp: vidx_def split: option.splits)
    define pt where "pt = ?f pd (pd_index v) AND PTE_ADDR"
    have l: "bit (?f pd (pd_index v)) 0" "\<not> bit (?f pd (pd_index v)) 7" "?f pt (pt_index v) = e"
      using h pd True by (auto simp: vidx_def pte_link_def pt_def split: option.splits if_splits)
    have t: "tbl ?f P [pd_index v, pdpt_index v, pml4_index v] = Some pt" using pd l by (simp add: pte_link_def pt_def)
    define s' where "s' = vmm_shootdown_page v (set_entry pt (pt_index v) ?e s)"
    have u: "vmm_update_flags P v fl s = (True, s')"
      using w pd l True by (simp add: vmm_update_flags_def Let_def has_flag_bit s'_def pt_def [symmetric])
    have g: "vm_frame s' u i = (if u = pt \<and> i = pt_index v then ?e else ?f u i)" for u i
      by (simp add: s'_def vmm_shootdown_page_def set_entry_def)
    have m: "vm_pmm s' = vm_pmm s" by (simp add: s'_def vmm_shootdown_page_def set_entry_def)
    have "vm_wf s' A" by (rule vm_set_entry(1) [OF wf P up(3) t _ _ g used_mono_same [OF vm_wfD(1) [OF wf] m]]) simp_all
    moreover have "kept A s s'" by (rule kept_set_entry [OF wf P up(3) t _ _ g used_mono_same [OF vm_wfD(1) [OF wf] m]]) simp_all
    ultimately show ?thesis
      using view_set_pte [OF ok P up(3) t _ g] m True unfolding u by (simp add: vidx_def)
  qed
qed

end
