(* ===== verification/Vmm_Fork.thy ===== *)
theory Vmm_Fork
  imports Vmm_Ops "HOL-Library.Sublist"
begin

text \<open>
  The copy-on-write fork of an address space: the child maps what the parent maps, both write-protected, and nothing
  else changes.
\<close>

section \<open>Entries of a forked space\<close>

definition cow_entry :: "u64 \<Rightarrow> u64" where
  "cow_entry e = (e AND PTE_ADDR) OR (if bit e 10 then e AND PTE_FLAGS else ((e AND PTE_FLAGS) AND NOT VMM_FLAG_WRITE) OR VMM_FLAG_COW)"

definition huge_cow :: "u64 \<Rightarrow> u64" where
  "huge_cow e = (e AND PDE_ADDR) OR (((e AND 0xFFF) AND NOT VMM_FLAG_WRITE) OR VMM_FLAG_COW) OR VMM_FLAG_HUGE"

definition share :: "bool \<times> u64 \<Rightarrow> bool \<times> u64" where
  "share x = (fst x, if fst x then huge_cow (snd x) else cow_entry (snd x))"

lemma bit_fff: "bit (0xFFF :: u64) n \<longleftrightarrow> n < 12" "bit (0xFFF :: int) n \<longleftrightarrow> n < 12"
proof -
  have eq: "(0xFFF :: u64) = mask 12" "(0xFFF :: int) = mask 12" by (simp_all add: mask_eq_exp_minus_1)
  show "bit (0xFFF :: u64) n \<longleftrightarrow> n < 12" unfolding eq(1) bit_mask_iff by auto
  show "bit (0xFFF :: int) n \<longleftrightarrow> n < 12" unfolding eq(2) bit_mask_iff by auto
qed

lemma cow_entry_bits:
  "bit (cow_entry e) 0 = bit e 0" "cow_entry e AND PTE_ADDR = e AND PTE_ADDR" "bit (cow_entry e) 10 = bit e 10"
  "\<not> bit e 10 \<Longrightarrow> \<not> bit (cow_entry e) 1 \<and> bit (cow_entry e) 9" "bit e 10 \<Longrightarrow> cow_entry e = e"
proof -
  show "cow_entry e AND PTE_ADDR = e AND PTE_ADDR"
    by (rule bit_word_eqI) (auto simp: cow_entry_def pte_bits)
  show "bit e 10 \<Longrightarrow> cow_entry e = e"
    by (rule bit_word_eqI) (auto simp: cow_entry_def pte_bits)
qed (auto simp: cow_entry_def pte_bits)

lemma huge_cow_bits:
  "bit (huge_cow e) 0 = bit e 0" "bit (huge_cow e) 7" "huge_cow e AND PDE_ADDR = e AND PDE_ADDR" "\<not> bit (huge_cow e) 1" "bit (huge_cow e) 9"
proof -
  show "huge_cow e AND PDE_ADDR = e AND PDE_ADDR"
    by (rule bit_word_eqI) (auto simp: huge_cow_def pte_bits bit_fff)
qed (auto simp: huge_cow_def pte_bits bit_fff)

lemma pte_link_copied:
  assumes "frame_addr n" "bit e 0" "\<not> bit e 7"
  shows "pte_link (n OR (e AND 0xFFF)) = Some n"
proof -
  have "(n OR (e AND 0xFFF)) AND PTE_ADDR = n"
    by (rule bit_word_eqI) (auto simp: pte_bits bit_fff dest: frame_addr_bit [OF assms(1)])
  moreover have "\<not> bit n 7" using frame_addr_bit [OF assms(1), of 7] by auto
  ultimately show ?thesis using assms(2,3) by (simp add: pte_link_def bit_or_iff bit_and_iff bit_fff)
qed

section \<open>References\<close>

lemma frame_ref_simps [simp]:
  "vm_frame (frame_ref a s) = vm_frame s" "pmm_wf (vm_pmm (frame_ref a s)) = pmm_wf (vm_pmm s)"
  "used_bytes (vm_pmm (frame_ref a s)) = used_bytes (vm_pmm s)" "pmm_exhausted (vm_pmm (frame_ref a s)) = pmm_exhausted (vm_pmm s)"
  by (simp_all add: frame_ref_def pmm_page_ref_def used_bytes_def used_cells_def region_def pmm_exhausted_def fitting_cell_def
      attached_def upd_page_def upd_page_wf [unfolded upd_page_def])

definition pmm_same :: "vmm \<Rightarrow> vmm \<Rightarrow> bool" where
  "pmm_same s s' \<longleftrightarrow> pmm_wf (vm_pmm s') = pmm_wf (vm_pmm s) \<and> used_bytes (vm_pmm s') = used_bytes (vm_pmm s) \<and>
     pmm_exhausted (vm_pmm s') = pmm_exhausted (vm_pmm s)"

lemma pmm_same_mono: "pmm_same s s' \<Longrightarrow> pmm_wf (vm_pmm s) \<Longrightarrow> used_mono s s'"
  by (simp add: pmm_same_def used_mono_def)

section \<open>One page table\<close>

lemma fork_pte_frame:
  assumes "src \<noteq> dst"
  shows "vm_frame (fork_pte src dst l s) u i =
    (if bit (vm_frame s src l) 0 \<and> i = l \<and> (u = src \<or> u = dst) then cow_entry (vm_frame s src l) else vm_frame s u i)"
    "pmm_same s (fork_pte src dst l s)"
proof -
  have d: "has_bits (e AND PTE_FLAGS) VMM_FLAG_DONT_FREE \<longleftrightarrow> bit e 10" for e by (simp add: has_flag_bit pte_bits)
  show "vm_frame (fork_pte src dst l s) u i =
    (if bit (vm_frame s src l) 0 \<and> i = l \<and> (u = src \<or> u = dst) then cow_entry (vm_frame s src l) else vm_frame s u i)"
    using assms cow_entry_bits(5) [of "vm_frame s src l"]
    by (auto simp: fork_pte_def Let_def d has_flag_bit(1) set_entry_def cow_entry_def)
  show "pmm_same s (fork_pte src dst l s)"
    by (simp add: fork_pte_def Let_def set_entry_def pmm_same_def frame_ref_simps(2-4) [of _ "s\<lparr>vm_frame := g\<rparr>" for g, simplified])
qed

lemma fork_pt_frame:
  assumes "src \<noteq> dst"
  shows "vm_frame (fold (fork_pte src dst) [0 ..< m] s) u i =
    (if i < m \<and> bit (vm_frame s src i) 0 \<and> (u = src \<or> u = dst) then cow_entry (vm_frame s src i) else vm_frame s u i)"
    "pmm_same s (fold (fork_pte src dst) [0 ..< m] s)"
proof (induction m arbitrary: u i)
  case 0
  case 1 show ?case by simp
next
  case 0
  case 2 show ?case by (simp add: pmm_same_def)
next
  case (Suc m)
  let ?s = "fold (fork_pte src dst) [0 ..< m] s"
  have f: "fold (fork_pte src dst) [0 ..< Suc m] s = fork_pte src dst m ?s" by simp
  have e: "vm_frame ?s src m = vm_frame s src m" using Suc.IH(1) [of src m] by simp
  case 1
  show ?case unfolding f fork_pte_frame(1) [OF assms] e Suc.IH(1) [of u i] by (auto simp: less_Suc_eq)
next
  case (Suc m)
  let ?s = "fold (fork_pte src dst) [0 ..< m] s"
  case 2
  show ?case using Suc.IH(2) fork_pte_frame(2) [OF assms, of ?s m] by (simp add: pmm_same_def)
qed

section \<open>The effect of copying a set of entries\<close>

text \<open>The full paths, and the paths of tables, below an entry of \<open>E\<close>.\<close>

definition below :: "nat list set \<Rightarrow> nat list \<Rightarrow> bool" where
  "below E q \<longleftrightarrow> (\<exists>e \<in> E. suffix e q)"

lemma below_Cons: "below E q \<Longrightarrow> below E (j # q)"
  by (auto simp: below_def intro: suffix_ConsI)

definition forked :: "u64 \<Rightarrow> u64 \<Rightarrow> vmm \<Rightarrow> vmm \<Rightarrow> nat list \<Rightarrow> bool" where
  "forked P N s s' w \<longleftrightarrow>
     (let x = view (vm_frame s) P w
      in view (vm_frame s') P w = x \<and> view (vm_frame s') N w = (False, 0) \<and> (bit (snd x) 0 \<longrightarrow> pmm_exhausted (vm_pmm s')) \<or>
         bit (snd x) 0 \<and> view (vm_frame s') P w = share x \<and> view (vm_frame s') N w = share x)"

definition fork_step :: "u64 set \<Rightarrow> u64 \<Rightarrow> u64 \<Rightarrow> nat list set \<Rightarrow> vmm \<Rightarrow> vmm \<Rightarrow> bool" where
  "fork_step A P N E s s' \<longleftrightarrow> vm_wf s' A \<and> kept A s s' \<and> (pmm_exhausted (vm_pmm s) \<longrightarrow> pmm_exhausted (vm_pmm s')) \<and>
     (\<forall>Q \<in> A. \<forall>q. upath q \<longrightarrow> (Q = N \<longrightarrow> \<not> below E q) \<longrightarrow> tbl (vm_frame s') Q q = tbl (vm_frame s) Q q) \<and>
     (\<forall>Q \<in> A. \<forall>q t j. upath q \<longrightarrow> tbl (vm_frame s) Q q = Some t \<longrightarrow> Q \<notin> {P, N} \<or> \<not> below E (j # q) \<longrightarrow>
        vm_frame s' t j = vm_frame s t j) \<and>
     (\<forall>w. fpath w \<longrightarrow> below E w \<longrightarrow> forked P N s s' w)"

lemma fork_stepD:
  assumes "fork_step A P N E s s'"
  shows "vm_wf s' A" "pmm_exhausted (vm_pmm s) \<Longrightarrow> pmm_exhausted (vm_pmm s')"
    "Q \<in> A \<Longrightarrow> upath q \<Longrightarrow> (Q = N \<Longrightarrow> \<not> below E q) \<Longrightarrow> tbl (vm_frame s') Q q = tbl (vm_frame s) Q q"
    "Q \<in> A \<Longrightarrow> upath q \<Longrightarrow> tbl (vm_frame s) Q q = Some t \<Longrightarrow> Q \<notin> {P, N} \<or> \<not> below E (j # q) \<Longrightarrow> vm_frame s' t j = vm_frame s t j"
    "fpath w \<Longrightarrow> below E w \<Longrightarrow> forked P N s s' w" "kept A s s'"
  using assms unfolding fork_step_def by blast+

lemma view_same:
  assumes w: "w = [a, b, c, d]"
    and t: "tbl g Q [c, d] = tbl f Q [c, d]"
    and pd: "\<And>u. tbl f Q [c, d] = Some u \<Longrightarrow> g u b = f u b"
    and pt: "\<And>u. tbl f Q [b, c, d] = Some u \<Longrightarrow> g u a = f u a"
  shows "view g Q w = view f Q w"
proof (cases "tbl f Q [c, d]")
  case None
  then show ?thesis using t by (simp add: w del: tbl.simps)
next
  case (Some u)
  have "tbl f Q [b, c, d] = pte_link (f u b)" using Some by simp
  then show ?thesis using t pd [OF Some] pt Some by (auto simp: w simp del: tbl.simps split: option.splits)
qed

lemma fork_step_view:
  assumes st: "fork_step A P N E s s'" and Q: "Q \<in> A" and w: "fpath w" and n: "Q \<notin> {P, N} \<or> \<not> below E w"
  shows "view (vm_frame s') Q w = view (vm_frame s) Q w"
proof -
  obtain a b c d where w': "w = [a, b, c, d]" "upath [b, c, d]" "upath [c, d]" using fpath_cases [OF w] by metis
  have nb: "Q \<notin> {P, N} \<or> \<not> below E [c, d]" "Q \<notin> {P, N} \<or> \<not> below E [b, c, d]" "Q \<notin> {P, N} \<or> \<not> below E [a, b, c, d]"
    using n w'(1) below_Cons [of E "[c, d]" b] below_Cons [of E "[b, c, d]" a] by auto
  show ?thesis
    by (rule view_same [OF w'(1)])
      (use fork_stepD(3) [OF st Q w'(3)] fork_stepD(4) [OF st Q w'(3) _ nb(2)] fork_stepD(4) [OF st Q w'(2) _ nb(3)] nb(1) in auto)
qed

lemma fork_step_trans:
  assumes 1: "fork_step A P N E s s1" and 2: "fork_step A P N F s1 s2" and A: "P \<in> A" "N \<in> A"
    and dis: "\<And>q. below E q \<Longrightarrow> \<not> below F q"
  shows "fork_step A P N (E \<union> F) s s2"
  unfolding fork_step_def
proof (intro conjI ballI allI impI)
  have un: "below (E \<union> F) q \<longleftrightarrow> below E q \<or> below F q" for q by (auto simp: below_def)
  show "vm_wf s2 A" by (rule fork_stepD(1) [OF 2])
  show "kept A s s2" by (rule kept_trans [OF fork_stepD(6) [OF 1] fork_stepD(6) [OF 2]])
  show "pmm_exhausted (vm_pmm s2)" if "pmm_exhausted (vm_pmm s)" by (rule fork_stepD(2) [OF 2 fork_stepD(2) [OF 1 that]])
  show "tbl (vm_frame s2) Q q = tbl (vm_frame s) Q q" if "Q \<in> A" "upath q" "Q = N \<longrightarrow> \<not> below (E \<union> F) q" for Q q
    using fork_stepD(3) [OF 1 that(1,2)] fork_stepD(3) [OF 2 that(1,2)] that(3) un by simp
  show "vm_frame s2 t j = vm_frame s t j"
    if "Q \<in> A" "upath q" "tbl (vm_frame s) Q q = Some t" "Q \<notin> {P, N} \<or> \<not> below (E \<union> F) (j # q)" for Q q t j
  proof -
    have n: "Q \<notin> {P, N} \<or> \<not> below E (j # q)" "Q \<notin> {P, N} \<or> \<not> below F (j # q)" "Q = N \<Longrightarrow> \<not> below E q"
      using that(4) un below_Cons [of E q j] by auto
    have "tbl (vm_frame s1) Q q = Some t" using fork_stepD(3) [OF 1 that(1,2) n(3)] that(3) by simp
    from fork_stepD(4) [OF 2 that(1,2) this n(2)] fork_stepD(4) [OF 1 that(1-3) n(1)] show ?thesis by simp
  qed
  show "forked P N s s2 w" if w: "fpath w" "below (E \<union> F) w" for w
  proof (cases "below E w")
    case True
    then have "\<not> below F w" by (rule dis)
    then have "view (vm_frame s2) P w = view (vm_frame s1) P w" "view (vm_frame s2) N w = view (vm_frame s1) N w"
      using fork_step_view [OF 2 _ w(1)] A by auto
    then show ?thesis using fork_stepD(5) [OF 1 w(1) True] fork_stepD(2) [OF 2] by (auto simp: forked_def Let_def)
  next
    case False
    then have F: "below F w" using w(2) un by simp
    have "view (vm_frame s1) P w = view (vm_frame s) P w" using fork_step_view [OF 1 A(1) w(1)] False by simp
    then show ?thesis using fork_stepD(5) [OF 2 w(1) F] by (simp add: forked_def)
  qed
qed

section \<open>Sibling entries\<close>

text \<open>Before the entry \<open>j\<close> of the table with path \<open>p\<close> is copied, the child has the table and its entry is empty.\<close>

definition fork_pre :: "u64 set \<Rightarrow> u64 \<Rightarrow> u64 \<Rightarrow> nat list \<Rightarrow> u64 \<Rightarrow> u64 \<Rightarrow> nat \<Rightarrow> vmm \<Rightarrow> bool" where
  "fork_pre A P N p src dst j s \<longleftrightarrow> vm_wf s A \<and> tbl (vm_frame s) P p = Some src \<and> tbl (vm_frame s) N p = Some dst \<and> vm_frame s dst j = 0"

lemma below_siblings: "below ((\<lambda>j. j # p) ` J) q \<Longrightarrow> \<exists>j \<in> J. suffix (j # p) q"
  by (auto simp: below_def)

lemma suffix_sibling: "suffix (i # p) q \<Longrightarrow> suffix (j # p) q \<Longrightarrow> i = j"
  by (auto simp: suffix_def)

lemma not_below_parent: "\<not> below ((\<lambda>j. j # p) ` J) p"
  by (auto simp: below_def suffix_def)

lemma fork_step_refl: "vm_wf s A \<Longrightarrow> fork_step A P N {} s s"
  by (simp add: fork_step_def below_def)

lemma fork_siblings:
  assumes A: "P \<in> A" "N \<in> A" and p: "upath p"
    and body: "\<And>j s. j \<in> set js \<Longrightarrow> fork_pre A P N p src dst j s \<Longrightarrow> \<exists>s'. body j s = Some s' \<and> fork_step A P N {j # p} s s'"
    and pre: "vm_wf s A" "tbl (vm_frame s) P p = Some src" "tbl (vm_frame s) N p = Some dst" "\<And>j. j \<in> set js \<Longrightarrow> vm_frame s dst j = 0"
    and d: "distinct js"
  shows "\<exists>s'. each body js s = Some s' \<and> fork_step A P N ((\<lambda>j. j # p) ` set js) s s'"
  using body pre d
proof (induction js arbitrary: s)
  case Nil
  then show ?case by (simp add: fork_step_refl)
next
  case (Cons j js)
  have "fork_pre A P N p src dst j s" using Cons.prems(2-5) by (simp add: fork_pre_def)
  then obtain s1 where s1: "body j s = Some s1" "fork_step A P N {j # p} s s1" using Cons.prems(1) [of j s] by auto
  have nb: "\<not> below {j # p} p" using not_below_parent [of p "{j}"] by simp
  have t: "tbl (vm_frame s1) P p = Some src" "tbl (vm_frame s1) N p = Some dst"
    using fork_stepD(3) [OF s1(2) A(1) p nb] fork_stepD(3) [OF s1(2) A(2) p nb] Cons.prems(3,4) by simp_all
  have z: "vm_frame s1 dst i = 0" if "i \<in> set js" for i
  proof -
    have "\<not> below {j # p} (i # p)" using that Cons.prems(6) suffix_sibling [of j p "i # p" i] by (auto simp: below_def)
    then have "vm_frame s1 dst i = vm_frame s dst i" by (intro fork_stepD(4) [OF s1(2) A(2) p Cons.prems(4)]) simp
    then show ?thesis using Cons.prems(5) that by simp
  qed
  have "\<exists>s'. each body js s1 = Some s' \<and> fork_step A P N ((\<lambda>j. j # p) ` set js) s1 s'"
    by (rule Cons.IH [OF Cons.prems(1) fork_stepD(1) [OF s1(2)] t z]) (use Cons.prems(6) in auto)
  then obtain s' where s': "each body js s1 = Some s'" "fork_step A P N ((\<lambda>j. j # p) ` set js) s1 s'" by blast
  have "fork_step A P N ({j # p} \<union> (\<lambda>j. j # p) ` set js) s s'"
    by (rule fork_step_trans [OF s1(2) s'(2) A]) (use Cons.prems(6) in \<open>auto simp: below_def dest: suffix_sibling\<close>)
  then show ?case using s1(1) s'(1) by simp
qed

section \<open>An entry that is not copied\<close>

lemma view_absent:
  assumes "fpath w" "suffix e w" "e \<noteq> []" "length e \<le> 3" "tbl f Q e = None"
    "length e = 3 \<Longrightarrow> \<forall>t. tbl f Q (tl e) = Some t \<longrightarrow> \<not> bit (f t (hd e)) 0"
  shows "view f Q w = (False, 0)"
proof -
  obtain a b c d where w: "w = [a, b, c, d]" using fpath_cases [OF assms(1)] by metis
  have "e = [d] \<or> e = [c, d] \<or> e = [b, c, d]"
    using assms(2-4) unfolding w by (auto simp: suffix_Cons)
  then show ?thesis
  proof (elim disjE)
    assume "e = [d]"
    then have "tbl f Q [d] = None" using assms(5) by simp
    then have "tbl f Q [c, d] = None" by simp
    then show ?thesis by (simp add: w del: tbl.simps)
  next
    assume "e = [c, d]"
    then show ?thesis using assms(5) by (simp add: w del: tbl.simps)
  next
    assume e: "e = [b, c, d]"
    show ?thesis using assms(6) by (simp add: e w pte_link_def del: tbl.simps split: option.split)
  qed
qed

lemma fork_skip:
  assumes pre: "fork_pre A P N p src dst j s" and A: "P \<in> A" "N \<in> A" and p: "upath (j # p)"
    and x: "\<not> bit (vm_frame s src j) 0 \<or> pmm_exhausted (vm_pmm s)"
  shows "fork_step A P N {j # p} s s"
proof -
  note d = pre [unfolded fork_pre_def]
  have l: "length (j # p) \<le> 3" using p by (simp add: upath_def)
  have N: "view (vm_frame s) N w = (False, 0)" if "fpath w" "suffix (j # p) w" for w
    by (rule view_absent [OF that]) (use d l in simp_all)
  have P: "view (vm_frame s) P w = (False, 0)" if "fpath w" "suffix (j # p) w" "\<not> bit (vm_frame s src j) 0" for w
    by (rule view_absent [OF that(1,2)]) (use d l that(3) in \<open>simp_all add: pte_link_def\<close>)
  show ?thesis using d N P x by (auto simp: fork_step_def forked_def below_def Let_def)
qed

section \<open>A new table for the child\<close>

text \<open>Linking a fresh table under the child's entry, then copying what the parent has below it.\<close>

definition linked :: "u64 set \<Rightarrow> u64 \<Rightarrow> u64 \<Rightarrow> nat list \<Rightarrow> vmm \<Rightarrow> vmm \<Rightarrow> bool" where
  "linked A N n e s s1 \<longleftrightarrow> vm_wf s1 A \<and> kept A s s1 \<and> \<not> pmm_exhausted (vm_pmm s) \<and> vm_frame s1 n = (\<lambda>i. 0) \<and>
     (\<forall>Q \<in> A. \<forall>q. upath q \<longrightarrow> tbl (vm_frame s1) Q q = (if Q = N \<and> q = e then Some n else tbl (vm_frame s) Q q)) \<and>
     (\<forall>Q \<in> A. \<forall>q t j. upath q \<longrightarrow> tbl (vm_frame s) Q q = Some t \<longrightarrow> Q \<noteq> N \<or> j # q \<noteq> e \<longrightarrow> vm_frame s1 t j = vm_frame s t j) \<and>
     (\<forall>Q \<in> A. \<forall>w. fpath w \<longrightarrow> view (vm_frame s1) Q w = view (vm_frame s) Q w)"

lemma linkedD:
  assumes "linked A N n e s s1"
  shows "vm_wf s1 A" "\<not> pmm_exhausted (vm_pmm s)" "vm_frame s1 n j = 0"
    "Q \<in> A \<Longrightarrow> upath q \<Longrightarrow> tbl (vm_frame s1) Q q = (if Q = N \<and> q = e then Some n else tbl (vm_frame s) Q q)"
    "Q \<in> A \<Longrightarrow> upath q \<Longrightarrow> tbl (vm_frame s) Q q = Some t \<Longrightarrow> Q \<noteq> N \<or> j # q \<noteq> e \<Longrightarrow> vm_frame s1 t j = vm_frame s t j"
    "Q \<in> A \<Longrightarrow> fpath w \<Longrightarrow> view (vm_frame s1) Q w = view (vm_frame s) Q w" "kept A s s1"
  using assms unfolding linked_def by (blast, blast, simp, blast, blast, blast, blast)

lemma fork_link:
  assumes pre: "fork_pre A P N p src dst j s" and A: "P \<in> A" "N \<in> A" and p: "upath (j # p)"
    and x: "pte_link (vm_frame s src j) \<noteq> None" and e: "e = vm_frame s src j"
  shows "\<exists>r s1. alloc_page_table s = Some (r, s1) \<and> (r = None \<longrightarrow> s1 = s \<and> pmm_exhausted (vm_pmm s)) \<and>
    (\<forall>n. r = Some n \<longrightarrow> linked A N n (j # p) s (set_entry dst j (n OR (e AND 0xFFF)) s1))"
proof -
  note d = pre [unfolded fork_pre_def]
  have wf: "vm_wf s A" and dt: "tbl (vm_frame s) N p = Some dst" using d by auto
  have eb: "bit e 0" "\<not> bit e 7" using x e by (auto simp: pte_link_def split: if_splits)
  obtain r s1 where a: "alloc_page_table s = Some (r, s1)" "used_mono s s1" "r = None \<longrightarrow> s1 = s \<and> pmm_exhausted (vm_pmm s)"
    "\<And>n. r = Some n \<Longrightarrow> in_use s1 n \<and> fresh_frame s n \<and> \<not> pmm_exhausted (vm_pmm s) \<and>
      s1 = s\<lparr> vm_pmm := vm_pmm s1, vm_frame := (vm_frame s)(n := \<lambda>i. 0) \<rparr>"
    using alloc_page_table_ok [OF vm_wfD(1) [OF wf]] by blast
  have "linked A N n (j # p) s (set_entry dst j (n OR (e AND 0xFFF)) s1)" if r: "r = Some n" for n
  proof -
    let ?s = "set_entry dst j (n OR (e AND 0xFFF)) s1"
    have n: "in_use s1 n" "fresh_frame s n" "\<not> pmm_exhausted (vm_pmm s)" using a(4) [OF r] by blast+
    have f1: "vm_frame s1 = (vm_frame s)(n := \<lambda>i. 0)"
      using a(4) [OF r] by (metis vmm.select_convs(1) vmm.surjective vmm.update_convs(1,2))
    have up: "upath p" by (rule upath_tl [OF p])
    have nt: "u \<noteq> n" if "Q \<in> A" "upath q" "tbl (vm_frame s) Q q = Some u" for Q q u
      using fresh_not_in_use [OF n(2) vm_wfD(3) [OF wf that]] .
    have g: "vm_frame ?s u i = (if u = dst \<and> i = j then n OR (e AND 0xFFF) else if u = n then 0 else vm_frame s u i)" for u i
      using f1 by (auto simp: set_entry_def)
    have le: "pte_link (n OR (e AND 0xFFF)) = Some n" by (rule pte_link_copied [OF _ eb]) (use n(1) in \<open>simp add: in_use_def\<close>)
    have m: "used_mono s ?s" "in_use ?s n" using a(2) n(1) by (simp_all add: set_entry_def used_mono_def in_use_def)
    have z: "\<not> bit (vm_frame s dst j) 0" using d by simp
    note add = vm_add_table [OF wf A(2) p dt z le g m n(2)]
    have "vm_frame ?s t i = vm_frame s t i"
      if "Q \<in> A" "upath q" "tbl (vm_frame s) Q q = Some t" "Q \<noteq> N \<or> i # q \<noteq> j # p" for Q q t i
      using g [of t i] nt [OF that(1-3)] upath_inj [OF vm_wfD(2) [OF wf] that(1) A(2) that(2) up that(3) dt] that(4) by auto
    moreover have "vm_frame ?s n = (\<lambda>i. 0)" using g nt [OF A(2) up dt] by auto
    ultimately show ?thesis using add n(3) kept_add_table [OF wf A(2) p dt z le g m n(2)] by (simp add: linked_def)
  qed
  then show ?thesis using a(1,3) by blast
qed

lemma fork_descend:
  assumes l: "linked A N n e s s1" and A: "P \<in> A" "N \<in> A" "P \<noteq> N" and e: "upath e"
    and st: "fork_step A P N ((\<lambda>k. k # e) ` {..< 512}) s1 s'"
  shows "fork_step A P N {e} s s'"
  unfolding fork_step_def
proof (intro conjI ballI allI impI)
  have nb: "\<not> below {e} q \<Longrightarrow> \<not> below ((\<lambda>k. k # e) ` {..< 512}) q" for q
    by (auto simp: below_def dest: suffix_ConsD)
  show "vm_wf s' A" by (rule fork_stepD(1) [OF st])
  show "kept A s s'" by (rule kept_trans [OF linkedD(7) [OF l] fork_stepD(6) [OF st]])
  show "pmm_exhausted (vm_pmm s')" if "pmm_exhausted (vm_pmm s)" using linkedD(2) [OF l] that by simp
  show "tbl (vm_frame s') Q q = tbl (vm_frame s) Q q" if "Q \<in> A" "upath q" "Q = N \<longrightarrow> \<not> below {e} q" for Q q
  proof -
    have "\<not> (Q = N \<and> q = e)" using that(3) by (auto simp: below_def)
    then show ?thesis using fork_stepD(3) [OF st that(1,2)] linkedD(4) [OF l that(1,2)] nb that(3) by auto
  qed
  show "vm_frame s' t j = vm_frame s t j"
    if "Q \<in> A" "upath q" "tbl (vm_frame s) Q q = Some t" "Q \<notin> {P, N} \<or> \<not> below {e} (j # q)" for Q q t j
  proof -
    have n: "Q \<noteq> N \<or> j # q \<noteq> e" "\<not> (Q = N \<and> q = e)" "Q \<notin> {P, N} \<or> \<not> below ((\<lambda>k. k # e) ` {..< 512}) (j # q)"
      using that(4) nb by (auto simp: below_def suffix_Cons)
    have "tbl (vm_frame s1) Q q = Some t" using linkedD(4) [OF l that(1,2)] n(2) that(3) by auto
    from fork_stepD(4) [OF st that(1,2) this n(3)] linkedD(5) [OF l that(1-3) n(1)] show ?thesis by simp
  qed
  show "forked P N s s' w" if w: "fpath w" "below {e} w" for w
  proof -
    obtain zs where zs: "w = zs @ e" using w(2) by (auto simp: below_def suffix_def)
    have w4: "length w = 4" "\<forall>i \<in> set w. i < 512" using w(1) by (simp_all add: fpath_def)
    have "length e \<le> 3" using e by (simp add: upath_def)
    then have "zs \<noteq> []" using w4(1) zs by auto
    then have "last zs < 512" using w4(2) zs by simp
    have "suffix (last zs # e) w" unfolding zs using \<open>zs \<noteq> []\<close> by (metis append_butlast_last_id append_Cons append_Nil append_assoc suffix_def)
    then have "below ((\<lambda>k. k # e) ` {..< 512}) w" using \<open>last zs < 512\<close> by (auto simp: below_def)
    from fork_stepD(5) [OF st w(1) this] show ?thesis
      using linkedD(6) [OF l A(1) w(1)] by (simp add: forked_def)
  qed
qed

section \<open>Page directory entries\<close>

lemma vm_leaf_tables:
  assumes wf: "vm_wf s A" and m: "used_mono s s'"
    and g: "\<And>Q q u i. Q \<in> A \<Longrightarrow> upath q \<Longrightarrow> length q < 3 \<Longrightarrow> tbl (vm_frame s) Q q = Some u \<Longrightarrow> vm_frame s' u i = vm_frame s u i"
  shows "vm_wf s' A" "Q \<in> A \<Longrightarrow> upath q \<Longrightarrow> tbl (vm_frame s') Q q = tbl (vm_frame s) Q q"
proof -
  have tb: "tbl (vm_frame s') Q q = tbl (vm_frame s) Q q" if "Q \<in> A" "upath q" for Q q
    using that(2)
  proof (induction q)
    case (Cons i q)
    then have "upath q" "length q < 3" by (auto simp: upath_def)
    then show ?case using Cons.IH g [OF that(1)] by (cases "tbl (vm_frame s) Q q") auto
  qed simp
  then show "Q \<in> A \<Longrightarrow> upath q \<Longrightarrow> tbl (vm_frame s') Q q = tbl (vm_frame s) Q q" .
  note ok = vm_wfD(2) [OF wf]
  have "P = Q \<and> p = q"
    if "P \<in> A" "Q \<in> A" "upath p" "upath q" "tbl (vm_frame s') P p = Some t" "tbl (vm_frame s') Q q = Some t" for P Q p q t
    using tables_okD(1) [OF ok that(1-4)] that(5,6) tb [OF that(1,3)] tb [OF that(2,4)] by simp
  moreover have "\<not> bit (vm_frame s' u i) 7"
    if "Q \<in> A" "upath (i # q)" "length q \<le> 1" "tbl (vm_frame s') Q q = Some u" "bit (vm_frame s' u i) 0" for Q q u i
  proof -
    have uq: "upath q" by (rule upath_tl [OF that(2)])
    then have "tbl (vm_frame s) Q q = Some u" using that(1,4) tb by simp
    with g [OF that(1) uq _ this] tables_okD(2) [OF ok that(1-3) this] that(3,5) show ?thesis by simp
  qed
  ultimately have "tables_ok (vm_frame s') A" unfolding tables_ok_def by blast
  moreover have "in_use s' u" if "Q \<in> A" "upath q" "tbl (vm_frame s') Q q = Some u" for Q q u
    using vm_wfD(3) [OF wf that(1,2), of u] tb [OF that(1,2)] that(3) in_use_mono [OF _ m] by simp
  ultimately show "vm_wf s' A" using m unfolding vm_wf_def used_mono_def by blast
qed

lemma view_pte:
  assumes "tbl f Q e = Some t" "length e = 3"
  shows "view f Q (l # e) = (False, f t l)"
proof -
  obtain b c d where e: "e = [b, c, d]" using assms(2) by (auto simp: length_Suc_conv numeral_eq_Suc)
  obtain u where u: "tbl f Q [c, d] = Some u" "pte_link (f u b) = Some t"
    using assms(1) unfolding e tbl.simps(2) [of f Q b "[c, d]"] by (cases "tbl f Q [c, d]") (simp_all del: tbl.simps)
  have "\<not> bit (f u b) 7" using u(2) by (auto simp: pte_link_def split: if_splits)
  then show ?thesis using u by (simp add: e del: tbl.simps)
qed

lemma fork_pt_ok:
  assumes wf: "vm_wf s A" and A: "P \<in> A" "N \<in> A" "P \<noteq> N" and e: "upath e" "length e = 3"
    and t: "tbl (vm_frame s) P e = Some src" "tbl (vm_frame s) N e = Some dst" and z: "\<And>l. vm_frame s dst l = 0"
  shows "fork_step A P N ((\<lambda>l. l # e) ` {..< 512}) s (fold (fork_pte src dst) [0 ..< 512] s)" (is "fork_step A P N ?E s ?s")
proof -
  note ok = vm_wfD(2) [OF wf]
  have ne: "src \<noteq> dst" using upath_inj [OF ok A(1,2) e(1) e(1) t] A(3) by simp
  note g = fork_pt_frame(1) [OF ne, of 512 s] and same = fork_pt_frame(2) [OF ne, of s 512]
  have m: "used_mono s ?s" by (rule pmm_same_mono [OF same vm_wfD(1) [OF wf]])
  have at: "Q \<in> {P, N} \<and> q = e" if "Q \<in> A" "upath q" "tbl (vm_frame s) Q q = Some u" "u = src \<or> u = dst" for Q q u
    using upath_inj [OF ok that(1) A(1) that(2) e(1) that(3) t(1)] upath_inj [OF ok that(1) A(2) that(2) e(1) that(3) t(2)] that(4) by auto
  have low: "vm_frame ?s u i = vm_frame s u i" if "Q \<in> A" "upath q" "length q < 3" "tbl (vm_frame s) Q q = Some u" for Q q u i
    using g [of u i] at [OF that(1,2,4)] that(3) e(2) by auto
  have leaf: "vm_wf ?s A" "\<And>Q q. Q \<in> A \<Longrightarrow> upath q \<Longrightarrow> tbl (vm_frame ?s) Q q = tbl (vm_frame s) Q q"
    by (rule vm_leaf_tables [OF wf m]; use low in blast)+
  have "vm_frame ?s u i = vm_frame s u i"
    if "Q \<in> A" "upath q" "tbl (vm_frame s) Q q = Some u" "Q \<notin> {P, N} \<or> \<not> below ?E (i # q)" for Q q u i
  proof (rule ccontr)
    assume "vm_frame ?s u i \<noteq> vm_frame s u i"
    then have "i < 512" "u = src \<or> u = dst" using g [of u i] by (auto split: if_splits)
    then have "Q \<in> {P, N}" "below ?E (i # q)" using at [OF that(1-3)] by (auto simp: below_def)
    then show False using that(4) by simp
  qed
  moreover have "forked P N s ?s w" if w0: "fpath w" "below ?E w" for w
  proof -
    obtain l where "l < 512" "suffix (l # e) w" using w0(2) by (auto simp: below_def)
    moreover have "length w = length (l # e)" using w0(1) e(2) by (simp add: fpath_def)
    ultimately have w: "w = l # e" "l < 512" by (auto simp: suffix_def)
    have t': "tbl (vm_frame ?s) P e = Some src" "tbl (vm_frame ?s) N e = Some dst"
      using leaf(2) [OF A(1) e(1)] leaf(2) [OF A(2) e(1)] t by simp_all
    show ?thesis
      unfolding forked_def w(1) view_pte [OF t(1) e(2)] view_pte [OF t'(1) e(2)] view_pte [OF t'(2) e(2)]
      using g [of src l] g [of dst l] w(2) z ne by (auto simp: share_def Let_def)
  qed
  moreover have "kept A s ?s"
  proof (rule keptI [OF m])
    fix u i Q q
    assume u: "data_frame s A u"
    show "tbl (vm_frame s) Q q = Some u" if "Q \<in> A" "upath q" "tbl (vm_frame ?s) Q q = Some u" using leaf(2) [OF that(1,2)] that(3) by simp
    show "vm_frame ?s u i = vm_frame s u i"
      using g [of u i] data_frame_not_table [OF u A(1) e(1) t(1)] data_frame_not_table [OF u A(2) e(1) t(2)] by simp
  qed
  ultimately show ?thesis using leaf same by (auto simp: fork_step_def pmm_same_def)
qed

lemma view_huge:
  assumes "tbl f Q [c, d] = Some t" "bit (f t b) 0" "bit (f t b) 7"
  shows "view f Q [a, b, c, d] = (True, f t b)"
  using assms by (simp del: tbl.simps)

lemma fork_huge_ok:
  assumes pre: "fork_pre A P N p src dst k s" and A: "P \<in> A" "N \<in> A" "P \<noteq> N" and p: "upath (k # p)" "length p = 2"
    and e: "e = vm_frame s src k" "bit e 0" "bit e 7" and m: "used_mono s s'" "pmm_exhausted (vm_pmm s') = pmm_exhausted (vm_pmm s)"
    and g: "\<And>u i. vm_frame s' u i = (if (u = src \<or> u = dst) \<and> i = k then huge_cow e else vm_frame s u i)"
  shows "fork_step A P N {k # p} s s'"
proof -
  note d = pre [unfolded fork_pre_def]
  have wf: "vm_wf s A" and t: "tbl (vm_frame s) P p = Some src" "tbl (vm_frame s) N p = Some dst" using d by auto
  have up: "upath p" by (rule upath_tl [OF p(1)])
  note ok = vm_wfD(2) [OF wf]
  have ne: "src \<noteq> dst" using upath_inj [OF ok A(1,2) up up t] A(3) by simp
  define s1 where "s1 = s\<lparr> vm_frame := (vm_frame s)(dst := (vm_frame s dst)(k := huge_cow e)) \<rparr>"
  have g1: "vm_frame s1 u i = (if u = dst \<and> i = k then huge_cow e else vm_frame s u i)" for u i by (simp add: s1_def)
  have m1: "used_mono s s1" "used_mono s1 s'" using m(1) vm_wfD(1) [OF wf] by (simp_all add: used_mono_def s1_def)
  have l: "pte_link (huge_cow e) = None" "pte_link e = None" "pte_link (vm_frame s dst k) = None"
    using d e(3) huge_cow_bits(2) [of e] by (simp_all add: pte_link_def)
  have len: "length p < 3 \<longrightarrow> pte_link (huge_cow e) = pte_link (vm_frame s dst k)" "length p \<le> 1 \<longrightarrow> \<not> (bit (huge_cow e) 0 \<and> bit (huge_cow e) 7)"
    using l p(2) by simp_all
  note a1 = vm_set_entry [OF wf A(2) up t(2) len g1 m1(1)]
  have t1: "tbl (vm_frame s1) P p = Some src" using a1(2) [OF A(1) up] t(1) by simp
  have len1: "length p < 3 \<longrightarrow> pte_link (huge_cow e) = pte_link (vm_frame s1 src k)" using l g1 [of src k] ne e(1) by simp
  have g2: "vm_frame s' u i = (if u = src \<and> i = k then huge_cow e else vm_frame s1 u i)" for u i using g [of u i] g1 [of u i] by auto
  note a2 = vm_set_entry [OF a1(1) A(1) up t1 len1 len(2) g2 m1(2)]
  have tb: "tbl (vm_frame s') Q q = tbl (vm_frame s) Q q" if "Q \<in> A" "upath q" for Q q
    using a1(2) [OF that] a2(2) [OF that] by simp
  have fr: "vm_frame s' u i = vm_frame s u i"
    if "Q \<in> A" "upath q" "tbl (vm_frame s) Q q = Some u" "Q \<notin> {P, N} \<or> \<not> below {k # p} (i # q)" for Q q u i
    using g [of u i] that(4) upath_inj [OF ok that(1) A(1) that(2) up that(3) t(1)] upath_inj [OF ok that(1) A(2) that(2) up that(3) t(2)]
    by (auto simp: below_def)
  have "forked P N s s' w" if w0: "fpath w" "below {k # p} w" for w
  proof -
    obtain a b c f where w: "w = [a, b, c, f]" using fpath_cases [OF w0(1)] by metis
    obtain c' f' where p': "p = [c', f']" using p(2) by (auto simp: length_Suc_conv numeral_eq_Suc)
    have eq: "b = k" "c = c'" "f = f'" using w0(2) by (auto simp: below_def w p' suffix_Cons)
    have t': "tbl (vm_frame s') P [c, f] = Some src" "tbl (vm_frame s') N [c, f] = Some dst" "tbl (vm_frame s) P [c, f] = Some src"
      using tb [OF A(1) up] tb [OF A(2) up] t by (simp_all add: p' eq del: tbl.simps)
    have h: "vm_frame s' src b = huge_cow e" "vm_frame s' dst b = huge_cow e" "vm_frame s src b = e" using g e(1) eq by simp_all
    have "view (vm_frame s) P w = (True, e)" "view (vm_frame s') P w = (True, huge_cow e)" "view (vm_frame s') N w = (True, huge_cow e)"
      using view_huge [OF t'(3), of b a] view_huge [OF t'(1), of b a] view_huge [OF t'(2), of b a] h e(2,3) huge_cow_bits(1,2) [of e]
      by (simp_all add: w del: tbl.simps view.simps)
    then show ?thesis using e(2) by (simp add: forked_def share_def)
  qed
  moreover have "kept A s s'"
    using kept_trans [OF kept_set_entry [OF wf A(2) up t(2) len g1 m1(1)] kept_set_entry [OF a1(1) A(1) up t1 len1 len(2) g2 m1(2)]] .
  ultimately show ?thesis using a2(1) m(2) tb fr by (auto simp: fork_step_def)
qed

lemma fork_pde_ok:
  assumes pre: "fork_pre A P N p src dst k s" and A: "P \<in> A" "N \<in> A" "P \<noteq> N" and p: "upath (k # p)" "length p = 2"
  shows "\<exists>s'. fork_pde src dst k s = Some s' \<and> fork_step A P N {k # p} s s'"
proof -
  define e where "e = vm_frame s src k"
  note d = pre [unfolded fork_pre_def]
  have wf: "vm_wf s A" and t: "tbl (vm_frame s) P p = Some src" "tbl (vm_frame s) N p = Some dst" using d by auto
  have up: "upath p" by (rule upath_tl [OF p(1)])
  have ne: "src \<noteq> dst" using upath_inj [OF vm_wfD(2) [OF wf] A(1,2) up up t] A(3) by simp
  consider "\<not> bit e 0" | "bit e 0" "bit e 7" | "bit e 0" "\<not> bit e 7" by blast
  then show ?thesis
  proof cases
    case 1
    then show ?thesis using fork_skip [OF pre A(1,2) p(1)] by (simp add: fork_pde_def e_def has_flag_bit)
  next
    case 2
    define s' where "s' = frame_ref (e AND PDE_ADDR) (set_entry src k (huge_cow e) (set_entry dst k (huge_cow e) s))"
    have b: "fork_pde src dst k s = Some s'"
      using 2 by (simp add: fork_pde_def s'_def Let_def has_flag_bit has_bit_7 huge_cow_def flip: e_def)
    have "fork_step A P N {k # p} s s'"
      by (rule fork_huge_ok [OF pre A p e_def 2])
        (use ne vm_wfD(1) [OF wf] in \<open>auto simp: s'_def used_mono_def set_entry_def\<close>)
    then show ?thesis using b by blast
  next
    case 3
    have le: "pte_link (vm_frame s src k) \<noteq> None" using 3 by (simp add: pte_link_def flip: e_def)
    have b: "has_bits e VMM_FLAG_PRESENT" "\<not> has_bits e VMM_FLAG_HUGE" using 3 by (simp_all add: has_flag_bit has_bit_7)
    obtain r s1 where a: "alloc_page_table s = Some (r, s1)" "r = None \<longrightarrow> s1 = s \<and> pmm_exhausted (vm_pmm s)"
      "\<And>n. r = Some n \<Longrightarrow> linked A N n (k # p) s (set_entry dst k (n OR (e AND 0xFFF)) s1)"
      using fork_link [OF pre A(1,2) p(1) le e_def] by blast
    show ?thesis
    proof (cases r)
      case None
      then show ?thesis using a(1,2) b fork_skip [OF pre A(1,2) p(1)] by (simp add: fork_pde_def Let_def flip: e_def)
    next
      case (Some n)
      let ?s = "set_entry dst k (n OR (e AND 0xFFF)) s1" and ?pt = "e AND PTE_ADDR"
      note l = a(3) [OF Some]
      have tp: "tbl (vm_frame s) P (k # p) = Some ?pt" using t(1) 3 by (simp add: pte_link_def flip: e_def)
      have "fork_step A P N ((\<lambda>l. l # k # p) ` {..< 512}) ?s (fold (fork_pte ?pt n) [0 ..< 512] ?s)"
        by (rule fork_pt_ok [OF linkedD(1) [OF l] A p(1)])
          (use linkedD(4) [OF l A(1) p(1)] linkedD(4) [OF l A(2) p(1)] linkedD(3) [OF l] tp A(3) p(2) in \<open>simp_all del: tbl.simps\<close>)
      then have "fork_step A P N {k # p} s (fold (fork_pte ?pt n) [0 ..< 512] ?s)"
        by (rule fork_descend [OF l A p(1)])
      then show ?thesis using a(1) Some b by (simp add: fork_pde_def Let_def flip: e_def)
    qed
  qed
qed

section \<open>The upper levels\<close>

text \<open>
  A page directory pointer entry and a top-level entry are copied alike: a table for the child, then the entries of
  the table below.
\<close>

lemma fork_table_ok:
  assumes pre: "fork_pre A P N p src dst j s" and A: "P \<in> A" "N \<in> A" "P \<noteq> N" and p: "upath (j # p)" "length p \<le> 1"
    and body: "\<And>u v k s. k < 512 \<Longrightarrow> fork_pre A P N (j # p) u v k s \<Longrightarrow>
      \<exists>s'. body u v k s = Some s' \<and> fork_step A P N {k # j # p} s s'"
    and e: "e = vm_frame s src j"
    and step: "f = (if \<not> has_bits e VMM_FLAG_PRESENT then Some s
      else Option.bind (alloc_page_table s) (\<lambda>(r, s1). case r of None \<Rightarrow> Some s1 | Some n \<Rightarrow>
        each (body (e AND PTE_ADDR) n) [0 ..< 512] (set_entry dst j (n OR (e AND 0xFFF)) s1)))"
  shows "\<exists>s'. f = Some s' \<and> fork_step A P N {j # p} s s'"
proof (cases "bit e 0")
  case False
  then show ?thesis using fork_skip [OF pre A(1,2) p(1)] e by (simp add: step has_flag_bit)
next
  case True
  note d = pre [unfolded fork_pre_def]
  have wf: "vm_wf s A" and t: "tbl (vm_frame s) P p = Some src" using d by auto
  have "\<not> bit e 7" using tables_okD(2) [OF vm_wfD(2) [OF wf] A(1) p t] True e by simp
  then have le: "pte_link e = Some (e AND PTE_ADDR)" "pte_link (vm_frame s src j) \<noteq> None" using True e by (simp_all add: pte_link_def)
  have b: "has_bits e VMM_FLAG_PRESENT" using True by (simp add: has_flag_bit)
  obtain r s1 where a: "alloc_page_table s = Some (r, s1)" "r = None \<longrightarrow> s1 = s \<and> pmm_exhausted (vm_pmm s)"
    "\<And>n. r = Some n \<Longrightarrow> linked A N n (j # p) s (set_entry dst j (n OR (e AND 0xFFF)) s1)"
    using fork_link [OF pre A(1,2) p(1) le(2) e] by blast
  show ?thesis
  proof (cases r)
    case None
    then show ?thesis using a(1,2) b fork_skip [OF pre A(1,2) p(1)] by (simp add: step)
  next
    case (Some n)
    let ?s = "set_entry dst j (n OR (e AND 0xFFF)) s1"
    note l = a(3) [OF Some]
    have tp: "tbl (vm_frame s) P (j # p) = Some (e AND PTE_ADDR)" using t le(1) e by simp
    have t1: "tbl (vm_frame ?s) P (j # p) = Some (e AND PTE_ADDR)" "tbl (vm_frame ?s) N (j # p) = Some n"
      using linkedD(4) [OF l A(1) p(1)] linkedD(4) [OF l A(2) p(1)] tp A(3) by (simp_all del: tbl.simps)
    have bd: "\<exists>s'. body (e AND PTE_ADDR) n k s = Some s' \<and> fork_step A P N {k # j # p} s s'"
      if "k \<in> set [0 ..< 512]" "fork_pre A P N (j # p) (e AND PTE_ADDR) n k s" for k s
      by (rule body) (use that in simp_all)
    obtain s' where s': "each (body (e AND PTE_ADDR) n) [0 ..< 512] ?s = Some s'"
      "fork_step A P N ((\<lambda>k. k # j # p) ` set [0 ..< 512]) ?s s'"
      using fork_siblings [OF A(1,2) p(1) bd linkedD(1) [OF l] t1 linkedD(3) [OF l] distinct_upt] by blast
    have "set [0 ..< 512] = {..< 512 :: nat}" by auto
    then have "fork_step A P N {j # p} s s'" using fork_descend [OF l A p(1)] s'(2) by simp
    then show ?thesis using s'(1) a(1) Some b by (simp add: step)
  qed
qed

lemma fork_pdpte_ok:
  assumes "fork_pre A P N p src dst j s" "P \<in> A" "N \<in> A" "P \<noteq> N" "upath (j # p)" "length p = 1"
  shows "\<exists>s'. fork_pdpte src dst j s = Some s' \<and> fork_step A P N {j # p} s s'"
proof (rule fork_table_ok [OF assms(1-5), of fork_pde])
  fix u v k s
  assume k: "k < (512 :: nat)" and pre: "fork_pre A P N (j # p) u v k s"
  have "upath (k # j # p)" using assms(5,6) k by (auto simp: upath_def)
  then show "\<exists>s'. fork_pde u v k s = Some s' \<and> fork_step A P N {k # j # p} s s'"
    using fork_pde_ok [OF pre assms(2-4)] assms(6) by simp
qed (simp_all add: assms(6) fork_pdpte_def Let_def)

lemma fork_pml4e_ok:
  assumes "fork_pre A P N [] src dst i s" "P \<in> A" "N \<in> A" "P \<noteq> N" "i < 256"
  shows "\<exists>s'. fork_pml4e src dst i s = Some s' \<and> fork_step A P N {[i]} s s'"
proof (rule fork_table_ok [OF assms(1-4), of fork_pdpte])
  fix u v k s
  assume k: "k < (512 :: nat)" and pre: "fork_pre A P N [i] u v k s"
  have "upath [k, i]" using assms(5) k by (simp add: upath_def)
  then show "\<exists>s'. fork_pdpte u v k s = Some s' \<and> fork_step A P N {[k, i]} s s'"
    using fork_pdpte_ok [OF pre assms(2-4)] by simp
qed (use assms(5) in \<open>simp_all add: upath_def fork_pml4e_def Let_def\<close>)

section \<open>The fork\<close>

lemma kernel_half:
  "vm_pmm (fold (\<lambda>i s. set_entry n i (vm_frame s k i) s) js s) = vm_pmm s"
  "u \<noteq> n \<or> i \<notin> set js \<Longrightarrow> vm_frame (fold (\<lambda>i s. set_entry n i (vm_frame s k i) s) js s) u i = vm_frame s u i"
  by (induction js arbitrary: s) (auto simp: set_entry_def)

lemma tbl_empty_root:
  assumes "\<And>i. i < 256 \<Longrightarrow> f N i = 0" "upath q"
  shows "tbl f N q = (if q = [] then Some N else None)"
  using assms(2)
proof (induction q)
  case (Cons i q)
  then have "tbl f N q = (if q = [] then Some N else None)" using upath_tl by blast
  moreover have "q = [] \<longrightarrow> i < 256" using Cons.prems by (auto simp: upath_def)
  ultimately show ?case using assms(1) by auto
qed simp

lemma vm_new_root:
  assumes wf: "vm_wf s A" and m: "used_mono s s'" and N: "in_use s' N" "fresh_frame s N" "\<And>i. i < 256 \<Longrightarrow> vm_frame s' N i = 0"
    and g: "\<And>u. u \<noteq> N \<Longrightarrow> vm_frame s' u = vm_frame s u"
  shows "vm_wf s' (insert N A)" "N \<notin> A" "Q \<in> A \<Longrightarrow> upath q \<Longrightarrow> tbl (vm_frame s') Q q = tbl (vm_frame s) Q q"
proof -
  note ok = vm_wfD(2) [OF wf]
  have nN: "u \<noteq> N" if "Q \<in> A" "upath q" "tbl (vm_frame s) Q q = Some u" for Q q u
    using fresh_not_in_use [OF N(2) vm_wfD(3) [OF wf that]] .
  then show NA: "N \<notin> A" using nN [of N "[]" N] by auto
  have tb: "tbl (vm_frame s') Q q = tbl (vm_frame s) Q q" if "Q \<in> A" "upath q" for Q q
    using that(2)
  proof (induction q)
    case (Cons i q)
    then have up: "upath q" and IH: "tbl (vm_frame s') Q q = tbl (vm_frame s) Q q" using upath_tl by blast+
    show ?case
    proof (cases "tbl (vm_frame s) Q q")
      case (Some u)
      then have "vm_frame s' u = vm_frame s u" by (intro g nN [OF that(1) up])
      then show ?thesis using IH Some by simp
    qed (simp add: IH)
  qed simp
  then show "Q \<in> A \<Longrightarrow> upath q \<Longrightarrow> tbl (vm_frame s') Q q = tbl (vm_frame s) Q q" .
  have tN: "tbl (vm_frame s') N q = (if q = [] then Some N else None)" if "upath q" for q
    by (rule tbl_empty_root [of "vm_frame s'" N q]) (use N(3) that in simp_all)
  have old: "Q = N \<and> q = [] \<and> t = N \<or> Q \<in> A \<and> tbl (vm_frame s) Q q = Some t \<and> t \<noteq> N"
    if "Q \<in> insert N A" "upath q" "tbl (vm_frame s') Q q = Some t" for Q q t
  proof (cases "Q = N")
    case True
    then show ?thesis using tN [OF that(2)] that(3) by (simp split: if_splits)
  next
    case False
    then have Q: "Q \<in> A" using that(1) by simp
    then have "tbl (vm_frame s) Q q = Some t" using tb [OF Q that(2)] that(3) by simp
    then show ?thesis using nN [OF Q that(2)] Q by blast
  qed
  have use: "in_use s' t" if "Q \<in> insert N A" "upath q" "tbl (vm_frame s') Q q = Some t" for Q q t
    using old [OF that] vm_wfD(3) [OF wf _ that(2)] in_use_mono [OF _ m] N(1) by blast
  have inj: "P = Q \<and> p = q"
    if "P \<in> insert N A" "Q \<in> insert N A" "upath p" "upath q" "tbl (vm_frame s') P p = Some t" "tbl (vm_frame s') Q q = Some t" for P Q p q t
    using old [OF that(1,3,5)] old [OF that(2,4,6)] tables_okD(1) [OF ok _ _ that(3,4)] by blast
  have small: "\<not> bit (vm_frame s' t i) 7"
    if "P \<in> insert N A" "upath (i # p)" "length p \<le> 1" "tbl (vm_frame s') P p = Some t" "bit (vm_frame s' t i) 0" for P p t i
  proof (cases "P = N")
    case True
    have "upath p" by (rule upath_tl [OF that(2)])
    then have "t = N" "p = []" using tN [of p] that(4) True by (auto split: if_splits)
    then show ?thesis using that(2,5) N(3) [of i] by (simp add: upath_def)
  next
    case False
    then have P: "P \<in> A" using that(1) by simp
    have up: "upath p" by (rule upath_tl [OF that(2)])
    then have t: "tbl (vm_frame s) P p = Some t" using tb [OF P] that(4) by simp
    then have "vm_frame s' t = vm_frame s t" by (intro g nN [OF P up])
    then show ?thesis using tables_okD(2) [OF ok P that(2,3) t] that(5) by simp
  qed
  have "tables_ok (vm_frame s') (insert N A)"
    unfolding tables_ok_def
  proof (intro conjI ballI allI impI)
    show "P = Q" "p = q"
      if "P \<in> insert N A" "Q \<in> insert N A" "upath p" "upath q" "tbl (vm_frame s') P p = Some t" "tbl (vm_frame s') Q q = Some t" for P Q p q t
      using inj [OF that] by simp_all
    show "\<not> bit (vm_frame s' t i) 7"
      if "P \<in> insert N A" "upath (i # p)" "length p \<le> 1" "tbl (vm_frame s') P p = Some t" "bit (vm_frame s' t i) 0" for P p t i
      by (rule small [OF that])
  qed
  moreover have "pmm_wf (vm_pmm s')" using m by (simp add: used_mono_def)
  ultimately show "vm_wf s' (insert N A)" unfolding vm_wf_def by (intro conjI ballI allI impI) (assumption+, rule use)
qed

lemma view_tables:
  assumes "fpath w" "\<And>q. upath q \<Longrightarrow> tbl g Q q = tbl f Q q" "\<And>q t i. upath q \<Longrightarrow> tbl f Q q = Some t \<Longrightarrow> g t i = f t i"
  shows "view g Q w = view f Q w"
proof -
  obtain a b c d where w: "w = [a, b, c, d]" "upath [b, c, d]" "upath [c, d]" using fpath_cases [OF assms(1)] by metis
  show ?thesis by (rule view_same [OF w(1)]) (use assms(2,3) w(2,3) in blast)+
qed

lemma create_user_pml4_ok:
  assumes wf: "vm_wf s A"
  shows "\<exists>r s'. vmm_create_user_pml4 s = Some (r, s') \<and> (r = None \<longrightarrow> s' = s \<and> pmm_exhausted (vm_pmm s)) \<and>
    (\<forall>N. r = Some N \<longrightarrow> N \<notin> A \<and> vm_wf s' (insert N A) \<and> (\<forall>i < 256. vm_frame s' N i = 0) \<and>
       (\<forall>u. data_frame s A u \<longrightarrow> data_frame s' (insert N A) u \<and> vm_frame s' u = vm_frame s u) \<and>
       (\<forall>Q \<in> A. \<forall>w. fpath w \<longrightarrow> view (vm_frame s') Q w = view (vm_frame s) Q w))"
proof -
  obtain r s1 where a: "alloc_page_table s = Some (r, s1)" "used_mono s s1" "r = None \<longrightarrow> s1 = s \<and> pmm_exhausted (vm_pmm s)"
    "\<And>n. r = Some n \<Longrightarrow> in_use s1 n \<and> fresh_frame s n \<and> \<not> pmm_exhausted (vm_pmm s) \<and>
      s1 = s\<lparr> vm_pmm := vm_pmm s1, vm_frame := (vm_frame s)(n := \<lambda>i. 0) \<rparr>"
    using alloc_page_table_ok [OF vm_wfD(1) [OF wf]] by blast
  show ?thesis
  proof (cases r)
    case None
    then show ?thesis using a(1,3) by (simp add: vmm_create_user_pml4_def)
  next
    case (Some N)
    define k where "k = vmm_get_kernel_pml4 s1"
    define s' where "s' = fold (\<lambda>i s. set_entry N i (vm_frame s k i) s) [256 ..< 512] s1"
    have c: "vmm_create_user_pml4 s = Some (Some N, s')" using a(1) Some by (simp add: vmm_create_user_pml4_def s'_def k_def Let_def del: upt_rec_numeral)
    have n: "in_use s1 N" "fresh_frame s N" using a(4) [OF Some] by blast+
    have f1: "vm_frame s1 = (vm_frame s)(N := \<lambda>i. 0)"
      using a(4) [OF Some] by (metis vmm.select_convs(1) vmm.surjective vmm.update_convs(1,2))
    have z: "vm_frame s' N i = 0" if "i < 256" for i using kernel_half(2) [of N N i "[256 ..< 512]" k s1] that f1 by (simp add: s'_def del: upt_rec_numeral)
    have g: "vm_frame s' u = vm_frame s u" if "u \<noteq> N" for u
      by (rule ext) (simp add: s'_def kernel_half(2) that f1 del: upt_rec_numeral)
    have m: "used_mono s s'" "in_use s' N" using a(2) n(1) kernel_half(1) by (simp_all add: s'_def used_mono_def in_use_def del: upt_rec_numeral)
    have new: "vm_wf s' (insert N A)" "N \<notin> A" "\<And>Q q. Q \<in> A \<Longrightarrow> upath q \<Longrightarrow> tbl (vm_frame s') Q q = tbl (vm_frame s) Q q"
      by (rule vm_new_root [OF wf m n(2)]; (rule z g)?; assumption)+
    have "view (vm_frame s') Q w = view (vm_frame s) Q w" if Q: "Q \<in> A" "fpath w" for Q w
    proof (rule view_tables [OF Q(2) new(3) [OF Q(1)]])
      fix q t i
      assume "upath q" "tbl (vm_frame s) Q q = Some t"
      then have "t \<noteq> N" using fresh_not_in_use [OF n(2) vm_wfD(3) [OF wf Q(1)]] by blast
      then show "vm_frame s' t i = vm_frame s t i" by (simp add: g)
    qed
    then have "\<forall>Q \<in> A. \<forall>w. fpath w \<longrightarrow> view (vm_frame s') Q w = view (vm_frame s) Q w" by blast
    moreover have "data_frame s' (insert N A) u \<and> vm_frame s' u = vm_frame s u" if u: "data_frame s A u" for u
    proof -
      have un: "u \<noteq> N" using fresh_not_in_use [OF n(2)] u by (simp add: data_frame_def)
      have "tbl (vm_frame s') N q \<noteq> Some u" if "upath q" for q
        using tbl_empty_root [of "vm_frame s'" N q] z that un by (auto split: if_splits)
      then show ?thesis using u g [OF un] new(3) in_use_mono [OF _ m(1)] unfolding data_frame_def by force
    qed
    ultimately show ?thesis using c new(1,2) z by (intro exI [of _ "Some N"] exI [of _ s']) simp
  qed
qed

lemma vmm_fork_ok:
  assumes wf: "vm_wf s A" and P: "P \<in> A"
  shows "\<exists>r s'. vmm_fork_address_space P s = Some (r, s') \<and> (r = None \<longrightarrow> s' = s \<and> pmm_exhausted (vm_pmm s)) \<and>
    (\<forall>N. r = Some N \<longrightarrow> N \<notin> A \<and> vm_wf s' (insert N A) \<and>
       (\<forall>u. data_frame s A u \<longrightarrow> data_frame s' (insert N A) u \<and> vm_frame s' u = vm_frame s u) \<and>
       (\<forall>w. fpath w \<longrightarrow> forked P N s s' w \<and> (\<forall>Q \<in> A - {P}. view (vm_frame s') Q w = view (vm_frame s) Q w)))"
proof -
  obtain r s1 where c: "vmm_create_user_pml4 s = Some (r, s1)" "r = None \<longrightarrow> s1 = s \<and> pmm_exhausted (vm_pmm s)"
    "\<And>N. r = Some N \<Longrightarrow> N \<notin> A \<and> vm_wf s1 (insert N A) \<and> (\<forall>i < 256. vm_frame s1 N i = 0) \<and>
       (\<forall>u. data_frame s A u \<longrightarrow> data_frame s1 (insert N A) u \<and> vm_frame s1 u = vm_frame s u) \<and>
       (\<forall>Q \<in> A. \<forall>w. fpath w \<longrightarrow> view (vm_frame s1) Q w = view (vm_frame s) Q w)"
    using create_user_pml4_ok [OF wf] by blast
  show ?thesis
  proof (cases r)
    case None
    then show ?thesis using c(1,2) by (simp add: vmm_fork_address_space_def)
  next
    case (Some N)
    let ?A = "insert N A"
    have n: "N \<notin> A" "vm_wf s1 ?A" "\<And>i. i < 256 \<Longrightarrow> vm_frame s1 N i = 0"
      "\<And>Q w. Q \<in> A \<Longrightarrow> fpath w \<Longrightarrow> view (vm_frame s1) Q w = view (vm_frame s) Q w"
      "\<And>u. data_frame s A u \<Longrightarrow> data_frame s1 ?A u \<and> vm_frame s1 u = vm_frame s u" using c(3) [OF Some] by blast+
    have A: "P \<in> ?A" "N \<in> ?A" "P \<noteq> N" using P n(1) by auto
    have body: "\<exists>s'. fork_pml4e P N i s = Some s' \<and> fork_step ?A P N {[i]} s s'"
      if "i \<in> set [0 ..< 256]" "fork_pre ?A P N [] P N i s" for i s
      by (rule fork_pml4e_ok [OF that(2) A]) (use that(1) in simp)
    have "\<exists>s2. each (fork_pml4e P N) [0 ..< 256] s1 = Some s2 \<and> fork_step ?A P N ((\<lambda>j. [j]) ` set [0 ..< 256]) s1 s2"
      by (rule fork_siblings [OF A(1,2) upath_Nil body n(2)]) (use n(3) in simp_all)
    then obtain s2 where s2: "each (fork_pml4e P N) [0 ..< 256] s1 = Some s2"
      "fork_step ?A P N ((\<lambda>j. [j]) ` set [0 ..< 256]) s1 s2" by blast
    let ?s = "vmm_shootdown_all s2"
    have sd: "vm_frame ?s = vm_frame s2" "vm_pmm ?s = vm_pmm s2" by (simp_all add: vmm_shootdown_all_def)
    have "forked P N s ?s w" if w0: "fpath w" for w
    proof -
      obtain a b e d where w: "w = [a, b, e, d]" "upath [d]" using fpath_cases [OF w0] by metis
      have "suffix [d] w" "d < 256" using w by (simp_all add: suffix_def upath_def)
      then have "below ((\<lambda>j. [j]) ` set [0 ..< 256]) w" by (auto simp: below_def)
      then show ?thesis using fork_stepD(5) [OF s2(2) w0] n(4) [OF P w0] by (simp add: forked_def sd)
    qed
    moreover have "view (vm_frame ?s) Q w = view (vm_frame s) Q w" if "fpath w" "Q \<in> A - {P}" for Q w
      using fork_step_view [OF s2(2) _ that(1), of Q] n(1) n(4) [OF _ that(1), of Q] that(2) by (auto simp: sd)
    moreover have "data_frame ?s ?A u \<and> vm_frame ?s u = vm_frame s u" if "data_frame s A u" for u
      using n(5) [OF that] fork_stepD(6) [OF s2(2)] by (simp add: kept_def data_frame_def in_use_def sd)
    moreover have "vm_wf ?s ?A" using fork_stepD(1) [OF s2(2)] by (simp add: vm_wf_def in_use_def sd)
    moreover have "vmm_fork_address_space P s = Some (Some N, ?s)" using c(1) Some s2(1) by (simp add: vmm_fork_address_space_def)
    ultimately show ?thesis using n(1) by blast
  qed
qed

end
