(* ===== verification/Vmm_Props.thy ===== *)
theory Vmm_Props
  imports Vmm_Fork
begin

text \<open>
  What the virtual memory manager promises of the user half of the address spaces, stated over the translations
  and flags that \<^verbatim>\<open>vmm_virt_to_phys\<close> and \<^verbatim>\<open>vmm_get_pte_flags\<close> read back.
\<close>

definition unchanged :: "vmm \<Rightarrow> vmm \<Rightarrow> u64 \<Rightarrow> u64 \<Rightarrow> bool" where
  "unchanged s s' Q w \<longleftrightarrow> vmm_virt_to_phys s' Q w = vmm_virt_to_phys s Q w \<and> vmm_get_pte_flags s' Q w = vmm_get_pte_flags s Q w"

lemma unchanged_view:
  assumes "tables_ok (vm_frame s) A" "tables_ok (vm_frame s') A" "Q \<in> A" "user w" "view (vm_frame s') Q (vidx w) = view (vm_frame s) Q (vidx w)"
  shows "unchanged s s' Q w"
  using translate_view [OF assms(1,3,4)] translate_view [OF assms(2-4)] assms(5) by (simp add: unchanged_def)

lemma mapped_view:
  assumes "tables_ok (vm_frame s) A" "Q \<in> A" "user w" "view (vm_frame s) Q (vidx w) = (False, (phys AND PTE_ADDR) OR fl OR VMM_FLAG_PRESENT)"
  shows "fl AND PTE_ADDR = 0 \<Longrightarrow> vmm_virt_to_phys s Q w = (phys AND PTE_ADDR) OR (w AND 0xFFF)"
    "vmm_get_pte_flags s Q w = (fl OR VMM_FLAG_PRESENT) AND PTE_FLAGS"
proof -
  let ?e = "(phys AND PTE_ADDR) OR fl OR VMM_FLAG_PRESENT"
  show "vmm_virt_to_phys s Q w = (phys AND PTE_ADDR) OR (w AND 0xFFF)" if fl: "fl AND PTE_ADDR = 0"
  proof -
    have "\<not> (bit fl n \<and> 12 \<le> n \<and> n < 52)" for n
    proof
      assume "bit fl n \<and> 12 \<le> n \<and> n < 52"
      then have "bit (fl AND PTE_ADDR) n" by (simp add: pte_bits)
      then show False using fl by simp
    qed
    then have "?e AND PTE_ADDR = phys AND PTE_ADDR" by (intro bit_word_eqI) (auto simp: pte_bits)
    moreover have "bit ?e 0" by (simp add: pte_bits)
    ultimately show ?thesis using translate_view(1) [OF assms(1-3)] assms(4) by simp
  qed
  have "?e AND PTE_FLAGS = (fl OR VMM_FLAG_PRESENT) AND PTE_FLAGS" by (intro bit_word_eqI) (auto simp: pte_bits)
  then show "vmm_get_pte_flags s Q w = (fl OR VMM_FLAG_PRESENT) AND PTE_FLAGS" using translate_view(2) [OF assms(1-3)] assms(4) by simp
qed

text \<open>The page of a faulting address.\<close>

lemma page_of:
  assumes "user v"
  shows "user (v AND NOT 0xFFF)" "drop_bit 12 (v AND NOT 0xFFF) = drop_bit 12 v" "vidx (v AND NOT 0xFFF) = vidx v"
    "(v AND NOT 0xFFF) AND 0xFFF = 0"
proof -
  define pg where "pg = v AND NOT 0xFFF"
  have b: "bit pg n \<longleftrightarrow> bit v n \<and> 12 \<le> n" for n
    using bit_imp_le_length [of v n] unfolding pg_def by (auto simp only: bit_and_iff bit_not_iff bit_fff(1) possible_bit_word not_less)
  have "take_bit 47 pg = pg"
    by (rule bit_word_eqI) (use user_bit_lt [OF assms] in \<open>auto simp: bit_take_bit_iff b\<close>)
  then have u: "user pg" by (simp add: user_bits)
  moreover have d: "drop_bit 12 pg = drop_bit 12 v" by (rule bit_word_eqI) (simp add: bit_drop_bit_eq b)
  ultimately show "user (v AND NOT 0xFFF)" "drop_bit 12 (v AND NOT 0xFFF) = drop_bit 12 v" "vidx (v AND NOT 0xFFF) = vidx v"
    using vidx_eq [OF u assms] unfolding pg_def by simp_all
  have "(v AND NOT m) AND m = 0" for m by (rule bit_word_eqI) (simp add: bit_and_iff bit_not_iff)
  then show "(v AND NOT 0xFFF) AND 0xFFF = 0" .
qed

section \<open>A machine with one address space\<close>

text \<open>Sixteen frames are in use.  Four are the tables of the address space at \<open>0x10000\<close>; its first page is mapped
  copy-on-write to the frame \<open>0x14000\<close>.\<close>

definition demo_vm_map :: "memmap_entry list" where
  "demo_vm_map = [\<lparr> entry_base = 0x1000, entry_length = 0x4000, entry_type = MEMMAP_USABLE \<rparr>,
     \<lparr> entry_base = 0x10000, entry_length = 0x10000, entry_type = MEMMAP_USABLE \<rparr>]"

definition demo_vm_boot :: pmm where
  "demo_vm_boot = the (pmm_init demo_vm_map 0 pmm_zero)"

definition demo_vm_pmm :: pmm where
  "demo_vm_pmm = the (pmm_step (Alloc 16 ZONE_NORMAL False) demo_vm_boot)"

definition demo_vm :: vmm where
  "demo_vm = \<lparr> vm_frame = (\<lambda>u i. if i \<noteq> 0 then 0 else if u = 0x10000 then 0x11007 else if u = 0x11000 then 0x12007
       else if u = 0x12000 then 0x13007 else if u = 0x13000 then 0x14205 else 0),
     vm_pmm = demo_vm_pmm, vm_hhdm_offset = 0, vm_kernel_pml4 = None, vm_cr3 = 0, vm_next_kernel_stack = 0,
     vm_next_mmap_addr = MMAP_BASE, vm_shot = [] \<rparr>"

lemma demo_vm_pmm_wf: "pmm_wf demo_vm_pmm"
proof -
  have ok: "memmap_ok demo_vm_map" by (auto simp: memmap_ok_def demo_vm_map_def entry_span_def)
  obtain s where s: "pmm_init demo_vm_map 0 pmm_zero = Some s" using pmm_init_correct [OF ok] by blast
  have "pmm_wf demo_vm_boot" using pmm_reachable_wf [OF pmm_reachable.boot [OF ok s]] s by (simp add: demo_vm_boot_def)
  from pmm_step_wf [OF this, of "Alloc 16 ZONE_NORMAL False"] show ?thesis by (auto simp: demo_vm_pmm_def)
qed

lemma demo_vm_boot_facts:
  "cell_count demo_vm_boot = 2" "last_used_cell demo_vm_boot = 0"
  "cells demo_vm_boot 0 = \<lparr> cell_base = 0x1000, cell_size = 0x4000, cell_state = CELL_FREE, cell_owner = 0,
    cell_parent = 0xFFFF, cell_children = \<lambda>_. 0xFFFF \<rparr>"
  "cells demo_vm_boot (Suc 0) = \<lparr> cell_base = 0x10000, cell_size = 0x10000, cell_state = CELL_FREE, cell_owner = 0,
    cell_parent = 0xFFFF, cell_children = \<lambda>_. 0xFFFF \<rparr>"
  by (simp_all add: demo_vm_boot_def demo_vm_map_def pmm_eval)

lemma demo_vm_pmm_facts:
  "cell_count demo_vm_pmm = 2" "cell_state (cells demo_vm_pmm (Suc 0)) = CELL_USED" "cell_base (cells demo_vm_pmm (Suc 0)) = 0x10000"
  "cell_size (cells demo_vm_pmm (Suc 0)) = 0x10000"
  "cells demo_vm_pmm 0 = \<lparr> cell_base = 0x1000, cell_size = 0x4000, cell_state = CELL_FREE, cell_owner = 0,
    cell_parent = 0xFFFF, cell_children = \<lambda>_. 0xFFFF \<rparr>"
  by (simp_all add: demo_vm_pmm_def demo_vm_boot_facts alloc_eval)

lemma demo_vm_used: "{0x10000 ..< 0x20000} \<subseteq> used_bytes demo_vm_pmm"
proof -
  have "Suc 0 \<in> used_cells demo_vm_pmm" by (simp add: used_cells_def demo_vm_pmm_facts)
  then have "region demo_vm_pmm (Suc 0) \<subseteq> used_bytes demo_vm_pmm" by (auto simp: used_bytes_def)
  then show ?thesis by (simp add: region_def demo_vm_pmm_facts)
qed

lemma demo_vm_in_use:
  assumes "frame_addr u" "page_at (unat u) \<subseteq> {0x10000 ..< 0x20000}"
  shows "in_use demo_vm u"
proof -
  have "vm_pmm demo_vm = demo_vm_pmm" by (simp add: demo_vm_def)
  then show ?thesis using assms demo_vm_used by (auto simp: in_use_def)
qed

lemma demo_vm_room: "\<not> pmm_exhausted demo_vm_pmm"
proof -
  have "fitting_cell demo_vm_pmm PAGE_SIZE ZONE_NORMAL False 0"
    by (simp add: fitting_cell_def attached_def fits_def demo_vm_pmm_facts yam_consts)
  then show ?thesis by (auto simp: pmm_exhausted_def)
qed

lemma demo_vm_tbl:
  "upath q \<Longrightarrow> tbl (vm_frame demo_vm) 0x10000 q = (if \<forall>i \<in> set q. i = 0 then Some (0x10000 + 0x1000 * of_nat (length q)) else None)"
proof (induction q)
  case (Cons i q)
  have up: "upath q" by (rule upath_tl [OF Cons.prems])
  have "length q = 0 \<or> length q = 1 \<or> length q = 2" using Cons.prems unfolding upath_def by (simp only: length_Cons) arith
  then show ?case using Cons.IH [OF up]
    by (auto simp: demo_vm_def pte_link_def PTE_ADDR_def)
qed simp

lemma demo_vm_wf: "vm_wf demo_vm {0x10000}"
proof -
  have t: "\<exists>k \<le> 3. k = length q \<and> (\<forall>i \<in> set q. i = 0) \<and> t = 0x10000 + 0x1000 * of_nat k"
    if "upath q" "tbl (vm_frame demo_vm) 0x10000 q = Some t" for q t
    using demo_vm_tbl [OF that(1)] that by (auto simp: upath_def split: if_splits)
  have k: "k = 0 \<or> k = 1 \<or> k = 2 \<or> k = 3" if "k \<le> 3" for k :: nat using that by arith
  have "in_use demo_vm u" if q: "upath q" "tbl (vm_frame demo_vm) 0x10000 q = Some u" for q u
  proof -
    obtain k where "k \<le> 3" "u = 0x10000 + 0x1000 * of_nat k" using t [OF q] by blast
    then show ?thesis using k [of k] by (intro demo_vm_in_use) (auto simp: frame_addr_def PTE_ADDR_def page_at_def)
  qed
  moreover have "p = q" if pq: "upath p" "upath q" "tbl (vm_frame demo_vm) 0x10000 p = Some u" "tbl (vm_frame demo_vm) 0x10000 q = Some u" for p q u
  proof -
    obtain k where pk: "k \<le> 3" "k = length p" "\<forall>i \<in> set p. i = 0" "u = 0x10000 + 0x1000 * of_nat k" using t [OF pq(1,3)] by blast
    obtain l where ql: "l \<le> 3" "l = length q" "\<forall>i \<in> set q. i = 0" "u = 0x10000 + 0x1000 * of_nat l" using t [OF pq(2,4)] by blast
    have "k = l" using k [OF pk(1)] k [OF ql(1)] pk(4) ql(4) by auto
    then have "p = replicate k 0" "q = replicate k 0" using pk(2,3) ql(2,3) by (auto intro: replicate_eqI)
    then show ?thesis by simp
  qed
  moreover have "\<not> bit (vm_frame demo_vm u i) 7" for u i
    by (simp add: demo_vm_def)
  ultimately show ?thesis using demo_vm_pmm_wf unfolding vm_wf_def tables_ok_def by (simp add: demo_vm_def)
qed

lemma demo_vm_view: "view (vm_frame demo_vm) 0x10000 (vidx 0) = (False, 0x14205)"
  by (simp add: vidx_def pml4_index_def pdpt_index_def pd_index_def pt_index_def demo_vm_def pte_link_def PTE_ADDR_def)

section \<open>Mapping and unmapping\<close>

text \<open>C13. Mapping a page always returns and keeps the page tables well formed.  When it succeeds, every address
of the page translates to the given frame with the same offset and reads back the given flags.  Every other page,
every other address space and the contents of every frame of data stay as they were.  It fails only when physical memory is
exhausted or a huge page covers the address, and then nothing changes.\<close>

theorem vmm_map_page_translates:
  assumes "vm_wf s A" "P \<in> A" "user v"
  shows "\<exists>ok s'. vmm_map_page P v phys fl s = Some (ok, s') \<and> vm_wf s' A \<and>
    (\<forall>u. data_frame s A u \<longrightarrow> vm_frame s' u = vm_frame s u) \<and>
    (\<forall>Q \<in> A. \<forall>w. user w \<longrightarrow>
       (if ok \<and> Q = P \<and> drop_bit 12 w = drop_bit 12 v
        then vmm_get_pte_flags s' Q w = (fl OR VMM_FLAG_PRESENT) AND PTE_FLAGS \<and>
             (fl AND PTE_ADDR = 0 \<longrightarrow> vmm_virt_to_phys s' Q w = (phys AND PTE_ADDR) OR (w AND 0xFFF))
        else unchanged s s' Q w)) \<and>
    (\<not> ok \<longrightarrow> pmm_exhausted (vm_pmm s') \<or> fst (view (vm_frame s) P (vidx v)))"
proof -
  obtain ok s' where m: "vmm_map_page P v phys fl s = Some (ok, s')" "vm_wf s' A" "kept A s s'"
    "\<And>Q w. Q \<in> A \<Longrightarrow> fpath w \<Longrightarrow> view (vm_frame s') Q w =
       (if ok \<and> Q = P \<and> w = vidx v then (False, (phys AND PTE_ADDR) OR fl OR VMM_FLAG_PRESENT) else view (vm_frame s) Q w)"
    "\<not> ok \<longrightarrow> pmm_exhausted (vm_pmm s') \<or> fst (view (vm_frame s) P (vidx v))"
    using vmm_map_page_ok [OF assms, of phys fl] by blast
  note ok = vm_wfD(2) [OF assms(1)] vm_wfD(2) [OF m(2)]
  have "if ok \<and> Q = P \<and> drop_bit 12 w = drop_bit 12 v
      then vmm_get_pte_flags s' Q w = (fl OR VMM_FLAG_PRESENT) AND PTE_FLAGS \<and>
           (fl AND PTE_ADDR = 0 \<longrightarrow> vmm_virt_to_phys s' Q w = (phys AND PTE_ADDR) OR (w AND 0xFFF))
      else unchanged s s' Q w" if Q: "Q \<in> A" "user w" for Q w
  proof (cases "ok \<and> Q = P \<and> drop_bit 12 w = drop_bit 12 v")
    case True
    then have "view (vm_frame s') Q (vidx w) = (False, (phys AND PTE_ADDR) OR fl OR VMM_FLAG_PRESENT)"
      using m(4) [OF Q(1) vidx_fpath [OF Q(2)]] vidx_eq [OF Q(2) assms(3)] by simp
    then show ?thesis using mapped_view [OF ok(2) Q, of phys fl] True by simp
  next
    case False
    then have "view (vm_frame s') Q (vidx w) = view (vm_frame s) Q (vidx w)"
      using m(4) [OF Q(1) vidx_fpath [OF Q(2)]] vidx_eq [OF Q(2) assms(3)] by auto
    then show ?thesis using unchanged_view [OF ok Q] False by auto
  qed
  then show ?thesis using m(1-3,5) unfolding kept_def by blast
qed

theorem vmm_map_page_translates_witness:
  "\<exists>ok s'. vmm_map_page 0x10000 0x2000 0x7000 VMM_FLAG_USER demo_vm = Some (ok, s') \<and> vm_wf s' {0x10000} \<and> unchanged demo_vm s' 0x10000 0"
proof -
  have u: "user 0x2000" "user 0" by (simp_all add: user_def)
  show ?thesis using vmm_map_page_translates [OF demo_vm_wf _ u(1), of "0x10000" "0x7000" VMM_FLAG_USER] u(2) by fastforce
qed

text \<open>C15. Unmapping a 4 KB page removes exactly that page: afterwards its addresses translate to nothing, and
every other page, every other address space, the contents of every frame of data and the physical memory manager are unchanged.\<close>

theorem vmm_unmap_page_removes:
  assumes "vm_wf s A" "P \<in> A" "user v" "\<not> fst (view (vm_frame s) P (vidx v))"
  defines "s' \<equiv> vmm_unmap_page P v s"
  shows "vm_wf s' A \<and> vm_pmm s' = vm_pmm s \<and> (\<forall>u. data_frame s A u \<longrightarrow> vm_frame s' u = vm_frame s u) \<and>
    (\<forall>Q \<in> A. \<forall>w. user w \<longrightarrow>
       (if Q = P \<and> drop_bit 12 w = drop_bit 12 v then vmm_virt_to_phys s' Q w = 0 \<and> vmm_get_pte_flags s' Q w = 0
        else unchanged s s' Q w))"
proof -
  note m = vmm_unmap_page_ok [OF assms(1-4), folded s'_def]
  have ok: "tables_ok (vm_frame s) A" "tables_ok (vm_frame s') A" using vm_wfD(2) assms(1) m by blast+
  have "if Q = P \<and> drop_bit 12 w = drop_bit 12 v then vmm_virt_to_phys s' Q w = 0 \<and> vmm_get_pte_flags s' Q w = 0
      else unchanged s s' Q w" if Q: "Q \<in> A" "user w" for Q w
  proof (cases "Q = P \<and> drop_bit 12 w = drop_bit 12 v")
    case True
    then have "view (vm_frame s') Q (vidx w) = (False, 0)"
      using m Q vidx_fpath [OF Q(2)] vidx_eq [OF Q(2) assms(3)] by simp
    then show ?thesis using translate_view [OF ok(2) Q] True by simp
  next
    case False
    then have "view (vm_frame s') Q (vidx w) = view (vm_frame s) Q (vidx w)"
      using m Q vidx_fpath [OF Q(2)] vidx_eq [OF Q(2) assms(3)] by auto
    then show ?thesis using unchanged_view [OF ok Q] False by auto
  qed
  then show ?thesis using m unfolding kept_def by blast
qed

theorem vmm_unmap_page_removes_witness:
  "vmm_virt_to_phys demo_vm 0x10000 0x123 = 0x14123 \<and> vmm_virt_to_phys (vmm_unmap_page 0x10000 0 demo_vm) 0x10000 0x123 = 0"
proof -
  have u: "user 0x123" "user 0" by (simp_all add: user_def)
  have "vidx 0x123 = vidx 0" by (simp add: vidx_def pml4_index_def pdpt_index_def pd_index_def pt_index_def)
  then have "vmm_virt_to_phys demo_vm 0x10000 0x123 = 0x14123"
    using translate_view(1) [OF vm_wfD(2) [OF demo_vm_wf] _ u(1), of "0x10000"] demo_vm_view by (simp add: PTE_ADDR_def)
  then show ?thesis using vmm_unmap_page_removes [OF demo_vm_wf _ u(2), of "0x10000"] u(1) by (simp add: demo_vm_view)
qed

section \<open>Fork\<close>



section \<open>Faults\<close>

lemma frame_unref_ok:
  assumes "pmm_wf (vm_pmm s)"
  shows "\<exists>s'. frame_unref a s = Some s' \<and> vm_frame s' = vm_frame s \<and> pmm_wf (vm_pmm s')"
  using pmm_step_wf [OF assms, of "Page_unref (unat a)"] by (auto simp: frame_unref_def)

text \<open>A frame just allocated holds data, and writing it changes no table.\<close>

lemma alloc_data_frame:
  assumes wf: "vm_wf s A" and a: "frame_alloc s = Some (Some n, s1)"
  shows "vm_wf (s1\<lparr> vm_frame := (vm_frame s1)(n := c) \<rparr>) A" "data_frame (s1\<lparr> vm_frame := (vm_frame s1)(n := c) \<rparr>) A n"
    "fresh_frame s n" "frame_addr n" "Q \<in> A \<Longrightarrow> fpath w \<Longrightarrow> view ((vm_frame s1)(n := c)) Q w = view (vm_frame s) Q w"
    "vm_frame s1 = vm_frame s" "data_frame s A u \<Longrightarrow> u \<noteq> n \<and> data_frame (s1\<lparr> vm_frame := (vm_frame s1)(n := c) \<rparr>) A u"
proof -
  let ?s = "s1\<lparr> vm_frame := (vm_frame s1)(n := c) \<rparr>"
  have al: "s1 = s\<lparr> vm_pmm := vm_pmm s1 \<rparr>" "used_mono s s1" "in_use s1 n" and fr: "fresh_frame s n"
    using frame_alloc_ok [OF vm_wfD(1) [OF wf]] a by auto
  show f1: "vm_frame s1 = vm_frame s" using al(1) by (metis vmm.select_convs(1) vmm.surjective vmm.update_convs(2))
  show "fresh_frame s n" by (rule fr)
  show "frame_addr n" using al(3) by (simp add: in_use_def)
  have m: "used_mono s ?s" "in_use ?s n" using al(2,3) by (simp_all add: used_mono_def in_use_def)
  have nt: "u \<noteq> n" if "in_use s u" for u using fresh_not_in_use [OF fr that] .
  have g: "vm_frame ?s u i = vm_frame s u i" if "u \<noteq> n" for u i using that f1 by simp
  have low: "vm_frame ?s u i = vm_frame s u i" if "Q \<in> A" "upath q" "tbl (vm_frame s) Q q = Some u" for Q q u i
    using g nt [OF vm_wfD(3) [OF wf that]] by blast
  have wf': "vm_wf ?s A" and tb: "\<And>Q q. Q \<in> A \<Longrightarrow> upath q \<Longrightarrow> tbl (vm_frame ?s) Q q = tbl (vm_frame s) Q q"
    by (rule vm_leaf_tables [OF wf m(1)]; use low in blast)+
  show "vm_wf ?s A" by (rule wf')
  have "tbl (vm_frame s) Q q \<noteq> Some n" if "Q \<in> A" "upath q" for Q q
    using vm_wfD(3) [OF wf that] nt by blast
  then show "data_frame ?s A n" using m(2) tb by (auto simp: data_frame_def)
  show "u \<noteq> n \<and> data_frame ?s A u" if "data_frame s A u"
    using that nt in_use_mono [OF _ m(1)] tb by (auto simp: data_frame_def)
  show "view ((vm_frame s1)(n := c)) Q w = view (vm_frame s) Q w" if Q: "Q \<in> A" "fpath w"
  proof -
    have "view (vm_frame ?s) Q w = view (vm_frame s) Q w" by (rule view_tables [OF Q(2) tb [OF Q(1)]]) (use low Q(1) in blast)+
    then show ?thesis by simp
  qed
qed

lemma get_present: "pte_link (vm_frame s t i) = Some u \<Longrightarrow> get_or_create_table t i fl s = Some (Some u, s)"
  by (auto simp: get_or_create_table_def pte_link_def Let_def has_flag_bit has_bit_7 split: if_splits)

lemma map_present:
  assumes "view (vm_frame s) P (vidx v) = (False, e)" "bit e 0" "vmm_map_page P v phys fl s = Some (ok, s')"
  shows "ok"
proof -
  obtain pd where pd: "tbl (vm_frame s) P [pdpt_index v, pml4_index v] = Some pd"
    using assms(1,2) unfolding vidx_def by (cases "tbl (vm_frame s) P [pdpt_index v, pml4_index v]") (auto simp del: tbl.simps)
  obtain pdpt where pdpt: "pte_link (vm_frame s P (pml4_index v)) = Some pdpt" "pte_link (vm_frame s pdpt (pdpt_index v)) = Some pd"
    using pd by (auto split: bind_splits)
  have pt: "pte_link (vm_frame s pd (pd_index v)) \<noteq> None"
    using assms(1,2) pd unfolding vidx_def by (auto simp del: tbl.simps split: option.splits if_splits)
  then obtain pt where "pte_link (vm_frame s pd (pd_index v)) = Some pt" by blast
  then show ?thesis using assms(3) pdpt by (simp add: vmm_map_page_def get_present)
qed

lemma frame_page: "frame_addr a \<Longrightarrow> a AND NOT 0xFFF = a"
proof -
  assume a: "frame_addr a"
  have "bit (a AND NOT 0xFFF) n = bit a n" for n
    using frame_addr_bit [OF a, of n] bit_imp_le_length [of a n] by (auto simp only: bit_and_iff bit_not_iff bit_fff(1) possible_bit_word not_less)
  then show ?thesis by (intro bit_word_eqI) blast
qed

text \<open>What it means that a write fault of the page of \<open>v\<close>, mapped to \<open>old\<close>, has been resolved.\<close>

definition cow_resolved :: "u64 set \<Rightarrow> u64 \<Rightarrow> u64 \<Rightarrow> u64 \<Rightarrow> vmm \<Rightarrow> vmm \<Rightarrow> bool" where
  "cow_resolved A P v old s s' \<longleftrightarrow> pmm_wf (vm_pmm s') \<and> tables_ok (vm_frame s') A \<and>
     (\<forall>u. data_frame s A u \<longrightarrow> vm_frame s' u = vm_frame s u) \<and>
     (\<forall>Q \<in> A. \<forall>w. user w \<longrightarrow> Q = P \<and> drop_bit 12 w = drop_bit 12 v \<or> unchanged s s' Q w) \<and>
     has_bits (vmm_get_pte_flags s' P v) VMM_FLAG_WRITE \<and> \<not> has_bits (vmm_get_pte_flags s' P v) VMM_FLAG_COW \<and>
     (\<exists>new. vmm_virt_to_phys s' P v = new OR (v AND 0xFFF) \<and> vm_frame s' new = vm_frame s old \<and>
        (pmm_page_refcount (unat old) (vm_pmm s) > 1 \<longrightarrow> fresh_frame s new))"

abbreviation writable_flags :: "u64 \<Rightarrow> u64" where
  "writable_flags e \<equiv> ((e AND PTE_FLAGS) AND NOT VMM_FLAG_COW) OR VMM_FLAG_WRITE"

lemma writable_flags_bits:
  "writable_flags e AND PTE_ADDR = 0"
  "has_bits ((writable_flags e OR VMM_FLAG_PRESENT) AND PTE_FLAGS) VMM_FLAG_WRITE"
  "\<not> has_bits ((writable_flags e OR VMM_FLAG_PRESENT) AND PTE_FLAGS) VMM_FLAG_COW"
proof -
  show "writable_flags e AND PTE_ADDR = 0" by (rule bit_word_eqI) (auto simp: pte_bits)
qed (simp_all add: has_flag_bit pte_bits)

lemma unchanged_elsewhere:
  assumes ok: "tables_ok (vm_frame s) A" "tables_ok (vm_frame s') A" and v: "user v"
    and view: "\<And>Q w. Q \<in> A \<Longrightarrow> fpath w \<Longrightarrow> \<not> (Q = P \<and> w = vidx v) \<Longrightarrow> view (vm_frame s') Q w = view (vm_frame s) Q w"
  shows "\<forall>Q \<in> A. \<forall>w. user w \<longrightarrow> Q = P \<and> drop_bit 12 w = drop_bit 12 v \<or> unchanged s s' Q w"
proof (intro ballI allI impI)
  fix Q w assume Q: "Q \<in> A" "user w"
  show "Q = P \<and> drop_bit 12 w = drop_bit 12 v \<or> unchanged s s' Q w"
  proof (cases "Q = P \<and> vidx w = vidx v")
    case False
    from unchanged_view [OF ok Q view [OF Q(1) vidx_fpath [OF Q(2)] False]] show ?thesis ..
  qed (simp add: vidx_eq [OF Q(2) v])
qed

lemma cow_resolvedI:
  assumes wf: "vm_wf s A" and P: "P \<in> A" and v: "user v" and ok: "tables_ok (vm_frame s') A" "pmm_wf (vm_pmm s')"
    and view: "\<And>Q w. Q \<in> A \<Longrightarrow> fpath w \<Longrightarrow> view (vm_frame s') Q w = (if Q = P \<and> w = vidx v
       then (False, (new AND PTE_ADDR) OR writable_flags e OR VMM_FLAG_PRESENT) else view (vm_frame s) Q w)"
    and data: "\<And>u. data_frame s A u \<Longrightarrow> vm_frame s' u = vm_frame s u" "vm_frame s' (new AND PTE_ADDR) = vm_frame s old"
    and fresh: "pmm_page_refcount (unat old) (vm_pmm s) > 1 \<Longrightarrow> fresh_frame s (new AND PTE_ADDR)"
  shows "cow_resolved A P v old s s'"
proof -
  have vw: "view (vm_frame s') P (vidx v) = (False, (new AND PTE_ADDR) OR writable_flags e OR VMM_FLAG_PRESENT)"
    using view [OF P vidx_fpath [OF v]] by simp
  have un: "\<forall>Q \<in> A. \<forall>w. user w \<longrightarrow> Q = P \<and> drop_bit 12 w = drop_bit 12 v \<or> unchanged s s' Q w"
    by (rule unchanged_elsewhere [OF vm_wfD(2) [OF wf] ok(1) v]) (use view in auto)
  show ?thesis
    using un ok data fresh mapped_view(1) [OF ok(1) P v vw writable_flags_bits(1)] writable_flags_bits(2,3) [of e]
    unfolding cow_resolved_def mapped_view(2) [OF ok(1) P v vw] by blast
qed

lemma cow_last_reference:
  assumes wf: "vm_wf s A" and P: "P \<in> A" and v: "user v" and e: "view (vm_frame s) P (vidx v) = (False, e)" "bit e 0"
    and old: "old = e AND PTE_ADDR" "data_frame s A old" and rc: "\<not> pmm_page_refcount (unat old) (vm_pmm s) > 1"
  shows "cow_resolved A P v old s (snd (vmm_update_flags P (v AND NOT 0xFFF) (writable_flags e) s))"
proof -
  note pg = page_of [OF v]
  define s' where "s' = snd (vmm_update_flags P (v AND NOT 0xFFF) (writable_flags e) s)"
  have h: "view (vm_frame s) P (vidx (v AND NOT 0xFFF)) = (False, e)" using e(1) pg(3) by simp
  note u = vmm_update_flags_ok [OF wf P pg(1) h, of "writable_flags e", folded s'_def, unfolded pg(3)]
  have "cow_resolved A P v old s s'"
  proof (rule cow_resolvedI [OF wf P v, where new = e and e = e])
    show "tables_ok (vm_frame s') A" "pmm_wf (vm_pmm s')" using u vm_wfD by blast+
    show "view (vm_frame s') Q w = (if Q = P \<and> w = vidx v then (False, (e AND PTE_ADDR) OR writable_flags e OR VMM_FLAG_PRESENT)
      else view (vm_frame s) Q w)" if "Q \<in> A" "fpath w" for Q w using u e(2) that by simp
    show "vm_frame s' u = vm_frame s u" if "data_frame s A u" for u using u that by (simp add: kept_def)
    show "vm_frame s' (e AND PTE_ADDR) = vm_frame s old" using u old by (simp add: kept_def)
  qed (use rc in simp)
  then show ?thesis by (simp add: s'_def)
qed

lemma cow_copy:
  fixes old :: u64
  assumes wf: "vm_wf s A" and P: "P \<in> A" and v: "user v" and e: "view (vm_frame s) P (vidx v) = (False, e)" "bit e 0"
    and a: "frame_alloc s = Some (Some n, s1)"
  defines "s2 \<equiv> s1\<lparr> vm_frame := (vm_frame s1)(n := vm_frame s1 old) \<rparr>"
  shows "\<exists>ok s3 s'. vmm_map_page P (v AND NOT 0xFFF) n (writable_flags e) s2 = Some (ok, s3) \<and> frame_unref old s3 = Some s' \<and>
    cow_resolved A P v old s s'"
proof -
  note pg = page_of [OF v]
  note d0 = alloc_data_frame(3,4,6) [OF wf a] and dc = alloc_data_frame(1,2,5,7) [OF wf a, where c = "vm_frame s1 old", folded s2_def]
  have v2: "view (vm_frame s2) Q w = view (vm_frame s) Q w" if "Q \<in> A" "fpath w" for Q w using dc(3) [OF that] by (simp add: s2_def)
  obtain m s3 where m: "vmm_map_page P (v AND NOT 0xFFF) n (writable_flags e) s2 = Some (m, s3)" "vm_wf s3 A" "kept A s2 s3"
    "\<forall>Q \<in> A. \<forall>w. fpath w \<longrightarrow> view (vm_frame s3) Q w = (if m \<and> Q = P \<and> w = vidx (v AND NOT 0xFFF)
      then (False, (n AND PTE_ADDR) OR writable_flags e OR VMM_FLAG_PRESENT) else view (vm_frame s2) Q w)"
    using vmm_map_page_ok [OF dc(1) P pg(1), of n "writable_flags e"] by blast
  have "view (vm_frame s2) P (vidx (v AND NOT 0xFFF)) = (False, e)" using v2 [OF P vidx_fpath [OF v]] e(1) pg(3) by simp
  from map_present [OF this e(2) m(1)] have mt: "m" .
  obtain s' where s': "frame_unref old s3 = Some s'" "vm_frame s' = vm_frame s3" "pmm_wf (vm_pmm s')"
    using frame_unref_ok [OF vm_wfD(1) [OF m(2)]] by blast
  have n: "n AND PTE_ADDR = n" using d0(2) by (simp add: frame_addr_def)
  have "cow_resolved A P v old s s'"
  proof (rule cow_resolvedI [OF wf P v, where new = n and e = e])
    show "tables_ok (vm_frame s') A" using vm_wfD(2) [OF m(2)] s'(2) by simp
    show "view (vm_frame s') Q w = (if Q = P \<and> w = vidx v then (False, (n AND PTE_ADDR) OR writable_flags e OR VMM_FLAG_PRESENT)
      else view (vm_frame s) Q w)" if "Q \<in> A" "fpath w" for Q w using m(4) mt v2 [OF that] that pg(3) s'(2) by simp
    show "vm_frame s' u = vm_frame s u" if "data_frame s A u" for u
      using m(3) dc(4) [OF that] d0(3) s'(2) by (simp add: kept_def s2_def)
    show "vm_frame s' (n AND PTE_ADDR) = vm_frame s old" using m(3) dc(2) d0(3) s'(2) n by (simp add: kept_def s2_def)
    show "fresh_frame s (n AND PTE_ADDR)" using d0(1) n by simp
  qed (rule s'(3))
  then show ?thesis using m(1) s'(1) by blast
qed

text \<open>C12. A write fault on a present copy-on-write 4 KB page of non-zero frame is resolved, or memory is
exhausted and nothing changes.  When it is resolved, the page is writable and no longer copy-on-write, and reads the same
contents as before.  If the frame was shared the page has a frame of its own that was in nobody's use.  The
other pages, the other address spaces and the contents of the other frames of data are unchanged.\<close>

theorem cow_fault_gives_private_page:
  assumes wf: "vm_wf s A" and P: "P \<in> A" and v: "user v" and e: "view (vm_frame s) P (vidx v) = (False, e)"
    "bit e 0" "has_bits e VMM_FLAG_COW" and old: "old = e AND PTE_ADDR" "old \<noteq> 0" "data_frame s A old"
  shows "\<exists>ok s'. vmm_handle_cow_fault P v s = Some (ok, s') \<and> (\<not> ok \<longrightarrow> s' = s \<and> pmm_exhausted (vm_pmm s)) \<and>
    (ok \<longrightarrow> pmm_wf (vm_pmm s') \<and> tables_ok (vm_frame s') A \<and>
       (\<forall>u. data_frame s A u \<longrightarrow> vm_frame s' u = vm_frame s u) \<and>
       (\<forall>Q \<in> A. \<forall>w. user w \<longrightarrow> Q = P \<and> drop_bit 12 w = drop_bit 12 v \<or> unchanged s s' Q w) \<and>
       has_bits (vmm_get_pte_flags s' P v) VMM_FLAG_WRITE \<and> \<not> has_bits (vmm_get_pte_flags s' P v) VMM_FLAG_COW \<and>
       (\<exists>new. vmm_virt_to_phys s' P v = new OR (v AND 0xFFF) \<and> vm_frame s' new = vm_frame s old \<and>
          (pmm_page_refcount (unat old) (vm_pmm s) > 1 \<longrightarrow> fresh_frame s new)))"
proof -
  let ?pg = "v AND NOT 0xFFF"
  note pg = page_of [OF v]
  note tr = translate_view [OF vm_wfD(2) [OF wf] P pg(1)]
  have fl: "vmm_get_pte_flags s P ?pg = e AND PTE_FLAGS" using tr(2) e(1) pg(3) by simp
  have cow: "has_bits (e AND PTE_FLAGS) VMM_FLAG_COW" using e(3) by (simp add: has_flag_bit pte_bits)
  have "vmm_virt_to_phys s P ?pg = old" using tr(1) e(1,2) pg(3,4) old(1) by simp
  then have ph: "vmm_virt_to_phys s P ?pg AND NOT 0xFFF = old" using frame_page [of old] old(1) by simp
  note ev = vmm_handle_cow_fault_def [of P v s, unfolded Let_def fl ph]
  obtain r s1 where a: "frame_alloc s = Some (r, s1)" "r = None \<longrightarrow> s1 = s \<and> pmm_exhausted (vm_pmm s)"
    using frame_alloc_ok [OF vm_wfD(1) [OF wf]] by blast
  have "\<exists>ok s'. vmm_handle_cow_fault P v s = Some (ok, s') \<and> (\<not> ok \<longrightarrow> s' = s \<and> pmm_exhausted (vm_pmm s)) \<and> (ok \<longrightarrow> cow_resolved A P v old s s')"
  proof (cases "pmm_page_refcount (unat old) (vm_pmm s) \<le> 1")
    case True
    then show ?thesis using cow_last_reference [OF wf P v e(1,2) old(1,3) leD [OF True]] ev cow old(2) by auto
  next
    case False
    show ?thesis
    proof (cases r)
      case None
      then have "vmm_handle_cow_fault P v s = Some (False, s)" using ev a False cow old(2) by simp
      then show ?thesis using a(2) None by blast
    next
      case (Some n)
      obtain m s3 s' where "vmm_map_page P ?pg n (writable_flags e) (s1\<lparr> vm_frame := (vm_frame s1)(n := vm_frame s1 old) \<rparr>) = Some (m, s3)"
        "frame_unref old s3 = Some s'" "cow_resolved A P v old s s'"
        using cow_copy [OF wf P v e(1,2) a(1) [unfolded Some]] by blast
      then show ?thesis using ev a(1) Some False cow old(2) by auto
    qed
  qed
  then show ?thesis unfolding cow_resolved_def .
qed

lemma demo_vm_data: "data_frame demo_vm {0x10000} 0x14000"
proof -
  have "tbl (vm_frame demo_vm) 0x10000 q \<noteq> Some 0x14000" if "upath q" for q
  proof -
    have "length q = 0 \<or> length q = 1 \<or> length q = 2 \<or> length q = 3" using that unfolding upath_def by arith
    then show ?thesis using demo_vm_tbl [OF that] by (auto split: if_splits)
  qed
  then show ?thesis using demo_vm_in_use [of "0x14000"] by (simp add: data_frame_def frame_addr_def PTE_ADDR_def page_at_def)
qed

theorem cow_fault_gives_private_page_witness:
  "\<exists>ok s'. vmm_handle_cow_fault 0x10000 0 demo_vm = Some (ok, s') \<and> ok \<and>
    has_bits (vmm_get_pte_flags s' 0x10000 0) VMM_FLAG_WRITE \<and> \<not> has_bits (vmm_get_pte_flags s' 0x10000 0) VMM_FLAG_COW"
proof -
  have "\<not> pmm_exhausted (vm_pmm demo_vm)" using demo_vm_room by (simp add: demo_vm_def)
  moreover have "user 0" "bit (0x14205 :: u64) 0" "has_bits 0x14205 VMM_FLAG_COW" "0x14000 = 0x14205 AND PTE_ADDR"
    by (simp_all add: user_def has_bits_def VMM_FLAG_COW_def PTE_ADDR_def)
  ultimately show ?thesis
    using cow_fault_gives_private_page [OF demo_vm_wf _ _ demo_vm_view, of "0x14000"] demo_vm_data by auto
qed

lemma user_pte_bits:
  "user_pte_flags write prot AND PTE_ADDR = 0"
  "has_bits ((user_pte_flags write prot OR VMM_FLAG_PRESENT) AND PTE_FLAGS) VMM_FLAG_WRITE = write"
  "has_bits ((user_pte_flags write prot OR VMM_FLAG_PRESENT) AND PTE_FLAGS) VMM_FLAG_NX = (prot AND PROT_EXEC = 0)"
proof -
  show "user_pte_flags write prot AND PTE_ADDR = 0" by (rule bit_word_eqI) (auto simp: user_pte_flags_def pte_bits)
  have nx: "has_bits x VMM_FLAG_NX \<longleftrightarrow> bit x 63" for x
  proof -
    have "x AND VMM_FLAG_NX = (if bit x 63 then VMM_FLAG_NX else 0)" by (rule bit_word_eqI) (auto simp: pte_bits)
    then show ?thesis by (simp add: has_bits_def VMM_FLAG_NX_def)
  qed
  show "has_bits ((user_pte_flags write prot OR VMM_FLAG_PRESENT) AND PTE_FLAGS) VMM_FLAG_WRITE = write"
    "has_bits ((user_pte_flags write prot OR VMM_FLAG_PRESENT) AND PTE_FLAGS) VMM_FLAG_NX = (prot AND PROT_EXEC = 0)"
    by (auto simp: nx has_flag_bit user_pte_flags_def pte_bits)
qed

text \<open>The frame given to a fault is mapped with the protection of the area and cleared.\<close>

lemma fault_fill:
  assumes wf: "vm_wf s A" and P: "P \<in> A" and v: "user v" and nh: "\<not> fst (view (vm_frame s) P (vidx v))"
    and a: "frame_alloc s = Some (Some n, s1)" and fl: "fl = user_pte_flags wr prot"
  shows "\<exists>ok s2. vmm_map_page P (v AND NOT 0xFFF) n fl s1 = Some (ok, s2) \<and> vm_wf (zero_frame n s2) A \<and>
    (\<forall>Q \<in> A. \<forall>w. user w \<longrightarrow> Q = P \<and> drop_bit 12 w = drop_bit 12 v \<or> unchanged s (zero_frame n s2) Q w) \<and>
    (\<forall>u. data_frame s A u \<longrightarrow> vm_frame (zero_frame n s2) u = vm_frame s u) \<and>
    (pmm_exhausted (vm_pmm (zero_frame n s2)) \<or>
       fresh_frame s n \<and> vmm_virt_to_phys (zero_frame n s2) P v = n OR (v AND 0xFFF) \<and> vm_frame (zero_frame n s2) n = (\<lambda>i. 0) \<and>
       vmm_get_pte_flags (zero_frame n s2) P v = (fl OR VMM_FLAG_PRESENT) AND PTE_FLAGS)"
proof -
  note pg = page_of [OF v]
  have s1: "s1\<lparr> vm_frame := vm_frame s1 \<rparr> = s1" by simp
  note d0 = alloc_data_frame(3,4,6) [OF wf a] and
    dc = alloc_data_frame(1,2,5,7) [OF wf a, where c = "vm_frame s1 n", unfolded fun_upd_triv s1]
  obtain m s2 where m: "vmm_map_page P (v AND NOT 0xFFF) n fl s1 = Some (m, s2)" "vm_wf s2 A" "kept A s1 s2"
    "\<forall>Q \<in> A. \<forall>w. fpath w \<longrightarrow> view (vm_frame s2) Q w = (if m \<and> Q = P \<and> w = vidx (v AND NOT 0xFFF)
      then (False, (n AND PTE_ADDR) OR fl OR VMM_FLAG_PRESENT) else view (vm_frame s1) Q w)"
    "\<not> m \<longrightarrow> pmm_exhausted (vm_pmm s2) \<or> fst (view (vm_frame s1) P (vidx (v AND NOT 0xFFF)))"
    using vmm_map_page_ok [OF dc(1) P pg(1), of n fl] by blast
  define s' where "s' = zero_frame n s2"
  have dn: "data_frame s2 A n" using m(3) dc(2) by (simp add: kept_def)
  have low: "vm_frame s' u i = vm_frame s2 u i" if "Q \<in> A" "upath q" "tbl (vm_frame s2) Q q = Some u" for Q q u i
    using data_frame_not_table [OF dn that] by (simp add: s'_def zero_frame_def)
  have mono: "used_mono s2 s'" using vm_wfD(1) [OF m(2)] by (simp add: used_mono_def s'_def zero_frame_def)
  have wf': "vm_wf s' A" and tb: "\<And>Q q. Q \<in> A \<Longrightarrow> upath q \<Longrightarrow> tbl (vm_frame s') Q q = tbl (vm_frame s2) Q q"
    by (rule vm_leaf_tables [OF m(2) mono]; use low in blast)+
  note ok' = vm_wfD(2) [OF wf']
  have vw: "view (vm_frame s') Q w = (if m \<and> Q = P \<and> w = vidx v
      then (False, (n AND PTE_ADDR) OR fl OR VMM_FLAG_PRESENT) else view (vm_frame s) Q w)" if Q: "Q \<in> A" "fpath w" for Q w
  proof -
    have "view (vm_frame s') Q w = view (vm_frame s2) Q w" by (rule view_tables [OF Q(2) tb [OF Q(1)]]) (use low Q(1) in blast)+
    then show ?thesis using m(4) Q pg(3) d0(3) by simp
  qed
  have un: "\<forall>Q \<in> A. \<forall>w. user w \<longrightarrow> Q = P \<and> drop_bit 12 w = drop_bit 12 v \<or> unchanged s s' Q w"
    by (rule unchanged_elsewhere [OF vm_wfD(2) [OF wf] ok' v]) (use vw in auto)
  have un2: "vm_frame s' u = vm_frame s u" if "data_frame s A u" for u
    using d0(3) dc(4) [OF that] m(3) by (simp add: kept_def s'_def zero_frame_def)
  have "pmm_exhausted (vm_pmm s') \<or> fresh_frame s n \<and> vmm_virt_to_phys s' P v = n OR (v AND 0xFFF) \<and> vm_frame s' n = (\<lambda>i. 0) \<and>
       vmm_get_pte_flags s' P v = (fl OR VMM_FLAG_PRESENT) AND PTE_FLAGS"
  proof (cases m)
    case True
    have e: "view (vm_frame s') P (vidx v) = (False, (n AND PTE_ADDR) OR fl OR VMM_FLAG_PRESENT)"
      using vw [OF P vidx_fpath [OF v]] True by simp
    have "fl AND PTE_ADDR = 0" "n AND PTE_ADDR = n" using fl user_pte_bits(1) d0(2) by (simp_all add: frame_addr_def)
    then show ?thesis using mapped_view [OF ok' P v e] d0(1) by (simp add: s'_def zero_frame_def)
  next
    case False
    then have "pmm_exhausted (vm_pmm s2)" using m(5) pg(3) nh d0(3) by simp
    then show ?thesis by (simp add: s'_def zero_frame_def)
  qed
  then show ?thesis using m(1) wf' un un2 unfolding s'_def by blast
qed

text \<open>C14. Demand paging.  A fault that is not a write to a present user page is refused, without any change, when the
address lies in no area of the task.  In an area, on an address that no huge page covers, it is refused without any
change if memory is exhausted.  Otherwise it is accepted, and if memory is left at the end the page is mapped: to a frame that
was in nobody's use, filled with zeros, writable and executable exactly as the protection of the first area
holding the address says, and nothing else changes.\<close>

theorem demand_paging:
  assumes wf: "vm_wf s A" and P: "mt_pml4 t = Some P" "P \<in> A" and v: "user v" and err: "err AND 3 \<noteq> 3"
    and nh: "\<not> fst (view (vm_frame s) P (vidx v))"
  defines "area \<equiv> find (\<lambda>a. v \<ge> vma_start a \<and> v < vma_end a) (mt_vmas t)"
  shows "\<exists>ok s'. vmm_handle_page_fault v err (Some t) s = Some (ok, s') \<and> vm_wf s' A \<and>
    (\<not> ok \<longrightarrow> s' = s \<and> (area = None \<or> pmm_exhausted (vm_pmm s))) \<and>
    (\<forall>Q \<in> A. \<forall>w. user w \<longrightarrow> Q = P \<and> drop_bit 12 w = drop_bit 12 v \<or> unchanged s s' Q w) \<and>
    (\<forall>u. data_frame s A u \<longrightarrow> vm_frame s' u = vm_frame s u) \<and>
    (ok \<longrightarrow> (\<exists>a. area = Some a \<and> (pmm_exhausted (vm_pmm s') \<or>
       (\<exists>n. fresh_frame s n \<and> vmm_virt_to_phys s' P v = n OR (v AND 0xFFF) \<and> vm_frame s' n = (\<lambda>i. 0) \<and>
          has_bits (vmm_get_pte_flags s' P v) VMM_FLAG_WRITE = (vma_prot a AND PROT_WRITE \<noteq> 0) \<and>
          has_bits (vmm_get_pte_flags s' P v) VMM_FLAG_NX = (vma_prot a AND PROT_EXEC = 0)))))"
proof -
  have refl: "unchanged s s Q w" for Q w by (simp add: unchanged_def)
  note ev = vmm_handle_page_fault_def [of v err "Some t" s]
  show ?thesis
  proof (cases area)
    case None
    then have "vmm_handle_page_fault v err (Some t) s = Some (False, s)" using err P(1) unfolding ev area_def by simp
    then show ?thesis using wf None refl by blast
  next
    case (Some a)
    obtain r s1 where al: "frame_alloc s = Some (r, s1)" "r = None \<longrightarrow> s1 = s \<and> pmm_exhausted (vm_pmm s)"
      using frame_alloc_ok [OF vm_wfD(1) [OF wf]] by blast
    show ?thesis
    proof (cases r)
      case None
      then have "vmm_handle_page_fault v err (Some t) s = Some (False, s)" using err P(1) al Some unfolding ev area_def by simp
      then show ?thesis using wf None refl al(2) by blast
    next
      case n: (Some n)
      obtain m s2 where f: "vmm_map_page P (v AND NOT 0xFFF) n (user_pte_flags (vma_prot a AND PROT_WRITE \<noteq> 0) (vma_prot a)) s1 = Some (m, s2)"
        and g: "vm_wf (zero_frame n s2) A"
          "\<forall>Q \<in> A. \<forall>w. user w \<longrightarrow> Q = P \<and> drop_bit 12 w = drop_bit 12 v \<or> unchanged s (zero_frame n s2) Q w"
          "\<forall>u. data_frame s A u \<longrightarrow> vm_frame (zero_frame n s2) u = vm_frame s u"
        and h: "pmm_exhausted (vm_pmm (zero_frame n s2)) \<or>
          fresh_frame s n \<and> vmm_virt_to_phys (zero_frame n s2) P v = n OR (v AND 0xFFF) \<and> vm_frame (zero_frame n s2) n = (\<lambda>i. 0) \<and>
          vmm_get_pte_flags (zero_frame n s2) P v
            = (user_pte_flags (vma_prot a AND PROT_WRITE \<noteq> 0) (vma_prot a) OR VMM_FLAG_PRESENT) AND PTE_FLAGS"
        using fault_fill [OF wf P(2) v nh al(1) [unfolded n]] by blast
      have r: "vmm_handle_page_fault v err (Some t) s = Some (True, zero_frame n s2)"
        using err P(1) al(1) n Some f unfolding ev area_def by simp
      have "pmm_exhausted (vm_pmm (zero_frame n s2)) \<or>
        (\<exists>n'. fresh_frame s n' \<and> vmm_virt_to_phys (zero_frame n s2) P v = n' OR (v AND 0xFFF) \<and> vm_frame (zero_frame n s2) n' = (\<lambda>i. 0) \<and>
          has_bits (vmm_get_pte_flags (zero_frame n s2) P v) VMM_FLAG_WRITE = (vma_prot a AND PROT_WRITE \<noteq> 0) \<and>
          has_bits (vmm_get_pte_flags (zero_frame n s2) P v) VMM_FLAG_NX = (vma_prot a AND PROT_EXEC = 0))"
        using h user_pte_bits(2,3) [of "vma_prot a AND PROT_WRITE \<noteq> 0" "vma_prot a"] by auto
      then show ?thesis using r g Some by blast
    qed
  qed
qed

definition demo_task :: mm_task where
  "demo_task = \<lparr> mt_pml4 = Some 0x10000, mt_vmas = [\<lparr> vma_start = 0x5000, vma_end = 0x8000, vma_flags = MAP_ANONYMOUS, vma_prot = PROT_WRITE \<rparr>],
     mt_brk_start = 0, mt_brk_current = 0 \<rparr>"

theorem demand_paging_witness:
  "(\<exists>s'. vmm_handle_page_fault 0x6010 6 (Some demo_task) demo_vm = Some (True, s') \<and> unchanged demo_vm s' 0x10000 0) \<and>
   vmm_handle_page_fault 0x9000 6 (Some demo_task) demo_vm = Some (False, demo_vm)"
proof -
  have u: "user 0x6010" "user 0x9000" "user 0" and e: "(6 :: u64) AND 3 \<noteq> 3" by (simp_all add: user_def)
  have p: "mt_pml4 demo_task = Some 0x10000" by (simp add: demo_task_def)
  have nh: "\<not> fst (view (vm_frame demo_vm) 0x10000 (vidx 0x6010))" "\<not> fst (view (vm_frame demo_vm) 0x10000 (vidx 0x9000))"
    by (simp_all add: vidx_def pml4_index_def pdpt_index_def pd_index_def pt_index_def demo_vm_def pte_link_def PTE_ADDR_def)
  have x: "\<not> pmm_exhausted (vm_pmm demo_vm)" using demo_vm_room by (simp add: demo_vm_def)
  have d: "drop_bit 12 (0 :: u64) \<noteq> drop_bit 12 (0x6010 :: u64)" by simp
  have a: "find (\<lambda>a. 0x6010 \<ge> vma_start a \<and> 0x6010 < vma_end a) (mt_vmas demo_task) \<noteq> None"
    "find (\<lambda>a. 0x9000 \<ge> vma_start a \<and> 0x9000 < vma_end a) (mt_vmas demo_task) = None" by (simp_all add: demo_task_def)
  note f = demand_paging [OF demo_vm_wf p insertI1 u(1) e nh(1)] and g = demand_paging [OF demo_vm_wf p insertI1 u(2) e nh(2)]
  obtain ok s' where r: "vmm_handle_page_fault 0x6010 6 (Some demo_task) demo_vm = Some (ok, s')" "ok"
    and q: "\<forall>Q \<in> {0x10000}. \<forall>w. user w \<longrightarrow> Q = 0x10000 \<and> drop_bit 12 w = drop_bit 12 (0x6010 :: u64) \<or> unchanged demo_vm s' Q w"
    using f a(1) x by (elim exE conjE) (rule that, assumption, rule ccontr, simp, assumption)
  have "unchanged demo_vm s' 0x10000 0" using bspec [OF q insertI1, rule_format, OF u(3)] d by simp
  moreover obtain ok' t' where "vmm_handle_page_fault 0x9000 6 (Some demo_task) demo_vm = Some (ok', t')"
    "\<not> ok' \<longrightarrow> t' = demo_vm" "\<not> ok'"
    using g unfolding a(2) by (elim exE conjE) simp
  ultimately show ?thesis using r by auto
qed

end
