(* ===== verification/Sched.thy ===== *)
theory Sched
  imports YamGraph "HOL-Library.Multiset"
begin

text \<open>
  The scheduler of \<^verbatim>\<open>src/src/sched/sched.c\<close>: run queues sorted by virtual runtime, the timer
  tick, sleeping and waking, exit, reaping and signals.  A \<^verbatim>\<open>task_t *\<close> is a natural number,
  the task structures are a store indexed by it.  The occupied part of the array
  \<^verbatim>\<open>rq->tasks[256]\<close> is a list, so the shifting loops are list insertion and removal; the binary
  search is the source's.  The sleep list and the deferred-reap list are lists of tasks (the source
  threads both through \<^verbatim>\<open>wait_next\<close>, and a task is on one of them at a time).  Spinlocks are not
  modelled: each operation is one atomic step.  Tasks run on the boot CPU, as \<^verbatim>\<open>sched_yield\<close> has it.
\<close>

section \<open>Types\<close>

definition SCHED_MAX_CPUS :: nat where [yam_consts]: "SCHED_MAX_CPUS = 8"
definition RQ_SIZE :: nat where [yam_consts]: "RQ_SIZE = 256"
definition SCHED_LATENCY_TICKS :: nat where [yam_consts]: "SCHED_LATENCY_TICKS = 8"
definition SCHED_MIN_GRANULARITY_TICKS :: nat where [yam_consts]: "SCHED_MIN_GRANULARITY_TICKS = 1"
definition SCHED_MAX_GRANULARITY_TICKS :: nat where [yam_consts]: "SCHED_MAX_GRANULARITY_TICKS = 6"
definition SIGKILL :: nat where [yam_consts]: "SIGKILL = 9"
definition SIGSTOP :: nat where [yam_consts]: "SIGSTOP = 17"
definition SIG_MAX :: nat where [yam_consts]: "SIG_MAX = 32"
definition AI_HINT_BATCH :: u8 where [yam_consts]: "AI_HINT_BATCH = 1"
definition AI_HINT_REALTIME :: u8 where [yam_consts]: "AI_HINT_REALTIME = 2"
definition SCHED_PRIO_LEVELS :: nat where [yam_consts]: "SCHED_PRIO_LEVELS = 4"
definition SCHED_STACK_SIZE :: u64 where [yam_consts]: "SCHED_STACK_SIZE = 16384"
definition MAX_CHILDREN :: nat where [yam_consts]: "MAX_CHILDREN = 32"
definition GRAPH_NODE_INVALID :: u32 where [yam_consts]: "GRAPH_NODE_INVALID = - 1"

datatype task_state = TASK_READY | TASK_RUNNING | TASK_BLOCKED | TASK_ZOMBIE | TASK_STOPPED | TASK_DEAD

record task =
  t_rsp :: u64
  t_id :: u64
  t_name :: string
  t_prio :: nat
  t_state :: task_state
  t_nice :: int
  t_cpu :: nat
  t_affinity :: u64
  t_ticks :: u64
  t_vruntime :: u64
  t_weight :: u32
  t_wakeup :: u64
  t_utime :: u64
  t_stime :: u64
  t_vol_switches :: u64
  t_invol_switches :: u64
  t_slice :: u32
  t_need_resched :: bool
  t_accounted :: bool
  t_reap_queued :: bool
  t_start_tick :: u64
  t_rss :: u64
  t_parent :: "nat option"
  t_children :: "nat list"
  t_exit_code :: int
  t_signals :: u32
  t_ai_hint :: u8
  t_entry :: u64
  t_arg :: u64
  t_cwd :: string
  t_brk_start :: u64
  t_brk :: u64
  t_tls :: u64
  t_pml4 :: u64
  t_vma_head :: u64
  t_stack :: u64
  t_fpu :: u64
  t_has_fds :: bool
  t_thread_group :: u64
  t_graph_node :: u32
  t_freed :: bool

record runqueue =
  rq_tasks :: "nat list"
  rq_min_vruntime :: u64
  rq_load_weight :: u64
  rq_nr_switches :: u64
  rq_last_pick_id :: u64

text \<open>
  Addresses of the assembly entry points the kernel image provides.
\<close>

record kimage =
  addr_task_trampoline :: u64
  addr_fork_trampoline :: u64
  addr_user_thread_stub :: u64

record sched =
  sc_task :: "nat \<Rightarrow> task"
  sc_rq :: "nat \<Rightarrow> runqueue"
  sc_active :: "nat \<Rightarrow> nat option"
  sc_sleep :: "nat list"
  sc_reap :: "nat list"
  sc_current :: nat
  sc_idle :: nat
  sc_cpu_ticks :: u64
  sc_idle_ticks :: u64
  sc_sched_cpus :: nat
  sc_enabled :: bool
  sc_next_id :: u64
  sc_total :: u64
  sc_created :: u64
  sc_forked :: u64
  sc_threads :: u64
  sc_orphans :: u64
  sc_reaped :: u64
  sc_detached_reaped :: u64
  sc_vma_destroyed :: u64
  sc_pml4_destroyed :: u64
  sc_fds_closed :: u64
  sc_stacks_freed :: u64
  sc_nodes_destroyed :: u64
  sc_objects_freed :: u64
  sc_graph :: yamgraph
  sc_mem :: "u64 \<Rightarrow> u64"
  sc_image :: kimage

definition upd_task :: "nat \<Rightarrow> (task \<Rightarrow> task) \<Rightarrow> sched \<Rightarrow> sched" where
  "upd_task t f s = s\<lparr> sc_task := (sc_task s)(t := f (sc_task s t)) \<rparr>"

definition upd_rq :: "nat \<Rightarrow> runqueue \<Rightarrow> sched \<Rightarrow> sched" where
  "upd_rq cpu rq s = s\<lparr> sc_rq := (sc_rq s)(cpu := rq) \<rparr>"

section \<open>Run queues\<close>

text \<open>The binary search of \<^verbatim>\<open>rq_insert\<close>: the first slot whose task is not before the new one.\<close>

function rq_search :: "(nat \<Rightarrow> u64) \<Rightarrow> nat list \<Rightarrow> u64 \<Rightarrow> nat \<Rightarrow> nat \<Rightarrow> nat" where
  "rq_search vr ts v lo hi =
     (if lo < hi
      then let mid = (lo + hi) div 2 in
           if vr (ts ! mid) < v then rq_search vr ts v (mid + 1) hi else rq_search vr ts v lo mid
      else lo)"
  by pat_completeness auto
termination
  by (relation "measure (\<lambda>(vr, ts, v, lo, hi). hi - lo)") auto

declare rq_search.simps [simp del]

definition eff_weight :: "task \<Rightarrow> u64" where
  "eff_weight t = (if t_weight t = 0 then 1 else ucast (t_weight t))"

text \<open>\<^verbatim>\<open>rq_insert(rq, t)\<close> also sets the task's state; a full queue drops the task silently.\<close>

definition rq_insert_queue :: "(nat \<Rightarrow> task) \<Rightarrow> nat \<Rightarrow> runqueue \<Rightarrow> runqueue" where
  "rq_insert_queue T t rq =
     (let lo = rq_search (\<lambda>x. t_vruntime (T x)) (rq_tasks rq) (t_vruntime (T t)) 0 (length (rq_tasks rq));
          ts = take lo (rq_tasks rq) @ t # drop lo (rq_tasks rq)
      in rq\<lparr> rq_tasks := ts, rq_load_weight := rq_load_weight rq + eff_weight (T t),
             rq_min_vruntime := if length ts = 1 \<or> t_vruntime (T t) < rq_min_vruntime rq
               then t_vruntime (T t) else rq_min_vruntime rq \<rparr>)"

definition rq_insert :: "nat \<Rightarrow> nat \<Rightarrow> sched \<Rightarrow> sched" where
  "rq_insert cpu t s =
     (if length (rq_tasks (sc_rq s cpu)) \<ge> RQ_SIZE then s
      else let s1 = upd_task t (\<lambda>k. k\<lparr> t_state := TASK_READY \<rparr>) s
        in upd_rq cpu (rq_insert_queue (sc_task s1) t (sc_rq s1 cpu)) s1)"

definition rq_pick_queue :: "(nat \<Rightarrow> task) \<Rightarrow> runqueue \<Rightarrow> (nat \<times> runqueue) option" where
  "rq_pick_queue T rq =
     (case rq_tasks rq of
        [] \<Rightarrow> None
      | t # ts \<Rightarrow> Some (t, rq\<lparr> rq_tasks := ts,
          rq_load_weight := if rq_load_weight rq \<ge> eff_weight (T t)
            then rq_load_weight rq - eff_weight (T t) else 0,
          rq_min_vruntime := (case ts of [] \<Rightarrow> 0 | u # us \<Rightarrow> t_vruntime (T u)),
          rq_nr_switches := rq_nr_switches rq + 1,
          rq_last_pick_id := t_id (T t) \<rparr>))"

definition rq_pick_next :: "nat \<Rightarrow> sched \<Rightarrow> nat option \<times> sched" where
  "rq_pick_next cpu s =
     (case rq_pick_queue (sc_task s) (sc_rq s cpu) of
        None \<Rightarrow> (None, s)
      | Some (t, rq) \<Rightarrow> (Some t, upd_rq cpu rq s))"

section \<open>Weights, slices, CPU choice\<close>

definition nice_to_weight :: "u32 list" where
  "nice_to_weight =
     [88761, 71755, 56483, 46273, 36291, 29154, 23254, 18705, 14949, 11916,
      9548, 7620, 6100, 4904, 3906, 3121, 2501, 1991, 1586, 1277,
      1024, 820, 655, 526, 423, 335, 272, 215, 172, 137,
      110, 87, 70, 56, 45, 36, 29, 23, 18, 15]"

definition weight_for_nice :: "int \<Rightarrow> u32" where
  "weight_for_nice nice =
     (let idx = nice + 20; idx = (if idx < 0 then 0 else idx); idx = (if idx \<ge> 40 then 39 else idx)
      in nice_to_weight ! nat idx)"

definition sched_effective_slice_ticks :: "runqueue \<Rightarrow> task \<Rightarrow> nat" where
  "sched_effective_slice_ticks rq t =
     (let runnable = length (rq_tasks rq) + 1;
          base = SCHED_LATENCY_TICKS div runnable;
          base = (if base < SCHED_MIN_GRANULARITY_TICKS then SCHED_MIN_GRANULARITY_TICKS else base);
          base = (if base > SCHED_MAX_GRANULARITY_TICKS then SCHED_MAX_GRANULARITY_TICKS else base);
          base = (if t_nice t < 0 \<and> base < SCHED_MAX_GRANULARITY_TICKS then base + 1 else base);
          base = (if t_nice t > 5 \<and> base > SCHED_MIN_GRANULARITY_TICKS then base - 1 else base);
          base = (if t_ai_hint t = AI_HINT_REALTIME \<and> base < SCHED_MAX_GRANULARITY_TICKS
                  then base + 1 else base);
          base = (if t_ai_hint t = AI_HINT_BATCH \<and> base > SCHED_MIN_GRANULARITY_TICKS
                  then base - 1 else base)
      in base)"

definition sched_cpu_limit :: "nat \<Rightarrow> nat" where
  "sched_cpu_limit n = (let n = (if n = 0 then 1 else n) in if n > SCHED_MAX_CPUS then SCHED_MAX_CPUS else n)"

definition sched_pick_cpu_for_task :: "nat \<Rightarrow> sched \<Rightarrow> nat" where
  "sched_pick_cpu_for_task t s =
     fst (fold (\<lambda>cpu (best_cpu, best_count).
           if \<not> bit (t_affinity (sc_task s t)) cpu then (best_cpu, best_count)
           else if length (rq_tasks (sc_rq s cpu)) < best_count
             then (cpu, length (rq_tasks (sc_rq s cpu))) else (best_cpu, best_count))
         [0..<sched_cpu_limit (sc_sched_cpus s)] (0, 0xFFFFFFFF))"

section \<open>Blocking and waking\<close>

definition sched_unblock :: "nat \<Rightarrow> sched \<Rightarrow> sched" where
  "sched_unblock t s =
     (let cpu = sched_pick_cpu_for_task t s;
          s1 = upd_task t (\<lambda>k. k\<lparr> t_cpu := cpu \<rparr>) s
      in if t_state (sc_task s1 t) = TASK_BLOCKED \<or> t_state (sc_task s1 t) = TASK_STOPPED
         then rq_insert cpu t s1 else s1)"

definition switch_to :: "nat \<Rightarrow> sched \<Rightarrow> sched" where
  "switch_to nxt s =
     (upd_task nxt (\<lambda>k. k\<lparr> t_state := TASK_RUNNING, t_slice := 0, t_need_resched := False, t_cpu := 0 \<rparr>) s)
       \<lparr> sc_current := nxt, sc_active := (sc_active s)(0 := Some nxt) \<rparr>"

definition sched_sleep_until :: "u64 \<Rightarrow> sched \<Rightarrow> sched" where
  "sched_sleep_until deadline s =
     (let cur = sc_current s;
          s1 = (upd_task cur (\<lambda>k. k\<lparr> t_state := TASK_BLOCKED, t_wakeup := deadline \<rparr>) s)
                 \<lparr> sc_sleep := cur # sc_sleep s \<rparr>
      in case rq_pick_next 0 s1 of
           (None, s2) \<Rightarrow> s2
         | (Some nxt, s2) \<Rightarrow> switch_to nxt s2)"

definition task_sleep_ms :: "u64 \<Rightarrow> sched \<Rightarrow> sched" where
  "task_sleep_ms ms s =
     (let tk = (ms + 9) div 10; tk = (if tk = 0 then 1 else tk)
      in sched_sleep_until (sc_cpu_ticks s + tk) s)"

section \<open>Task bookkeeping, exit and reaping\<close>

definition sched_task_is_active :: "nat \<Rightarrow> sched \<Rightarrow> bool" where
  "sched_task_is_active t s = list_ex (\<lambda>cpu. sc_active s cpu = Some t) [0..<SCHED_MAX_CPUS]"

definition sched_task_in_runqueue :: "nat \<Rightarrow> sched \<Rightarrow> bool" where
  "sched_task_in_runqueue t s = list_ex (\<lambda>cpu. t \<in> set (rq_tasks (sc_rq s cpu))) [0..<SCHED_MAX_CPUS]"

definition sched_drop_task_count :: "nat \<Rightarrow> sched \<Rightarrow> sched" where
  "sched_drop_task_count t s =
     (if \<not> t_accounted (sc_task s t) then s
      else let s1 = (if sc_total s > 0 then s\<lparr> sc_total := sc_total s - 1 \<rparr> else s)
        in upd_task t (\<lambda>k. k\<lparr> t_accounted := False \<rparr>) s1)"

definition sched_queue_deferred_reap :: "nat \<Rightarrow> sched \<Rightarrow> sched" where
  "sched_queue_deferred_reap t s =
     (if t_reap_queued (sc_task s t) then s
      else (upd_task t (\<lambda>k. k\<lparr> t_reap_queued := True \<rparr>) s)\<lparr> sc_reap := t # sc_reap s \<rparr>)"

text \<open>Removing slot \<open>i\<close> by moving the last child into it.\<close>

definition remove_child_at :: "nat \<Rightarrow> nat list \<Rightarrow> nat list" where
  "remove_child_at i cs = butlast (cs[i := last cs])"

definition sched_unlink_from_parent :: "nat \<Rightarrow> sched \<Rightarrow> sched" where
  "sched_unlink_from_parent t s =
     (case t_parent (sc_task s t) of
        None \<Rightarrow> s
      | Some p \<Rightarrow>
          let cs = t_children (sc_task s p);
              s1 = (case scan (\<lambda>i. cs ! i = t) 0 (length cs) of
                      None \<Rightarrow> s
                    | Some i \<Rightarrow> upd_task p (\<lambda>k. k\<lparr> t_children := remove_child_at i cs \<rparr>) s)
          in upd_task t (\<lambda>k. k\<lparr> t_parent := None \<rparr>) s1)"

text \<open>
  Releasing what a task owns.  The frees themselves are calls into the memory managers and the file
  layer; the model has the pointers the task loses, the counters, and the graph node.
\<close>

definition release_address_space :: "nat \<Rightarrow> sched \<Rightarrow> sched" where
  "release_address_space t s =
     (let s1 = (if t_vma_head (sc_task s t) \<noteq> 0
                then s\<lparr> sc_vma_destroyed := sc_vma_destroyed s + 1 \<rparr> else s);
          s2 = upd_task t (\<lambda>k. k\<lparr> t_vma_head := 0 \<rparr>) s1
      in if t_pml4 (sc_task s2 t) \<noteq> 0
         then (upd_task t (\<lambda>k. k\<lparr> t_pml4 := 0 \<rparr>) s2)\<lparr> sc_pml4_destroyed := sc_pml4_destroyed s2 + 1 \<rparr>
         else s2)"

definition release_fds :: "nat \<Rightarrow> sched \<Rightarrow> sched" where
  "release_fds t s =
     (let s1 = upd_task t (\<lambda>k. k\<lparr> t_has_fds := False \<rparr>) s
      in if t_has_fds (sc_task s t) then s1\<lparr> sc_fds_closed := sc_fds_closed s1 + 1 \<rparr> else s1)"

definition release_stack :: "nat \<Rightarrow> sched \<Rightarrow> sched" where
  "release_stack t s =
     (if t_stack (sc_task s t) \<noteq> 0
      then (upd_task t (\<lambda>k. k\<lparr> t_stack := 0 \<rparr>) s)\<lparr> sc_stacks_freed := sc_stacks_freed s + 1 \<rparr>
      else s)"

definition release_fpu :: "nat \<Rightarrow> sched \<Rightarrow> sched" where
  "release_fpu t s = upd_task t (\<lambda>k. k\<lparr> t_fpu := 0 \<rparr>) s"

definition release_node :: "nat \<Rightarrow> sched \<Rightarrow> sched" where
  "release_node t s =
     (let nid = t_graph_node (sc_task s t)
      in if nid \<noteq> GRAPH_NODE_INVALID \<and> nid \<noteq> 0
         then case yamgraph_node_destroy (ucast nid) (sc_graph s) of (ok, g) \<Rightarrow>
           upd_task t (\<lambda>k. k\<lparr> t_graph_node := GRAPH_NODE_INVALID \<rparr>)
             (s\<lparr> sc_graph := g, sc_nodes_destroyed := sc_nodes_destroyed s + (if ok then 1 else 0) \<rparr>)
         else s)"

definition release_object :: "nat \<Rightarrow> sched \<Rightarrow> sched" where
  "release_object t s =
     (upd_task t (\<lambda>k. k\<lparr> t_freed := True \<rparr>) s)\<lparr> sc_objects_freed := sc_objects_freed s + 1 \<rparr>"

definition sched_destroy_task_resources :: "nat \<Rightarrow> bool \<Rightarrow> bool \<Rightarrow> bool \<Rightarrow> sched \<Rightarrow> sched" where
  "sched_destroy_task_resources t destroy_as close_fds free_object s =
     (let s1 = (if destroy_as then release_address_space t s else s);
          s2 = (if close_fds then release_fds t s1 else s1);
          s3 = release_node t (release_fpu t (release_stack t s2))
      in if free_object then release_object t s3 else s3)"

definition sched_task_owns_address_space :: "nat \<Rightarrow> sched \<Rightarrow> bool" where
  "sched_task_owns_address_space t s \<longleftrightarrow> t_pml4 (sc_task s t) \<noteq> 0 \<and> t_thread_group (sc_task s t) = 0"

definition sched_reap_detached_dead_task :: "nat \<Rightarrow> sched \<Rightarrow> sched" where
  "sched_reap_detached_dead_task t s =
     (if t = sc_current s \<or> sched_task_is_active t s \<or> sched_task_in_runqueue t s
      then sched_queue_deferred_reap t s
      else let s1 = sched_unlink_from_parent t s;
               s2 = sched_drop_task_count t s1;
               s3 = upd_task t (\<lambda>k. k\<lparr> t_state := TASK_DEAD, t_reap_queued := False \<rparr>) s2;
               s4 = s3\<lparr> sc_reaped := sc_reaped s3 + 1, sc_detached_reaped := sc_detached_reaped s3 + 1 \<rparr>
        in sched_destroy_task_resources t (sched_task_owns_address_space t s4) True True s4)"

definition reap_deferred_one :: "nat \<Rightarrow> sched \<Rightarrow> sched" where
  "reap_deferred_one t s =
     (let s1 = upd_task t (\<lambda>k. k\<lparr> t_reap_queued := False \<rparr>) s
      in if sched_task_is_active t s1 then sched_queue_deferred_reap t s1
         else sched_reap_detached_dead_task t s1)"

definition sched_reap_deferred_dead_tasks :: "sched \<Rightarrow> sched" where
  "sched_reap_deferred_dead_tasks s = fold reap_deferred_one (sc_reap s) (s\<lparr> sc_reap := [] \<rparr>)"

definition orphan_child :: "nat \<Rightarrow> sched \<Rightarrow> sched" where
  "orphan_child c s =
     (let s1 = (upd_task c (\<lambda>k. k\<lparr> t_parent := None \<rparr>) s)\<lparr> sc_orphans := sc_orphans s + 1 \<rparr>
      in if t_state (sc_task s1 c) = TASK_ZOMBIE \<or> t_state (sc_task s1 c) = TASK_DEAD
         then let s2 = upd_task c (\<lambda>k. k\<lparr> t_state := TASK_DEAD \<rparr>) s1;
                  s3 = sched_drop_task_count c s2
           in if \<not> sched_task_in_runqueue c s3 then sched_queue_deferred_reap c s3 else s3
         else s1)"

definition sched_orphan_children :: "nat \<Rightarrow> sched \<Rightarrow> sched" where
  "sched_orphan_children p s =
     (let cs = t_children (sc_task s p);
          pm = t_pml4 (sc_task s p);
          shared = list_ex (\<lambda>c. pm \<noteq> 0 \<and> t_pml4 (sc_task s c) = pm) cs;
          s1 = upd_task p (\<lambda>k. k\<lparr> t_children := [] \<rparr>) (fold orphan_child cs s)
      in if cs = [] then s
         else if shared then upd_task p (\<lambda>k. k\<lparr> t_pml4 := 0, t_vma_head := 0 \<rparr>) s1 else s1)"

definition sched_exit_current :: "int \<Rightarrow> sched \<Rightarrow> sched" where
  "sched_exit_current code s =
     (let cur = sc_current s;
          s1 = upd_task cur (\<lambda>k. k\<lparr> t_exit_code := code \<rparr>) s;
          s2 = sched_orphan_children cur s1;
          s3 = upd_task cur (\<lambda>k. k\<lparr> t_state := if t_parent k \<noteq> None then TASK_ZOMBIE else TASK_DEAD \<rparr>) s2
      in if t_parent (sc_task s3 cur) = None
         then sched_queue_deferred_reap cur (sched_drop_task_count cur s3) else s3)"

section \<open>Yield, tick, signals, wait\<close>

text \<open>Skipping dead tasks at the head of the queue; the first sixteen not yet queued are remembered.\<close>

fun skip_dead :: "nat \<Rightarrow> nat option \<times> sched \<Rightarrow> nat list \<Rightarrow> nat option \<times> nat list \<times> sched" where
  "skip_dead 0 (n, s) dead = (n, dead, s)"
| "skip_dead (Suc fuel) (n, s) dead =
     (case n of
        None \<Rightarrow> (None, dead, s)
      | Some t \<Rightarrow>
          if t_state (sc_task s t) \<noteq> TASK_DEAD then (Some t, dead, s)
          else if t_reap_queued (sc_task s t) then skip_dead fuel (rq_pick_next 0 s) dead
          else if length dead < 16 then skip_dead fuel (rq_pick_next 0 s) (dead @ [t])
          else skip_dead fuel (rq_pick_next 0 (sched_queue_deferred_reap t s)) dead)"

text \<open>Every round takes one task off the queue: one more round than there are tasks is enough.\<close>

definition sched_yield :: "sched \<Rightarrow> sched" where
  "sched_yield s =
     (if \<not> sc_enabled s then s
      else let s0 = sched_reap_deferred_dead_tasks s;
               cur = sc_current s0
        in case skip_dead (Suc (length (rq_tasks (sc_rq s0 0)))) (rq_pick_next 0 s0) [] of
             (None, dead, s1) \<Rightarrow> fold sched_reap_detached_dead_task dead s1
           | (Some nxt, dead, s1) \<Rightarrow>
               let s2 = (if t_state (sc_task s1 cur) = TASK_RUNNING
                         then rq_insert 0 cur (upd_task cur (\<lambda>k. k\<lparr> t_vol_switches := t_vol_switches k + 1,
                                t_slice := 0, t_need_resched := False \<rparr>) s1)
                         else s1)
               in switch_to nxt (fold sched_reap_detached_dead_task dead s2))"

definition sched_maybe_preempt :: "sched \<Rightarrow> sched" where
  "sched_maybe_preempt s =
     (let cur = sc_current s in
      if \<not> sc_enabled s \<or> \<not> t_need_resched (sc_task s cur) then s
      else if t_state (sc_task s cur) \<noteq> TASK_RUNNING \<or> cur = sc_idle s then s
      else sched_yield (upd_task cur (\<lambda>k. k\<lparr> t_need_resched := False \<rparr>) s))"

definition account_tick :: "sched \<Rightarrow> sched" where
  "account_tick s =
     (let cur = sc_current s;
          s1 = upd_task cur (\<lambda>k. k\<lparr> t_ticks := t_ticks k + 1, t_slice := t_slice k + 1,
                 t_stime := t_stime k + 1,
                 t_vruntime := t_vruntime k + (1024 * 1024) div eff_weight k
                   - (if t_ai_hint k = AI_HINT_BATCH then 128 else 0) \<rparr>) s
      in if cur = sc_idle s1 then s1\<lparr> sc_idle_ticks := sc_idle_ticks s1 + 1 \<rparr>
         else if unat (t_slice (sc_task s1 cur)) \<ge> sched_effective_slice_ticks (sc_rq s1 0) (sc_task s1 cur)
         then upd_task cur (\<lambda>k. k\<lparr> t_need_resched := True \<rparr>) s1
         else s1)"

definition wake_sleepers :: "u64 \<Rightarrow> sched \<Rightarrow> sched" where
  "wake_sleepers now s =
     fold sched_unblock (filter (\<lambda>t. t_wakeup (sc_task s t) \<le> now) (sc_sleep s))
       (s\<lparr> sc_sleep := filter (\<lambda>t. \<not> t_wakeup (sc_task s t) \<le> now) (sc_sleep s) \<rparr>)"

definition tick_signals :: "nat \<Rightarrow> sched \<Rightarrow> sched" where
  "tick_signals cur s =
     (if bit (t_signals (sc_task s cur)) SIGKILL
      then upd_task cur (\<lambda>k. k\<lparr> t_need_resched := True \<rparr>) (sched_exit_current (128 + int SIGKILL) s)
      else if bit (t_signals (sc_task s cur)) SIGSTOP
      then upd_task cur (\<lambda>k. k\<lparr> t_state := TASK_STOPPED, t_signals := unset_bit SIGSTOP (t_signals k) \<rparr>) s
      else s)"

definition sched_tick :: "sched \<Rightarrow> sched" where
  "sched_tick s =
     (let s1 = s\<lparr> sc_cpu_ticks := sc_cpu_ticks s + 1 \<rparr>;
          cur = sc_current s1;
          s2 = account_tick s1;
          s3 = wake_sleepers (sc_cpu_ticks s2) s2;
          s4 = tick_signals cur s3
      in upd_task cur (\<lambda>k. k\<lparr> t_invol_switches := t_invol_switches k + 1 \<rparr>) s4)"

definition sched_kill_task :: "u64 \<Rightarrow> sched \<Rightarrow> sched" where
  "sched_kill_task pid s =
     (if pid = 0 \<or> pid = 1 \<or> pid = 2 then s
      else fold (\<lambda>cpu s.
        let s1 = (case sc_active s cpu of
              Some a \<Rightarrow> if t_id (sc_task s a) = pid
                then upd_task a (\<lambda>k. k\<lparr> t_signals := set_bit SIGKILL (t_signals k), t_need_resched := True \<rparr>) s
                else s
            | None \<Rightarrow> s)
        in fold (\<lambda>t s. if t_id (sc_task s t) = pid
                  then upd_task t (\<lambda>k. k\<lparr> t_signals := set_bit SIGKILL (t_signals k) \<rparr>) s else s)
             (rq_tasks (sc_rq s1 cpu)) s1) [0..<SCHED_MAX_CPUS] s)"

text \<open>The first task with the identifier: active ones first, then the run queues in CPU order.\<close>

definition find_active :: "u64 \<Rightarrow> sched \<Rightarrow> nat option" where
  "find_active pid s = List.find (\<lambda>t. t_id (sc_task s t) = pid)
     (concat (map (\<lambda>c. case sc_active s c of None \<Rightarrow> [] | Some a \<Rightarrow> [a]) [0..<SCHED_MAX_CPUS]))"

definition find_queued :: "u64 \<Rightarrow> sched \<Rightarrow> nat option" where
  "find_queued pid s = List.find (\<lambda>t. t_id (sc_task s t) = pid)
     (concat (map (\<lambda>c. rq_tasks (sc_rq s c)) [0..<SCHED_MAX_CPUS]))"

definition sys_kill :: "u64 \<Rightarrow> u32 \<Rightarrow> sched \<Rightarrow> int \<times> sched" where
  "sys_kill pid sig s =
     (if unat sig \<ge> SIG_MAX then (- 1, s)
      else case find_active pid s of
        Some t \<Rightarrow> (0, upd_task t (\<lambda>k. k\<lparr> t_signals := set_bit (unat sig) (t_signals k),
                    t_need_resched := True \<rparr>) s)
      | None \<Rightarrow>
          (case find_queued pid s of
             Some t \<Rightarrow> (0, upd_task t (\<lambda>k. k\<lparr> t_signals := set_bit (unat sig) (t_signals k) \<rparr>) s)
           | None \<Rightarrow> (- 1, s)))"

text \<open>
  One pass of \<^verbatim>\<open>sched_waitpid\<close> over the children: \<open>Some\<close> the reaped child's id and status word, or
  \<open>None\<close> when no matching child has exited (the caller then returns 0 or sleeps and tries again).
\<close>

definition waitpid_pass :: "int \<Rightarrow> sched \<Rightarrow> (u64 \<times> int) option \<times> sched" where
  "waitpid_pass pid s =
     (let cur = sc_current s; cs = t_children (sc_task s cur) in
      case scan (\<lambda>i. \<not> (pid > 0 \<and> sint (t_id (sc_task s (cs ! i))) \<noteq> pid)
               \<and> (t_state (sc_task s (cs ! i)) = TASK_ZOMBIE \<or> t_state (sc_task s (cs ! i)) = TASK_DEAD))
             0 (length cs) of
        None \<Rightarrow> (None, s)
      | Some i \<Rightarrow>
          let c = cs ! i;
              wstatus = (t_exit_code (sc_task s c) mod 256) * 256;
              s1 = upd_task c (\<lambda>k. k\<lparr> t_state := TASK_DEAD \<rparr>) (sched_drop_task_count c s);
              owns = (t_pml4 (sc_task s1 c) \<noteq> 0 \<and> t_pml4 (sc_task s1 c) \<noteq> t_pml4 (sc_task s1 cur));
              s2 = upd_task cur (\<lambda>k. k\<lparr> t_children := remove_child_at i (t_children k) \<rparr>) s1;
              s3 = s2\<lparr> sc_reaped := sc_reaped s2 + 1 \<rparr>
          in (Some (t_id (sc_task s3 c), wstatus), sched_destroy_task_resources c owns True True s3))"

definition sched_set_nice :: "nat \<Rightarrow> int \<Rightarrow> sched \<Rightarrow> sched" where
  "sched_set_nice t nice s =
     (let nice = (if nice < - 20 then - 20 else nice); nice = (if nice > 19 then 19 else nice)
      in upd_task t (\<lambda>k. k\<lparr> t_nice := nice, t_weight := weight_for_nice nice \<rparr>) s)"

definition sched_set_affinity :: "nat \<Rightarrow> u64 \<Rightarrow> sched \<Rightarrow> sched" where
  "sched_set_affinity t m s = upd_task t (\<lambda>k. k\<lparr> t_affinity := m \<rparr>) s"

definition sched_set_ai_hint :: "nat \<Rightarrow> u8 \<Rightarrow> sched \<Rightarrow> sched" where
  "sched_set_ai_hint t h s = upd_task t (\<lambda>k. k\<lparr> t_ai_hint := h \<rparr>) s"

definition sched_waitpid :: "int \<Rightarrow> u32 \<Rightarrow> sched \<Rightarrow> (u64 \<times> int option) option \<times> sched" where
  "sched_waitpid pid opts s =
     (case waitpid_pass pid s of
        (Some (ret, status), s1) \<Rightarrow> (Some (ret, Some status), s1)
      | (None, s1) \<Rightarrow> if bit opts 0 then (Some (0, None), s1) else (None, task_sleep_ms 10 s1))"

definition sched_drain_deferred_reaps :: "sched \<Rightarrow> sched" where
  "sched_drain_deferred_reaps s = (if sc_enabled s then sched_reap_deferred_dead_tasks s else s)"

definition sched_enable :: "sched \<Rightarrow> sched" where
  "sched_enable s = s\<lparr> sc_enabled := True \<rparr>"

section \<open>Initialisation and task creation\<close>

text \<open>
  What the allocators answer during a creation: the task object, the kernel stack, the FPU area, the
  page-table root and the copied VMA list, 0 or \<open>None\<close> for a failure.  Stacks are words of
  \<open>sc_mem\<close>, by address.
\<close>

record task_alloc =
  al_task :: "nat option"
  al_stack :: u64
  al_fpu :: u64
  al_pml4 :: u64
  al_vmas :: "u64 option"

definition zero_task :: task where
  "zero_task = \<lparr> t_rsp = 0, t_id = 0, t_name = [], t_prio = 0, t_state = TASK_READY, t_nice = 0, t_cpu = 0,
     t_affinity = 0, t_ticks = 0, t_vruntime = 0, t_weight = 0, t_wakeup = 0, t_utime = 0, t_stime = 0,
     t_vol_switches = 0, t_invol_switches = 0, t_slice = 0, t_need_resched = False, t_accounted = False,
     t_reap_queued = False, t_start_tick = 0, t_rss = 0, t_parent = None, t_children = [],
     t_exit_code = 0, t_signals = 0, t_ai_hint = 0, t_entry = 0, t_arg = 0, t_cwd = [], t_brk_start = 0,
     t_brk = 0, t_tls = 0, t_pml4 = 0, t_vma_head = 0, t_stack = 0, t_fpu = 0, t_has_fds = False,
     t_thread_group = 0, t_graph_node = 0, t_freed = False \<rparr>"

definition zero_rq :: runqueue where
  "zero_rq = \<lparr> rq_tasks = [], rq_min_vruntime = 0, rq_load_weight = 0, rq_nr_switches = 0,
     rq_last_pick_id = 0 \<rparr>"

definition sched_init :: "nat option \<Rightarrow> u64 \<Rightarrow> sched \<Rightarrow> sched" where
  "sched_init boot fpu s =
     (let s1 = s\<lparr> sc_rq := \<lambda>cpu. if cpu < SCHED_MAX_CPUS then zero_rq else sc_rq s cpu \<rparr>
      in case boot of
           None \<Rightarrow> s1
         | Some b \<Rightarrow> (upd_task b (\<lambda>k. zero_task\<lparr> t_prio := SCHED_PRIO_LEVELS - 1,
               t_weight := weight_for_nice 0, t_state := TASK_RUNNING, t_affinity := - 1,
               t_name := ''bsp'', t_cwd := ''/'', t_brk_start := 0x400000, t_brk := 0x400000,
               t_fpu := fpu, t_accounted := True \<rparr>) s1)
             \<lparr> sc_current := b, sc_idle := b, sc_active := (sc_active s1)(0 := Some b), sc_total := 1,
               sc_created := 1 \<rparr>)"

text \<open>The pushes \<^verbatim>\<open>*--sp = w\<close> of a list of words, first word first.\<close>

definition push_words :: "u64 list \<Rightarrow> u64 \<times> (u64 \<Rightarrow> u64) \<Rightarrow> u64 \<times> (u64 \<Rightarrow> u64)" where
  "push_words ws sm = fold (\<lambda>w (sp, m). (sp - 8, m(sp - 8 := w))) ws sm"

text \<open>Putting a created task on a run queue and counting it.\<close>

definition enqueue_new :: "nat \<Rightarrow> nat \<Rightarrow> sched \<Rightarrow> sched" where
  "enqueue_new cpu t s =
     (let s1 = upd_task t (\<lambda>k. k\<lparr> t_vruntime := rq_min_vruntime (sc_rq s cpu) \<rparr>) s;
          s2 = rq_insert cpu t s1;
          s3 = upd_task t (\<lambda>k. k\<lparr> t_accounted := True \<rparr>) s2
      in s3\<lparr> sc_total := sc_total s3 + 1, sc_created := sc_created s3 + 1 \<rparr>)"

text \<open>The node of a new task; the identifier is stored in 32 bits.\<close>

definition attach_node :: "nat \<Rightarrow> sched \<Rightarrow> sched" where
  "attach_node t s =
     (case yamgraph_node_create YAM_NODE_TASK (Some (t_name (sc_task s t))) (Data_ptr (of_nat t)) (sc_graph s) of
        (nid, g) \<Rightarrow> upd_task t (\<lambda>k. k\<lparr> t_graph_node := ucast nid \<rparr>) (s\<lparr> sc_graph := g \<rparr>))"

definition add_child :: "nat \<Rightarrow> nat \<Rightarrow> sched \<Rightarrow> sched" where
  "add_child p t s = upd_task p (\<lambda>k. k\<lparr> t_children := t_children k @ [t] \<rparr>) s"

definition sched_spawn ::
  "string \<Rightarrow> u64 \<Rightarrow> u64 \<Rightarrow> nat \<Rightarrow> task_alloc \<Rightarrow> sched \<Rightarrow> nat option \<times> sched" where
  "sched_spawn name entry arg prio al s =
     (case al_task al of
        None \<Rightarrow> (None, s)
      | Some t \<Rightarrow>
          let p = sc_current s;
              s1 = (upd_task t (\<lambda>_. zero_task\<lparr> t_graph_node := GRAPH_NODE_INVALID, t_id := sc_next_id s,
                      t_prio := if prio < SCHED_PRIO_LEVELS then prio else SCHED_PRIO_LEVELS - 1,
                      t_weight := weight_for_nice 0, t_affinity := - 1, t_entry := entry, t_arg := arg,
                      t_parent := Some p, t_start_tick := sc_cpu_ticks s, t_brk_start := 0x400000,
                      t_brk := 0x400000, t_name := take 23 name,
                      t_cwd := if t_cwd (sc_task s p) \<noteq> [] then take 255 (t_cwd (sc_task s p))
                               else ''/'' \<rparr>) s)\<lparr> sc_next_id := sc_next_id s + 1 \<rparr>;
              s2 = attach_node t s1
          in if t_graph_node (sc_task s2 t) = GRAPH_NODE_INVALID
             then (None, sched_destroy_task_resources t False False True s2)
             else let s3 = upd_task t (\<lambda>k. k\<lparr> t_stack := al_stack al \<rparr>) s2
               in if al_stack al = 0 then (None, sched_destroy_task_resources t False False True s3)
               else let s4 = upd_task t (\<lambda>k. k\<lparr> t_fpu := al_fpu al \<rparr>) s3
                 in if al_fpu al = 0 then (None, sched_destroy_task_resources t False False True s4)
                 else case push_words [entry, arg, addr_task_trampoline (sc_image s4), 0, 0, 0, 0, 0, 0, 2]
                             (al_stack al + SCHED_STACK_SIZE, sc_mem s4) of
                   (sp, m) \<Rightarrow>
                   let s5 = (upd_task t (\<lambda>k. k\<lparr> t_rsp := sp \<rparr>) s4)\<lparr> sc_mem := m \<rparr>;
                       s6 = (if length (t_children (sc_task s5 p)) < MAX_CHILDREN then add_child p t s5 else s5);
                       cpu = sched_pick_cpu_for_task t s6;
                       s7 = upd_task t (\<lambda>k. k\<lparr> t_cpu := cpu \<rparr>) s6
                   in (Some t, enqueue_new cpu t s7))"

section \<open>Fork and threads\<close>

text \<open>\<^verbatim>\<open>memcpy\<close> and \<^verbatim>\<open>memset\<close> over a whole kernel stack.\<close>

definition copy_stack :: "u64 \<Rightarrow> u64 \<Rightarrow> (u64 \<Rightarrow> u64) \<Rightarrow> u64 \<Rightarrow> u64" where
  "copy_stack dst src m = (\<lambda>a. if a - dst < SCHED_STACK_SIZE then m (a - dst + src) else m a)"

definition clear_stack :: "u64 \<Rightarrow> (u64 \<Rightarrow> u64) \<Rightarrow> u64 \<Rightarrow> u64" where
  "clear_stack dst m = (\<lambda>a. if a - dst < SCHED_STACK_SIZE then 0 else m a)"

text \<open>The nine words \<^verbatim>\<open>frame[0..8]\<close> stored upwards from the new stack pointer.\<close>

definition store_frame :: "u64 \<Rightarrow> u64 list \<Rightarrow> (u64 \<Rightarrow> u64) \<Rightarrow> u64 \<Rightarrow> u64" where
  "store_frame a ws m = fold (\<lambda>i m. m(a + 8 * of_nat i := ws ! i)) [0..<length ws] m"

definition sched_fork_arm_child :: "nat \<Rightarrow> nat \<Rightarrow> u64 \<Rightarrow> sched \<Rightarrow> bool \<times> sched" where
  "sched_fork_arm_child child parent resume_rsp s =
     (let ps = t_stack (sc_task s parent); cs = t_stack (sc_task s child) in
      if resume_rsp < ps \<or> resume_rsp > ps + SCHED_STACK_SIZE then (False, s)
      else let resume = cs + (resume_rsp - ps)
        in if resume_rsp < ps + 72 then (False, s)
        else let frame = cs + ((resume_rsp - 72) - ps);
                 s1 = s\<lparr> sc_mem := store_frame frame
                        [0x202, 0, 0, 0, 0, 0, 0, addr_fork_trampoline (sc_image s), resume] (sc_mem s) \<rparr>
          in (True, upd_task child (\<lambda>k. k\<lparr> t_rsp := frame \<rparr>) s1))"

text \<open>The part of the parent's task structure a new process or thread keeps.\<close>

definition inherit_task :: "nat \<Rightarrow> u64 \<Rightarrow> u64 \<Rightarrow> task \<Rightarrow> task" where
  "inherit_task p nid now k = k\<lparr> t_id := nid, t_parent := Some p, t_children := [], t_state := TASK_READY,
     t_exit_code := 0, t_signals := 0, t_start_tick := now, t_utime := 0, t_stime := 0,
     t_vol_switches := 0, t_invol_switches := 0, t_slice := 0, t_need_resched := False,
     t_accounted := False, t_reap_queued := False, t_stack := 0, t_fpu := 0,
     t_graph_node := GRAPH_NODE_INVALID, t_freed := False \<rparr>"

definition sys_fork :: "u64 \<Rightarrow> task_alloc \<Rightarrow> sched \<Rightarrow> u64 option \<times> sched" where
  "sys_fork resume_rsp al s =
     (let p = sc_current s in
      if length (t_children (sc_task s p)) \<ge> MAX_CHILDREN then (None, s)
      else case al_task al of
        None \<Rightarrow> (None, s)
      | Some c \<Rightarrow>
          let s1 = (upd_task c (\<lambda>_. (inherit_task p (sc_next_id s) (sc_cpu_ticks s) (sc_task s p))
                      \<lparr> t_pml4 := 0, t_vma_head := 0, t_tls := 0, t_thread_group := 0 \<rparr>) s)
                      \<lparr> sc_next_id := sc_next_id s + 1 \<rparr>;
              s2 = upd_task c (\<lambda>k. k\<lparr> t_stack := al_stack al \<rparr>) s1
          in if al_stack al = 0 then (None, sched_destroy_task_resources c False False True s2)
             else let s3 = upd_task c (\<lambda>k. k\<lparr> t_fpu := al_fpu al \<rparr>)
                        (s2\<lparr> sc_mem := copy_stack (al_stack al) (t_stack (sc_task s2 p)) (sc_mem s2) \<rparr>)
               in if al_fpu al = 0 then (None, sched_destroy_task_resources c False False True s3)
               else let s4 = (if t_pml4 (sc_task s3 p) \<noteq> 0
                              then upd_task c (\<lambda>k. k\<lparr> t_pml4 := al_pml4 al \<rparr>) s3 else s3)
                 in if t_pml4 (sc_task s3 p) \<noteq> 0 \<and> al_pml4 al = 0
                 then (None, sched_destroy_task_resources c False False True s4)
                 else case al_vmas al of
                   None \<Rightarrow> (None, sched_destroy_task_resources c (t_pml4 (sc_task s4 c) \<noteq> 0) False True s4)
                 | Some vmas \<Rightarrow>
                   let s5 = attach_node c (upd_task c (\<lambda>k. k\<lparr> t_vma_head := vmas \<rparr>) s4)
                   in if t_graph_node (sc_task s5 c) = GRAPH_NODE_INVALID
                   then (None, sched_destroy_task_resources c (t_pml4 (sc_task s5 c) \<noteq> 0) False True s5)
                   else case sched_fork_arm_child c p resume_rsp s5 of
                     (False, s6) \<Rightarrow>
                       (None, sched_destroy_task_resources c (t_pml4 (sc_task s6 c) \<noteq> 0) False True s6)
                   | (True, s6) \<Rightarrow>
                       let s7 = enqueue_new 0 c (add_child p c s6)
                       in (Some (t_id (sc_task s7 c)), s7\<lparr> sc_forked := sc_forked s7 + 1 \<rparr>))"

definition sched_thread_create ::
  "string option \<Rightarrow> u64 \<Rightarrow> u64 \<Rightarrow> u64 \<Rightarrow> u64 \<Rightarrow> task_alloc \<Rightarrow> sched \<Rightarrow> nat option \<times> sched" where
  "sched_thread_create name entry stack_top arg tls al s =
     (let p = sc_current s in
      if length (t_children (sc_task s p)) \<ge> MAX_CHILDREN then (None, s)
      else case al_task al of
        None \<Rightarrow> (None, s)
      | Some c \<Rightarrow>
          let pk = sc_task s p;
              s1 = (upd_task c (\<lambda>_. (inherit_task p (sc_next_id s) (sc_cpu_ticks s) pk)
                      \<lparr> t_tls := tls,
                        t_thread_group := if t_thread_group pk \<noteq> 0 then t_thread_group pk else t_id pk,
                        t_name := case name of None \<Rightarrow> t_name pk | Some n \<Rightarrow> take 23 n,
                        t_stack := al_stack al \<rparr>) s)\<lparr> sc_next_id := sc_next_id s + 1 \<rparr>
          in if al_stack al = 0 then (None, sched_destroy_task_resources c False False True s1)
             else let s2 = upd_task c (\<lambda>k. k\<lparr> t_fpu := al_fpu al \<rparr>)
                        (s1\<lparr> sc_mem := clear_stack (al_stack al) (sc_mem s1) \<rparr>)
               in if al_fpu al = 0 then (None, sched_destroy_task_resources c False False True s2)
               else let s3 = attach_node c (upd_task c (\<lambda>k. k\<lparr> t_pml4 := t_pml4 pk \<rparr>) s2)
                 in if t_graph_node (sc_task s3 c) = GRAPH_NODE_INVALID
                 then (None, sched_destroy_task_resources c False False True s3)
                 else case push_words [0x1B, stack_top, 0x202, 0x23, entry, arg,
                             addr_user_thread_stub (sc_image s3), 0, 0, 0, 0, 0, 0, 0x202]
                           (al_stack al + SCHED_STACK_SIZE, sc_mem s3) of
                   (sp, m) \<Rightarrow>
                   let s4 = (upd_task c (\<lambda>k. k\<lparr> t_rsp := sp \<rparr>) s3)\<lparr> sc_mem := m \<rparr>;
                       s5 = enqueue_new 0 c (add_child p c s4)
                   in (Some c, s5\<lparr> sc_threads := sc_threads s5 + 1 \<rparr>))"

end
