(* ===== verification/Sched_Inv.thy ===== *)
theory Sched_Inv
  imports Sched
begin

text \<open>
  Run queues as priority queues, and the scheduler's invariant: sorted, duplicate-free queues of ready
  tasks, a sleep list of blocked tasks, a list of dead tasks to reap, and no freed task reachable from
  any of them.
\<close>

section \<open>The run queue is a priority queue\<close>

text \<open>The binary search returns the length of the prefix of smaller keys.\<close>

lemma rq_search_bounds: "lo \<le> hi \<Longrightarrow> lo \<le> rq_search vr ts v lo hi \<and> rq_search vr ts v lo hi \<le> hi"
proof (induction vr ts v lo hi rule: rq_search.induct)
  case (1 vr ts v lo hi)
  show ?case
  proof (cases "lo < hi")
    case True
    let ?m = "(lo + hi) div 2"
    have m: "lo \<le> ?m" "?m < hi" using True by auto
    have "?m + 1 \<le> rq_search vr ts v (?m + 1) hi \<and> rq_search vr ts v (?m + 1) hi \<le> hi" if "vr (ts ! ?m) < v"
      using 1 True m that by simp
    moreover have "lo \<le> rq_search vr ts v lo ?m \<and> rq_search vr ts v lo ?m \<le> ?m" if "\<not> vr (ts ! ?m) < v"
      using 1 True m that by simp
    ultimately show ?thesis using m True by (subst (1 2) rq_search.simps) (auto simp: Let_def)
  next
    case False
    then show ?thesis using 1(3) by (subst (1 2) rq_search.simps) simp
  qed
qed

lemma rq_search_correct:
  assumes "sorted (map vr ts)" "lo \<le> hi" "hi \<le> length ts"
    and "\<forall>i<lo. vr (ts ! i) < v" "\<forall>i. hi \<le> i \<and> i < length ts \<longrightarrow> v \<le> vr (ts ! i)"
  shows "(\<forall>i < rq_search vr ts v lo hi. vr (ts ! i) < v) \<and>
    (\<forall>i. rq_search vr ts v lo hi \<le> i \<and> i < length ts \<longrightarrow> v \<le> vr (ts ! i))"
  using assms
proof (induction vr ts v lo hi rule: rq_search.induct)
  case (1 vr ts v lo hi)
  show ?case
  proof (cases "lo < hi")
    case True
    let ?m = "(lo + hi) div 2"
    have m: "lo \<le> ?m" "?m < hi" "?m < length ts" using True 1(5) by auto
    have mono: "vr (ts ! i) \<le> vr (ts ! j)" if "i \<le> j" "j < length ts" for i j
      using 1(3) that by (simp add: sorted_iff_nth_mono)
    show ?thesis
    proof (cases "vr (ts ! ?m) < v")
      case lt: True
      have "\<forall>i<?m + 1. vr (ts ! i) < v" 
        using mono [of _ ?m] m(3) lt by (auto simp: less_Suc_eq_le intro: le_less_trans)
      moreover have "rq_search vr ts v lo hi = rq_search vr ts v (?m + 1) hi"
        using True lt by (simp add: rq_search.simps [of vr ts v lo hi] Let_def)
      moreover have "?m + 1 \<le> hi" using m by simp
      ultimately show ?thesis
        using 1(1) [OF True refl lt 1(3) _ 1(5) _ 1(7)] by simp
    next
      case ge: False
      have "\<forall>i. ?m \<le> i \<and> i < length ts \<longrightarrow> v \<le> vr (ts ! i)" 
        using mono [of ?m] ge by (auto simp: not_less intro: order_trans)
      moreover have "rq_search vr ts v lo hi = rq_search vr ts v lo ?m"
        using True ge by (simp add: rq_search.simps [of vr ts v lo hi] Let_def)
      moreover have "?m \<le> length ts" using m by simp
      ultimately show ?thesis
        using 1(2) [OF True refl ge 1(3) m(1) _ 1(6)] by simp
    qed
  next
    case False
    then have "rq_search vr ts v lo hi = lo" by (subst rq_search.simps) simp
    moreover have "lo = hi" using False 1(4) by simp
    ultimately show ?thesis using 1(6,7) by simp
  qed
qed

lemma insort_at:
  assumes "n \<le> length ts" "\<forall>i<n. f (ts ! i) < f x" "\<forall>i. n \<le> i \<and> i < length ts \<longrightarrow> f x \<le> f (ts ! i)"
  shows "take n ts @ x # drop n ts = insort_key f x ts"
  using assms
proof (induction ts arbitrary: n)
  case (Cons y ys)
  show ?case
  proof (cases n)
    case 0
    then have "f x \<le> f y" using Cons.prems(3) by force
    then show ?thesis using 0 by simp
  next
    case (Suc k)
    then have "f y < f x" using Cons.prems(2) by force
    moreover have "f (ys ! i) < f x" if "i < k" for i
      using Cons.prems(2) Suc that by (auto dest: spec [of _ "Suc i"])
    moreover have "f x \<le> f (ys ! i)" if "k \<le> i" "i < length ys" for i
      using Cons.prems(3) Suc that by (auto dest: spec [of _ "Suc i"])
    moreover have "k \<le> length ys" using Cons.prems(1) Suc by simp
    ultimately show ?thesis using Suc Cons.IH [of k] by (simp add: not_le [symmetric])
  qed
qed simp

lemma rq_insert_is_insort:
  assumes "sorted (map (\<lambda>x. t_vruntime (T x)) (rq_tasks rq))"
  shows "rq_tasks (rq_insert_queue T t rq) = insort_key (\<lambda>x. t_vruntime (T x)) t (rq_tasks rq)"
proof -
  let ?n = "rq_search (\<lambda>x. t_vruntime (T x)) (rq_tasks rq) (t_vruntime (T t)) 0 (length (rq_tasks rq))"
  have "?n \<le> length (rq_tasks rq)"
    using rq_search_bounds [of 0 "length (rq_tasks rq)"] by blast
  moreover have "(\<forall>i<?n. t_vruntime (T (rq_tasks rq ! i)) < t_vruntime (T t)) \<and>
      (\<forall>i. ?n \<le> i \<and> i < length (rq_tasks rq) \<longrightarrow> t_vruntime (T t) \<le> t_vruntime (T (rq_tasks rq ! i)))"
    by (rule rq_search_correct [OF assms]) auto
  ultimately have "take ?n (rq_tasks rq) @ t # drop ?n (rq_tasks rq) =
      insort_key (\<lambda>x. t_vruntime (T x)) t (rq_tasks rq)"
    by (intro insort_at) auto
  then show ?thesis
    unfolding rq_insert_queue_def Let_def by simp
qed

text \<open>The contract of a minimum-first queue, and what a client may conclude: draining it gives every
element once, in order of the keys.\<close>

locale min_queue =
  fixes put :: "'e \<Rightarrow> 'q \<Rightarrow> 'q"
    and pick :: "'q \<Rightarrow> ('e \<times> 'q) option"
    and elems :: "'q \<Rightarrow> 'e multiset"
    and ordered :: "'q \<Rightarrow> bool"
    and key :: "'e \<Rightarrow> 'k::linorder"
  assumes put_ordered: "ordered q \<Longrightarrow> ordered (put x q)"
    and put_elems: "ordered q \<Longrightarrow> elems (put x q) = add_mset x (elems q)"
    and pick_None: "pick q = None \<longleftrightarrow> elems q = {#}"
    and pick_ordered: "ordered q \<Longrightarrow> pick q = Some (x, q') \<Longrightarrow> ordered q'"
    and pick_elems: "ordered q \<Longrightarrow> pick q = Some (x, q') \<Longrightarrow> elems q = add_mset x (elems q')"
    and pick_min: "ordered q \<Longrightarrow> pick q = Some (x, q') \<Longrightarrow> y \<in># elems q \<Longrightarrow> key x \<le> key y"
begin

fun drain :: "nat \<Rightarrow> 'q \<Rightarrow> 'e list" where
  "drain 0 q = []"
| "drain (Suc n) q = (case pick q of None \<Rightarrow> [] | Some (x, q') \<Rightarrow> x # drain n q')"

lemma drain_elems: "ordered q \<Longrightarrow> size (elems q) \<le> n \<Longrightarrow> mset (drain n q) = elems q"
proof (induction n arbitrary: q)
  case (Suc n)
  show ?case
  proof (cases "pick q")
    case None
    then have "elems q = {#}" using pick_None by blast
    then show ?thesis using None by simp
  next
    case (Some p)
    obtain x q' where p: "p = (x, q')" by (cases p)
    have e: "elems q = add_mset x (elems q')" using pick_elems Suc.prems Some p by blast
    then have "mset (drain n q') = elems q'"
      using Suc pick_ordered Some p by (metis Suc_le_mono size_add_mset)
    then show ?thesis using Some p e by simp
  qed
qed simp

lemma drain_sorted: "ordered q \<Longrightarrow> size (elems q) \<le> n \<Longrightarrow> sorted (map key (drain n q))"
proof (induction n arbitrary: q)
  case (Suc n)
  show ?case
  proof (cases "pick q")
    case (Some p)
    obtain x q' where p: "p = (x, q')" by (cases p)
    have e: "elems q = add_mset x (elems q')" and o: "ordered q'"
      using pick_elems pick_ordered Suc.prems Some p by blast+
    then have le: "size (elems q') \<le> n" using Suc.prems by simp
    have "set (drain n q') = set_mset (elems q')" using drain_elems [OF o le] by (metis set_mset_mset)
    then have "\<forall>y\<in>set (drain n q'). key x \<le> key y"
      using pick_min Suc.prems Some p e by (metis insert_iff set_mset_add_mset_insert)
    then show ?thesis using Suc.IH [OF o le] Some p by simp
  qed simp
qed simp

end

interpretation run_queue: min_queue "rq_insert_queue T" "rq_pick_queue T" "\<lambda>rq. mset (rq_tasks rq)"
  "\<lambda>rq. sorted (map (\<lambda>x. t_vruntime (T x)) (rq_tasks rq))" "\<lambda>x. t_vruntime (T x)" for T
proof (unfold_locales, goal_cases)
  case (1 q x)
  then show ?case by (simp add: rq_insert_is_insort sorted_insort_key)
next
  case (2 q x)
  then show ?case by (simp add: rq_insert_is_insort)
next
  case (3 q)
  then show ?case by (simp add: rq_pick_queue_def split: list.split)
qed (auto simp: rq_pick_queue_def split: list.splits)

section \<open>The invariant\<close>

definition queued :: "nat \<Rightarrow> sched \<Rightarrow> nat list" where
  "queued cpu s = rq_tasks (sc_rq s cpu)"

definition rq_wf :: "sched \<Rightarrow> bool" where
  "rq_wf s \<longleftrightarrow>
     (\<forall>cpu. length (queued cpu s) \<le> RQ_SIZE \<and> distinct (queued cpu s) \<and>
        sorted (map (\<lambda>x. t_vruntime (sc_task s x)) (queued cpu s)) \<and>
        (\<forall>t \<in> set (queued cpu s). t_state (sc_task s t) = TASK_READY \<and> \<not> t_freed (sc_task s t))) \<and>
     (\<forall>c d t. t \<in> set (queued c s) \<longrightarrow> t \<in> set (queued d s) \<longrightarrow> c = d)"

definition sleep_wf :: "sched \<Rightarrow> bool" where
  "sleep_wf s \<longleftrightarrow> distinct (sc_sleep s) \<and>
     (\<forall>t \<in> set (sc_sleep s). t_state (sc_task s t) = TASK_BLOCKED \<and> \<not> t_freed (sc_task s t))"

text \<open>Tasks waiting to be reaped: \<open>pend\<close> is the part of the list that a pass has still to visit.\<close>

definition reapable :: "nat \<Rightarrow> sched \<Rightarrow> bool" where
  "reapable t s \<longleftrightarrow>
     t_state (sc_task s t) = TASK_DEAD \<and> t_parent (sc_task s t) = None \<and> \<not> t_freed (sc_task s t)"

definition reap_wf :: "nat list \<Rightarrow> sched \<Rightarrow> bool" where
  "reap_wf pend s \<longleftrightarrow> distinct (pend @ sc_reap s) \<and>
     (\<forall>t \<in> set pend. reapable t s) \<and>
     (\<forall>t \<in> set (sc_reap s). reapable t s \<and> t_reap_queued (sc_task s t))"

definition child_wf :: "sched \<Rightarrow> bool" where
  "child_wf s \<longleftrightarrow> (\<forall>p. distinct (t_children (sc_task s p)) \<and>
     (\<forall>c \<in> set (t_children (sc_task s p)).
        t_parent (sc_task s c) = Some p \<and> c \<noteq> p \<and> \<not> t_freed (sc_task s c)))"

definition current_wf :: "sched \<Rightarrow> bool" where
  "current_wf s \<longleftrightarrow> \<not> t_freed (sc_task s (sc_current s)) \<and>
     t_state (sc_task s (sc_current s)) \<notin> {TASK_READY, TASK_BLOCKED}"

definition sched_wf :: "sched \<Rightarrow> bool" where
  "sched_wf s \<longleftrightarrow> rq_wf s \<and> sleep_wf s \<and> reap_wf [] s \<and> child_wf s \<and> current_wf s"

lemmas wf_defs = rq_wf_def sleep_wf_def reap_wf_def child_wf_def current_wf_def reapable_def

section \<open>What the operations leave alone\<close>

lemma upd_task_sel [simp]:
  "sc_rq (upd_task t f s) = sc_rq s" "sc_sleep (upd_task t f s) = sc_sleep s"
  "sc_reap (upd_task t f s) = sc_reap s" "sc_current (upd_task t f s) = sc_current s"
  "queued cpu (upd_task t f s) = queued cpu s" "sc_active (upd_task t f s) = sc_active s"
  "sc_enabled (upd_task t f s) = sc_enabled s" "sc_idle (upd_task t f s) = sc_idle s"
  "sc_sched_cpus (upd_task t f s) = sc_sched_cpus s" "sc_cpu_ticks (upd_task t f s) = sc_cpu_ticks s"
  "sc_task (upd_task t f s) u = (if u = t then f (sc_task s t) else sc_task s u)"
  by (simp_all add: upd_task_def queued_def)

lemma rq_wf_frame:
  assumes "rq_wf s" "\<And>cpu. queued cpu s' = queued cpu s"
    and "\<And>cpu u. u \<in> set (queued cpu s) \<Longrightarrow> t_state (sc_task s' u) = t_state (sc_task s u) \<and>
      t_vruntime (sc_task s' u) = t_vruntime (sc_task s u) \<and> t_freed (sc_task s' u) = t_freed (sc_task s u)"
  shows "rq_wf s'"
proof -
  have eq: "map (\<lambda>x. t_vruntime (sc_task s' x)) (queued cpu s) = map (\<lambda>x. t_vruntime (sc_task s x)) (queued cpu s)" for cpu
    using assms(3) by simp
  have "sorted (map (\<lambda>x. t_vruntime (sc_task s' x)) (queued cpu s))" for cpu
    unfolding eq using assms(1) by (simp add: rq_wf_def)
  then show ?thesis using assms unfolding rq_wf_def by simp
qed

lemma sleep_wf_frame:
  assumes "sleep_wf s" "sc_sleep s' = sc_sleep s"
    and "\<And>u. u \<in> set (sc_sleep s) \<Longrightarrow> t_state (sc_task s' u) = t_state (sc_task s u) \<and>
      t_freed (sc_task s' u) = t_freed (sc_task s u)"
  shows "sleep_wf s'"
  using assms unfolding sleep_wf_def by simp

lemma child_wf_frame:
  assumes "child_wf s" "\<And>u. t_children (sc_task s' u) = t_children (sc_task s u)"
    and "\<And>p u. u \<in> set (t_children (sc_task s p)) \<Longrightarrow> t_parent (sc_task s' u) = t_parent (sc_task s u) \<and>
      t_freed (sc_task s' u) = t_freed (sc_task s u)"
  shows "child_wf s'"
  using assms unfolding child_wf_def by simp

lemma reap_wf_frame:
  assumes "reap_wf pend s" "sc_reap s' = sc_reap s"
    and "\<And>u. u \<in> set pend \<union> set (sc_reap s) \<Longrightarrow> t_state (sc_task s' u) = t_state (sc_task s u) \<and>
      t_parent (sc_task s' u) = t_parent (sc_task s u) \<and> t_reap_queued (sc_task s' u) = t_reap_queued (sc_task s u) \<and>
      t_freed (sc_task s' u) = t_freed (sc_task s u)"
  shows "reap_wf pend s'"
  using assms unfolding reap_wf_def reapable_def by simp

text \<open>Two states agree on everything the invariant reads, but for the tasks of \<open>X\<close> newly freed.\<close>

definition same_but_freed :: "nat set \<Rightarrow> sched \<Rightarrow> sched \<Rightarrow> bool" where
  "same_but_freed X s s' \<longleftrightarrow>
     (\<forall>cpu. queued cpu s' = queued cpu s) \<and> sc_sleep s' = sc_sleep s \<and> sc_reap s' = sc_reap s \<and>
     sc_current s' = sc_current s \<and>
     (\<forall>u. t_state (sc_task s' u) = t_state (sc_task s u) \<and>
        t_vruntime (sc_task s' u) = t_vruntime (sc_task s u) \<and>
        t_parent (sc_task s' u) = t_parent (sc_task s u) \<and>
        t_children (sc_task s' u) = t_children (sc_task s u) \<and>
        t_reap_queued (sc_task s' u) = t_reap_queued (sc_task s u) \<and>
        t_freed (sc_task s' u) = (t_freed (sc_task s u) \<or> u \<in> X))"

lemma same_refl: "same_but_freed {} s s"
  by (simp add: same_but_freed_def)

lemma same_trans: "same_but_freed {} s s1 \<Longrightarrow> same_but_freed X s1 s2 \<Longrightarrow> same_but_freed X s s2"
  by (simp add: same_but_freed_def)

lemma same_upd_task:
  assumes "\<And>k. t_state (f k) = t_state k \<and> t_vruntime (f k) = t_vruntime k \<and> t_parent (f k) = t_parent k \<and>
    t_children (f k) = t_children k \<and> t_reap_queued (f k) = t_reap_queued k \<and> t_freed (f k) = t_freed k"
  shows "same_but_freed {} s (upd_task t f s)"
  using assms by (simp add: same_but_freed_def)

lemma same_fields:
  assumes "sc_rq s' = sc_rq s" "sc_sleep s' = sc_sleep s" "sc_reap s' = sc_reap s"
    "sc_current s' = sc_current s" "sc_task s' = sc_task s"
  shows "same_but_freed {} s s'"
  using assms by (simp add: same_but_freed_def queued_def)

lemma same_task_fields:
  assumes "\<And>k. t_state (f k) = t_state k \<and> t_vruntime (f k) = t_vruntime k \<and> t_parent (f k) = t_parent k \<and>
    t_children (f k) = t_children k \<and> t_reap_queued (f k) = t_reap_queued k \<and> t_freed (f k) = t_freed k"
    "sc_rq s' = sc_rq s" "sc_sleep s' = sc_sleep s" "sc_reap s' = sc_reap s"
    "sc_current s' = sc_current s" "sc_task s' = (sc_task s)(t := f (sc_task s t))"
  shows "same_but_freed {} s s'"
  using assms by (simp add: same_but_freed_def queued_def)

lemma release_stages_same:
  "same_but_freed {} s (release_address_space t s)" "same_but_freed {} s (release_fds t s)"
  "same_but_freed {} s (release_stack t s)" "same_but_freed {} s (release_fpu t s)"
  "same_but_freed {} s (release_node t s)"
  by (simp_all add: same_but_freed_def queued_def release_address_space_def release_fds_def
        release_stack_def release_fpu_def release_node_def Let_def upd_task_def split: prod.split)

lemma release_object_same: "same_but_freed {t} s (release_object t s)"
  by (simp add: same_but_freed_def release_object_def queued_def upd_task_def)

lemma destroy_same:
  "same_but_freed (if fo then {t} else {}) s (sched_destroy_task_resources t das cf fo s)"
proof -
  define s1 where "s1 = (if das then release_address_space t s else s)"
  define s2 where "s2 = (if cf then release_fds t s1 else s1)"
  define s3 where "s3 = release_node t (release_fpu t (release_stack t s2))"
  have "same_but_freed {} s s1" "same_but_freed {} s1 s2"
    by (simp_all add: s1_def s2_def release_stages_same same_refl)
  moreover have "same_but_freed {} s2 s3" unfolding s3_def
    by (rule same_trans [OF same_trans [OF release_stages_same(3) release_stages_same(4)]
          release_stages_same(5)])
  ultimately have "same_but_freed {} s s3" by (blast intro: same_trans)
  then have "same_but_freed (if fo then {t} else {}) s (if fo then release_object t s3 else s3)"
    using same_trans release_object_same by auto
  then show ?thesis
    unfolding sched_destroy_task_resources_def Let_def s3_def s2_def s1_def .
qed

lemma same_wf:
  assumes "same_but_freed X s s'"
  shows "rq_wf s \<Longrightarrow> \<forall>cpu. \<forall>t\<in>set (queued cpu s). t \<notin> X \<Longrightarrow> rq_wf s'"
    "sleep_wf s \<Longrightarrow> \<forall>t\<in>set (sc_sleep s). t \<notin> X \<Longrightarrow> sleep_wf s'"
    "reap_wf pend s \<Longrightarrow> \<forall>t\<in>set pend \<union> set (sc_reap s). t \<notin> X \<Longrightarrow> reap_wf pend s'"
    "child_wf s \<Longrightarrow> \<forall>p. \<forall>t\<in>set (t_children (sc_task s p)). t \<notin> X \<Longrightarrow> child_wf s'"
    "current_wf s \<Longrightarrow> sc_current s \<notin> X \<Longrightarrow> current_wf s'"
  using assms unfolding same_but_freed_def wf_defs by simp_all

lemma drop_count_same: "same_but_freed {} s (sched_drop_task_count t s)"
  by (auto simp: sched_drop_task_count_def Let_def same_but_freed_def queued_def upd_task_def)

section \<open>Reaping\<close>

text \<open>The invariant during a reaping pass; the current task's state plays no part in it.\<close>

definition base_wf :: "nat list \<Rightarrow> sched \<Rightarrow> bool" where
  "base_wf pend s \<longleftrightarrow> rq_wf s \<and> sleep_wf s \<and> reap_wf pend s \<and> child_wf s \<and>
     \<not> t_freed (sc_task s (sc_current s))"

text \<open>What a reaping pass leaves alone for every task.\<close>

definition steady :: "sched \<Rightarrow> sched \<Rightarrow> bool" where
  "steady s s' \<longleftrightarrow> (\<forall>cpu. queued cpu s' = queued cpu s) \<and> sc_sleep s' = sc_sleep s \<and>
     sc_current s' = sc_current s \<and>
     (\<forall>u. t_state (sc_task s' u) = t_state (sc_task s u) \<and>
        t_vruntime (sc_task s' u) = t_vruntime (sc_task s u))"

lemma steady_refl: "steady s s"
  by (simp add: steady_def)

lemma steady_trans: "steady s s1 \<Longrightarrow> steady s1 s2 \<Longrightarrow> steady s s2"
  by (simp add: steady_def)

lemma same_steady: "same_but_freed X s s' \<Longrightarrow> steady s s'"
  by (simp add: same_but_freed_def steady_def)

lemma sched_wf_base: "sched_wf s \<longleftrightarrow> base_wf [] s \<and>
    t_state (sc_task s (sc_current s)) \<notin> {TASK_READY, TASK_BLOCKED}"
  by (auto simp: sched_wf_def base_wf_def current_wf_def)

lemma same_base:
  assumes "same_but_freed X s s'" "base_wf pend s" "sc_current s \<notin> X"
    "\<forall>t\<in>X. t_state (sc_task s t) \<noteq> TASK_READY \<and> t_state (sc_task s t) \<noteq> TASK_BLOCKED \<and>
       t \<notin> set pend \<union> set (sc_reap s) \<and> (\<forall>p. t \<notin> set (t_children (sc_task s p)))"
  shows "base_wf pend s'"
proof -
  have "\<forall>cpu. \<forall>t\<in>set (queued cpu s). t \<notin> X" "\<forall>t\<in>set (sc_sleep s). t \<notin> X"
    using assms(2,4) by (auto simp: base_wf_def rq_wf_def sleep_wf_def)
  moreover have "\<forall>t\<in>set pend \<union> set (sc_reap s). t \<notin> X" "\<forall>p. \<forall>t\<in>set (t_children (sc_task s p)). t \<notin> X"
    using assms(4) by blast+
  moreover have "\<not> t_freed (sc_task s' (sc_current s'))"
    using assms(1-3) by (simp add: same_but_freed_def base_wf_def)
  ultimately show ?thesis
    using same_wf [OF assms(1)] assms(2) unfolding base_wf_def by blast
qed

lemma queue_reap_steady: "steady s (sched_queue_deferred_reap t s)"
  by (simp add: sched_queue_deferred_reap_def steady_def queued_def upd_task_def)

lemma queue_reap_base:
  assumes "base_wf pend s" "reapable t s" "t \<notin> set pend"
  shows "base_wf pend (sched_queue_deferred_reap t s)"
proof (cases "t_reap_queued (sc_task s t)")
  case True
  then show ?thesis using assms by (simp add: sched_queue_deferred_reap_def)
next
  case False
  let ?s = "sched_queue_deferred_reap t s"
  have eq: "?s = (upd_task t (\<lambda>k. k\<lparr> t_reap_queued := True \<rparr>) s)\<lparr> sc_reap := t # sc_reap s \<rparr>"
    using False by (simp add: sched_queue_deferred_reap_def)
  have sel [simp]: "queued cpu ?s = queued cpu s" "sc_sleep ?s = sc_sleep s" "sc_current ?s = sc_current s"
    "sc_reap ?s = t # sc_reap s"
    "sc_task ?s u = (if u = t then (sc_task s t)\<lparr> t_reap_queued := True \<rparr> else sc_task s u)" for cpu u
    unfolding eq by (simp_all add: queued_def upd_task_def)
  have "t \<notin> set (sc_reap s)" using assms(1) False by (auto simp: base_wf_def reap_wf_def)
  then have "reap_wf pend ?s"
    using assms by (auto simp: base_wf_def reap_wf_def reapable_def)
  moreover have "rq_wf ?s" by (rule rq_wf_frame [of s]) (use assms(1) in \<open>auto simp: base_wf_def\<close>)
  moreover have "sleep_wf ?s" by (rule sleep_wf_frame [of s]) (use assms(1) in \<open>auto simp: base_wf_def\<close>)
  moreover have "child_wf ?s" by (rule child_wf_frame [of s]) (use assms(1) in \<open>auto simp: base_wf_def\<close>)
  ultimately show ?thesis using assms(1) by (auto simp: base_wf_def)
qed

lemma reap_dead_base:
  assumes "base_wf (t # pend) s" "\<not> t_reap_queued (sc_task s t)"
  shows "base_wf pend (sched_reap_detached_dead_task t s) \<and> steady s (sched_reap_detached_dead_task t s)"
proof -
  have t: "reapable t s" "t \<notin> set pend" "t \<notin> set (sc_reap s)" "base_wf pend s"
    using assms(1) by (auto simp: base_wf_def reap_wf_def)
  show ?thesis
  proof (cases "t = sc_current s \<or> sched_task_is_active t s \<or> sched_task_in_runqueue t s")
    case True
    then show ?thesis
      using queue_reap_base [OF t(4,1,2)] queue_reap_steady by (simp add: sched_reap_detached_dead_task_def)
  next
    case False
    define s1 where "s1 = sched_drop_task_count t s"
    define s2 where "s2 = upd_task t (\<lambda>k. k\<lparr> t_state := TASK_DEAD, t_reap_queued := False \<rparr>) s1"
    define s3 where "s3 = s2\<lparr> sc_reaped := sc_reaped s2 + 1, sc_detached_reaped := sc_detached_reaped s2 + 1 \<rparr>"
    have ul: "sched_unlink_from_parent t s = s"
      using t(1) by (simp add: sched_unlink_from_parent_def reapable_def)
    have res: "sched_reap_detached_dead_task t s =
        sched_destroy_task_resources t (sched_task_owns_address_space t s3) True True s3"
      using False ul by (simp add: sched_reap_detached_dead_task_def Let_def s1_def s2_def s3_def)
    have a: "same_but_freed {} s s1" unfolding s1_def by (rule drop_count_same)
    have b: "same_but_freed {} s1 s2"
      using a t(1) assms(2) by (simp add: s2_def same_but_freed_def reapable_def)
    have c: "same_but_freed {} s2 s3" by (simp add: s3_def same_but_freed_def queued_def)
    have "same_but_freed {t} s3 (sched_reap_detached_dead_task t s)"
      using destroy_same [of True t s3] by (simp add: res)
    then have "same_but_freed {t} s (sched_reap_detached_dead_task t s)"
      by (rule same_trans [OF same_trans [OF same_trans [OF a b] c]])
    moreover have "\<forall>p. t \<notin> set (t_children (sc_task s p))"
      using t(1,4) by (auto simp: base_wf_def child_wf_def reapable_def)
    ultimately show ?thesis
      using same_base [of "{t}" s _ pend] t False by (auto simp: reapable_def intro: same_steady)
  qed
qed

lemma reap_one_base:
  assumes "base_wf (t # ts) s"
  shows "base_wf ts (reap_deferred_one t s) \<and> steady s (reap_deferred_one t s)"
proof -
  define s1 where "s1 = upd_task t (\<lambda>k. k\<lparr> t_reap_queued := False \<rparr>) s"
  have t: "t \<notin> set (sc_reap s)" using assms by (simp add: base_wf_def reap_wf_def)
  have "reap_wf (t # ts) s1"
    using assms t by (auto simp: s1_def base_wf_def reap_wf_def reapable_def)
  moreover have "rq_wf s1" by (rule rq_wf_frame [of s]) (use assms in \<open>auto simp: base_wf_def s1_def\<close>)
  moreover have "sleep_wf s1" by (rule sleep_wf_frame [of s]) (use assms in \<open>auto simp: base_wf_def s1_def\<close>)
  moreover have "child_wf s1" by (rule child_wf_frame [of s]) (use assms in \<open>auto simp: base_wf_def s1_def\<close>)
  ultimately have b: "base_wf (t # ts) s1"
    using assms by (auto simp: base_wf_def s1_def)
  have st: "steady s s1" by (simp add: steady_def s1_def)
  have f: "\<not> t_reap_queued (sc_task s1 t)" by (simp add: s1_def)
  have "base_wf ts s1" "reapable t s1" "t \<notin> set ts"
    using b by (auto simp: base_wf_def reap_wf_def)
  then show ?thesis
    using reap_dead_base [OF b f] queue_reap_base [of ts s1 t] queue_reap_steady [of s1 t] steady_trans [OF st]
    unfolding reap_deferred_one_def Let_def s1_def [symmetric] by simp
qed

lemma reap_pass_base: "base_wf ts s \<Longrightarrow>
    base_wf [] (fold reap_deferred_one ts s) \<and> steady s (fold reap_deferred_one ts s)"
proof (induction ts arbitrary: s)
  case (Cons t ts)
  then show ?case
    using reap_one_base [OF Cons.prems] steady_trans [of s "reap_deferred_one t s"] by simp
qed (simp add: steady_refl)

lemma reap_deferred_base:
  assumes "base_wf [] s"
  shows "base_wf [] (sched_reap_deferred_dead_tasks s)" and "steady s (sched_reap_deferred_dead_tasks s)"
proof -
  let ?s = "s\<lparr> sc_reap := [] \<rparr>"
  have q: "queued cpu ?s = queued cpu s" for cpu by (simp add: queued_def)
  have "base_wf (sc_reap s) ?s" using assms by (simp add: base_wf_def wf_defs q)
  moreover have "steady s ?s" by (simp add: steady_def q)
  ultimately show "base_wf [] (sched_reap_deferred_dead_tasks s)" "steady s (sched_reap_deferred_dead_tasks s)"
    using reap_pass_base [of "sc_reap s" ?s] steady_trans
    by (auto simp: sched_reap_deferred_dead_tasks_def)
qed

section \<open>Queueing and picking\<close>

lemma pick_None: "rq_pick_next cpu s = (None, s') \<Longrightarrow> s' = s \<and> queued cpu s = []"
  by (auto simp: rq_pick_next_def rq_pick_queue_def queued_def split: list.splits)

lemma pick_Some:
  assumes "rq_pick_next cpu s = (Some t, s')"
  shows "queued cpu s = t # queued cpu s'" "c \<noteq> cpu \<Longrightarrow> queued c s' = queued c s"
    "sc_task s' = sc_task s" "sc_sleep s' = sc_sleep s" "sc_reap s' = sc_reap s" "sc_current s' = sc_current s"
    "sc_active s' = sc_active s"
  using assms
  by (auto simp: rq_pick_next_def rq_pick_queue_def queued_def upd_rq_def split: list.splits)

lemma pick_base:
  assumes "base_wf pend s" "rq_pick_next cpu s = (Some t, s')"
  shows "base_wf pend s'" "t_state (sc_task s t) = TASK_READY" "\<not> t_freed (sc_task s t)"
    "\<And>c. t \<notin> set (queued c s')"
proof -
  note p = pick_Some [OF assms(2)]
  have r: "rq_wf s" using assms(1) by (simp add: base_wf_def)
  have q: "length (queued c s) \<le> RQ_SIZE" "distinct (queued c s)"
    "sorted (map (\<lambda>x. t_vruntime (sc_task s x)) (queued c s))"
    "\<And>u. u \<in> set (queued c s) \<Longrightarrow> t_state (sc_task s u) = TASK_READY \<and> \<not> t_freed (sc_task s u)"
    "\<And>u d. u \<in> set (queued c s) \<Longrightarrow> u \<in> set (queued d s) \<Longrightarrow> c = d" for c
    using r unfolding rq_wf_def by blast+
  have sub: "set (queued c s') \<subseteq> set (queued c s)" for c
    using p(1,2) by (cases "c = cpu") auto
  show "t_state (sc_task s t) = TASK_READY" "\<not> t_freed (sc_task s t)" using q(4) [of t cpu] p(1) by auto
  show "t \<notin> set (queued c s')" for c
    using q(2) [of cpu] q(5) [of t cpu c] p(1) p(2) [of c] by (cases "c = cpu") auto
  have "rq_wf s'"
    unfolding rq_wf_def
  proof (intro conjI allI ballI impI)
    fix c
    show "length (queued c s') \<le> RQ_SIZE" "distinct (queued c s')"
      "sorted (map (\<lambda>x. t_vruntime (sc_task s' x)) (queued c s'))"
      using q(1-3) [of c] p by (cases "c = cpu"; simp)+
  next
    fix c u assume "u \<in> set (queued c s')"
    then show "t_state (sc_task s' u) = TASK_READY" "\<not> t_freed (sc_task s' u)"
      using q(4) [of u c] sub p(3) by auto
  next
    fix c d u assume "u \<in> set (queued c s')" "u \<in> set (queued d s')"
    then show "c = d" using q(5) sub by blast
  qed
  then show "base_wf pend s'"
    using assms(1) p by (simp add: base_wf_def sleep_wf_def reap_wf_def child_wf_def reapable_def)
qed

lemma rq_insert_sel:
  "sc_sleep (rq_insert cpu t s) = sc_sleep s" "sc_reap (rq_insert cpu t s) = sc_reap s"
  "sc_current (rq_insert cpu t s) = sc_current s" "sc_active (rq_insert cpu t s) = sc_active s"
  "c \<noteq> cpu \<Longrightarrow> queued c (rq_insert cpu t s) = queued c s"
  "sc_enabled (rq_insert cpu t s) = sc_enabled s" "sc_sched_cpus (rq_insert cpu t s) = sc_sched_cpus s"
  "sc_task (rq_insert cpu t s) u = (if u = t \<and> length (queued cpu s) < RQ_SIZE
     then (sc_task s t)\<lparr> t_state := TASK_READY \<rparr> else sc_task s u)"
  by (simp_all add: rq_insert_def Let_def upd_rq_def queued_def)

lemma rq_insert_queued:
  assumes "rq_wf s" "length (queued cpu s) < RQ_SIZE"
  shows "queued cpu (rq_insert cpu t s) = insort_key (\<lambda>x. t_vruntime (sc_task s x)) t (queued cpu s)"
proof -
  define T where "T = sc_task (upd_task t (\<lambda>k. k\<lparr> t_state := TASK_READY \<rparr>) s)"
  have eq: "(\<lambda>x. t_vruntime (T x)) = (\<lambda>x. t_vruntime (sc_task s x))" by (rule ext) (simp add: T_def)
  have "sorted (map (\<lambda>x. t_vruntime (T x)) (rq_tasks (sc_rq s cpu)))"
    unfolding eq using assms(1) by (simp add: rq_wf_def queued_def)
  from rq_insert_is_insort [OF this] show ?thesis
    using assms(2) unfolding eq by (simp add: rq_insert_def queued_def upd_rq_def Let_def T_def [symmetric])
qed

lemma rq_insert_base:
  assumes "base_wf pend s" "\<not> t_freed (sc_task s t)" "\<And>c. t \<notin> set (queued c s)"
    "t \<notin> set (sc_sleep s)" "t \<notin> set pend \<union> set (sc_reap s)"
  shows "base_wf pend (rq_insert cpu t s)"
proof (cases "length (queued cpu s) < RQ_SIZE")
  case False
  then show ?thesis using assms(1) by (simp add: rq_insert_def queued_def)
next
  case True
  let ?s = "rq_insert cpu t s"
  have r: "rq_wf s" using assms(1) by (simp add: base_wf_def)
  have q: "length (queued c s) \<le> RQ_SIZE" "distinct (queued c s)"
    "sorted (map (\<lambda>x. t_vruntime (sc_task s x)) (queued c s))"
    "\<And>u. u \<in> set (queued c s) \<Longrightarrow> t_state (sc_task s u) = TASK_READY \<and> \<not> t_freed (sc_task s u)"
    "\<And>u d. u \<in> set (queued c s) \<Longrightarrow> u \<in> set (queued d s) \<Longrightarrow> c = d" for c
    using r unfolding rq_wf_def by blast+
  note sel = rq_insert_sel rq_insert_queued [OF r True, of t]
  have vr: "(\<lambda>x. t_vruntime (sc_task ?s x)) = (\<lambda>x. t_vruntime (sc_task s x))"
    by (rule ext) (simp add: sel)
  have st: "set (queued c ?s) = (if c = cpu then insert t (set (queued c s)) else set (queued c s))" for c
    using sel by (simp add: set_insort_key)
  have "rq_wf ?s"
    unfolding rq_wf_def vr
  proof (intro conjI allI ballI impI)
    fix c
    show "length (queued c ?s) \<le> RQ_SIZE" "distinct (queued c ?s)"
      "sorted (map (\<lambda>x. t_vruntime (sc_task s x)) (queued c ?s))"
      using q(1-3) [of c] True assms(3) [of c]
      by (cases "c = cpu"; simp add: sel distinct_insort sorted_insort_key)+
  next
    fix c u assume "u \<in> set (queued c ?s)"
    then show "t_state (sc_task ?s u) = TASK_READY" "\<not> t_freed (sc_task ?s u)"
      using q(4) [of u c] st [of c] True assms(2) by (auto simp: sel split: if_splits)
  next
    fix c d u assume "u \<in> set (queued c ?s)" "u \<in> set (queued d ?s)"
    then show "c = d" using q(5) st assms(3) by (auto split: if_splits)
  qed
  moreover have "sleep_wf ?s"
    by (rule sleep_wf_frame [of s]) (use assms in \<open>auto simp: sel base_wf_def\<close>)
  moreover have "child_wf ?s"
    by (rule child_wf_frame [of s]) (use assms in \<open>auto simp: sel base_wf_def\<close>)
  moreover have "reap_wf pend ?s"
    by (rule reap_wf_frame [of _ s]) (use assms in \<open>auto simp: sel base_wf_def\<close>)
  ultimately show ?thesis
    using assms(1) by (auto simp: base_wf_def sel)
qed

end
