(* ===== verification/Sched_Steps.thy ===== *)
theory Sched_Steps
  imports Sched_Inv
begin

text \<open>
  The scheduler's operations keep the invariant of \<open>Sched_Inv\<close>, one lemma per operation: switching,
  yielding, sleeping, waking, the tick, exit, waiting, and the building blocks of task creation.
\<close>

section \<open>Switching, yielding, sleeping\<close>

lemma not_queued: "rq_wf s \<Longrightarrow> t_state (sc_task s t) \<noteq> TASK_READY \<Longrightarrow> t \<notin> set (queued c s)"
  by (auto simp: rq_wf_def)

lemma not_sleeping: "sleep_wf s \<Longrightarrow> t_state (sc_task s t) \<noteq> TASK_BLOCKED \<Longrightarrow> t \<notin> set (sc_sleep s)"
  by (auto simp: sleep_wf_def)

lemma not_reaped: "reap_wf pend s \<Longrightarrow> t_state (sc_task s t) \<noteq> TASK_DEAD \<Longrightarrow> t \<notin> set pend \<union> set (sc_reap s)"
  by (auto simp: reap_wf_def reapable_def)

lemma switch_sel:
  "queued c (switch_to n s) = queued c s" "sc_sleep (switch_to n s) = sc_sleep s"
  "sc_reap (switch_to n s) = sc_reap s" "sc_current (switch_to n s) = n"
  "sc_task (switch_to n s) u = (if u = n then (sc_task s n)\<lparr> t_state := TASK_RUNNING, t_slice := 0,
     t_need_resched := False, t_cpu := 0 \<rparr> else sc_task s u)"
  by (simp_all add: switch_to_def queued_def upd_task_def)

lemma switch_wf:
  assumes "base_wf [] s" "t_state (sc_task s n) = TASK_READY" "\<not> t_freed (sc_task s n)"
    "\<And>c. n \<notin> set (queued c s)"
  shows "sched_wf (switch_to n s)"
proof -
  let ?s = "switch_to n s"
  have n: "n \<notin> set (sc_sleep s)" "n \<notin> set (sc_reap s)"
    using assms(1,2) not_sleeping not_reaped [of "[]" s n] by (auto simp: base_wf_def)
  have "rq_wf ?s" by (rule rq_wf_frame [of s]) (use assms in \<open>auto simp: switch_sel base_wf_def\<close>)
  moreover have "sleep_wf ?s" by (rule sleep_wf_frame [of s]) (use assms n in \<open>auto simp: switch_sel base_wf_def\<close>)
  moreover have "child_wf ?s" by (rule child_wf_frame [of s]) (use assms in \<open>auto simp: switch_sel base_wf_def\<close>)
  moreover have "reap_wf [] ?s" by (rule reap_wf_frame [of _ s]) (use assms n in \<open>auto simp: switch_sel base_wf_def\<close>)
  ultimately show ?thesis using assms(3) by (simp add: sched_wf_def current_wf_def switch_sel)
qed

lemma steady_nsame: "steady s s' \<Longrightarrow> sc_current s' = sc_current s \<and> t_state (sc_task s' u) = t_state (sc_task s u)"
  by (simp add: steady_def)

lemma skip_dead_live:
  "t_state (sc_task s t) \<noteq> TASK_DEAD \<Longrightarrow> skip_dead (Suc n) (Some t, s) dead = (Some t, dead, s)"
  "skip_dead (Suc n) (None, s) dead = (None, dead, s)"
  by simp_all

lemma yield_wf:
  assumes "base_wf [] s" "t_state (sc_task s (sc_current s)) \<noteq> TASK_READY" "sc_current s \<notin> set (sc_sleep s)"
    "t_state (sc_task s (sc_current s)) = TASK_BLOCKED \<Longrightarrow> sc_enabled s \<and> queued 0 s \<noteq> []"
  shows "sched_wf (sched_yield s)"
proof (cases "sc_enabled s")
  case False
  then show ?thesis using assms by (auto simp: sched_yield_def sched_wf_base)
next
  case True
  define s0 where "s0 = sched_reap_deferred_dead_tasks s"
  let ?cur = "sc_current s0"
  have b0: "base_wf [] s0" and st: "steady s s0"
    using reap_deferred_base [OF assms(1)] by (simp_all add: s0_def)
  have cur: "t_state (sc_task s0 ?cur) \<noteq> TASK_READY" "?cur \<notin> set (sc_sleep s0)"
    "t_state (sc_task s0 ?cur) = TASK_BLOCKED \<Longrightarrow> queued 0 s0 \<noteq> []"
    using assms(2-4) st by (auto simp: steady_def)
  obtain n s1 where p: "rq_pick_next 0 s0 = (n, s1)" by (cases "rq_pick_next 0 s0")
  show ?thesis
  proof (cases n)
    case None
    then have "s1 = s0" "queued 0 s0 = []" using pick_None p by blast+
    then have "sched_yield s = s0"
      using True p None by (simp add: sched_yield_def Let_def s0_def [symmetric])
    then show ?thesis using b0 cur \<open>queued 0 s0 = []\<close> by (auto simp: sched_wf_base)
  next
    case (Some nxt)
    note ps = pick_Some [OF p [unfolded Some]] and pb = pick_base [OF b0 p [unfolded Some]]
    define s2 where "s2 = upd_task ?cur (\<lambda>k. k\<lparr> t_vol_switches := t_vol_switches k + 1,
                                t_slice := 0, t_need_resched := False \<rparr>) s1"
    define s3 where "s3 = (if t_state (sc_task s1 ?cur) = TASK_RUNNING then rq_insert 0 ?cur s2 else s1)"
    have y: "sched_yield s = switch_to nxt s3"
      using True p Some pb(2) ps(3)
      by (simp add: sched_yield_def Let_def s0_def [symmetric] s3_def s2_def skip_dead_live)
    have ne: "nxt \<noteq> ?cur" using cur(1) pb(2) by auto
    have "base_wf [] s3 \<and> nxt \<notin> set (queued c s3) \<and> sc_task s3 nxt = sc_task s1 nxt" for c
    proof (cases "t_state (sc_task s1 ?cur) = TASK_RUNNING")
      case False
      then show ?thesis using pb by (simp add: s3_def)
    next
      case run: True
      have b2: "base_wf [] s2"
        by (rule same_base [OF _ pb(1)]) (auto simp: s2_def same_but_freed_def)
      have c1: "?cur \<notin> set (queued c s2)" "?cur \<notin> set [] \<union> set (sc_reap s2)" "?cur \<notin> set (sc_sleep s2)" for c
        using run b2 not_queued [of s2 ?cur] not_sleeping [of s2 ?cur] not_reaped [of "[]" s2 ?cur]
        by (auto simp: base_wf_def s2_def)
      have c2: "\<not> t_freed (sc_task s2 ?cur)" using b0 ps(3) by (auto simp: base_wf_def s2_def)
      have b3: "base_wf [] (rq_insert 0 ?cur s2)"
        by (rule rq_insert_base [OF b2 c2 c1(1) c1(3) c1(2)])
      have "queued 0 (rq_insert 0 ?cur s2) = insort_key (\<lambda>x. t_vruntime (sc_task s2 x)) ?cur (queued 0 s2) \<or>
          queued 0 (rq_insert 0 ?cur s2) = queued 0 s2"
        using rq_insert_queued [of s2 0 ?cur] b2 by (auto simp: base_wf_def rq_insert_def queued_def)
      then have "nxt \<notin> set (queued c (rq_insert 0 ?cur s2))"
        using pb(4) ne rq_insert_sel(5) [of c 0 ?cur s2]
        by (cases "c = 0") (auto simp: set_insort_key s2_def)
      then show ?thesis using run b3 ne by (simp add: s3_def rq_insert_sel) (simp add: s2_def)
    qed
    then show ?thesis unfolding y using pb(2,3) ps(3) by (intro switch_wf) auto
  qed
qed

lemma sleep_wf_step:
  assumes "sched_wf s" "t_state (sc_task s (sc_current s)) = TASK_RUNNING" "queued 0 s \<noteq> []"
  shows "sched_wf (sched_sleep_until d s)"
proof -
  let ?cur = "sc_current s"
  define s1 where "s1 = (upd_task ?cur (\<lambda>k. k\<lparr> t_state := TASK_BLOCKED, t_wakeup := d \<rparr>) s)
                 \<lparr> sc_sleep := ?cur # sc_sleep s \<rparr>"
  have sel: "queued c s1 = queued c s" "sc_sleep s1 = ?cur # sc_sleep s" "sc_reap s1 = sc_reap s"
    "sc_current s1 = ?cur"
    "sc_task s1 u = (if u = ?cur then (sc_task s u)\<lparr> t_state := TASK_BLOCKED, t_wakeup := d \<rparr> else sc_task s u)" for c u
    by (simp_all add: s1_def queued_def upd_task_def)
  have w: "rq_wf s" "sleep_wf s" "reap_wf [] s" "child_wf s" "\<not> t_freed (sc_task s ?cur)"
    using assms(1) by (simp_all add: sched_wf_def current_wf_def)
  have n: "\<And>c. ?cur \<notin> set (queued c s)" "?cur \<notin> set (sc_sleep s)" "?cur \<notin> set (sc_reap s)"
    using assms(2) w not_queued [of s ?cur] not_sleeping [of s ?cur] not_reaped [of "[]" s ?cur] by auto
  have "rq_wf s1" by (rule rq_wf_frame [of s]) (use w n in \<open>auto simp: sel\<close>)
  moreover have "sleep_wf s1" using w n by (auto simp: sleep_wf_def sel)
  moreover have "child_wf s1" by (rule child_wf_frame [of s]) (use w in \<open>auto simp: sel\<close>)
  moreover have "reap_wf [] s1" by (rule reap_wf_frame [of _ s]) (use w n in \<open>auto simp: sel\<close>)
  ultimately have b: "base_wf [] s1" using w(5) by (simp add: base_wf_def sel)
  obtain n' s2 where p: "rq_pick_next 0 s1 = (n', s2)" by (cases "rq_pick_next 0 s1")
  have "n' \<noteq> None" using pick_None [of 0 s1 s2] p assms(3) sel(1) by auto
  then obtain nxt where p': "rq_pick_next 0 s1 = (Some nxt, s2)" using p by auto
  have "sched_sleep_until d s = switch_to nxt s2"
    using p' by (simp add: sched_sleep_until_def Let_def s1_def [symmetric])
  then show ?thesis
    using pick_base [OF b p'] pick_Some(3) [OF p'] by (auto intro: switch_wf)
qed

lemma task_sleep_wf:
  assumes "sched_wf s" "t_state (sc_task s (sc_current s)) = TASK_RUNNING" "queued 0 s \<noteq> []"
  shows "sched_wf (task_sleep_ms ms s)"
  using sleep_wf_step [OF assms] by (simp add: task_sleep_ms_def Let_def)

section \<open>Waking\<close>

lemma pick_cpu_upd [simp]: "sc_task (upd_task t (\<lambda>k. k\<lparr> t_cpu := c \<rparr>) s) t = (sc_task s t)\<lparr> t_cpu := c \<rparr>"
  by simp

lemma unblock_frame:
  "sc_sleep (sched_unblock t s) = sc_sleep s" "sc_reap (sched_unblock t s) = sc_reap s"
  "sc_current (sched_unblock t s) = sc_current s"
  "u \<noteq> t \<Longrightarrow> sc_task (sched_unblock t s) u = sc_task s u"
  by (simp_all add: sched_unblock_def Let_def rq_insert_sel)

lemma rq_insert_set:
  assumes "rq_wf s"
  shows "set (queued c (rq_insert cpu t s)) \<subseteq> insert t (set (queued c s))"
proof (cases "c = cpu")
  case True
  show ?thesis
  proof (cases "length (queued cpu s) < RQ_SIZE")
    case True
    then show ?thesis using \<open>c = cpu\<close> rq_insert_queued [OF assms] by (auto simp: set_insort_key)
  qed (auto simp: rq_insert_def queued_def)
qed (auto simp: rq_insert_sel)

lemma unblock_base:
  assumes "base_wf [] s" "\<not> t_freed (sc_task s t)" "\<And>c. t \<notin> set (queued c s)" "t \<notin> set (sc_sleep s)"
    "t \<notin> set (sc_reap s)"
  shows "base_wf [] (sched_unblock t s)" "set (queued c (sched_unblock t s)) \<subseteq> insert t (set (queued c s))"
proof -
  define cpu where "cpu = sched_pick_cpu_for_task t s"
  define s1 where "s1 = upd_task t (\<lambda>k. k\<lparr> t_cpu := cpu \<rparr>) s"
  have sm: "same_but_freed {} s s1" unfolding s1_def by (rule same_upd_task) simp
  have b: "base_wf [] s1" by (rule same_base [OF sm assms(1)]) auto
  have u: "sched_unblock t s = (if t_state (sc_task s1 t) = TASK_BLOCKED \<or> t_state (sc_task s1 t) = TASK_STOPPED
         then rq_insert cpu t s1 else s1)"
    by (simp add: sched_unblock_def Let_def cpu_def s1_def)
  have "base_wf [] (rq_insert cpu t s1)"
    by (rule rq_insert_base [OF b]) (use assms in \<open>simp_all add: s1_def\<close>)
  then show "base_wf [] (sched_unblock t s)" using b u by simp
  have "set (queued c (rq_insert cpu t s1)) \<subseteq> insert t (set (queued c s1))"
    using b by (intro rq_insert_set) (simp add: base_wf_def)
  then show "set (queued c (sched_unblock t s)) \<subseteq> insert t (set (queued c s))"
    using u by (auto simp: s1_def)
qed

lemma unblock_wf:
  assumes "sched_wf s" "t_state (sc_task s t) = TASK_BLOCKED" "t \<notin> set (sc_sleep s)" "\<not> t_freed (sc_task s t)"
  shows "sched_wf (sched_unblock t s)"
proof -
  have w: "rq_wf s" "reap_wf [] s" "base_wf [] s" and ne: "t \<noteq> sc_current s"
    using assms by (auto simp: sched_wf_def current_wf_def base_wf_def)
  have "t \<notin> set (sc_reap s)" using not_reaped [OF w(2), of t] assms(2) by auto
  then have "base_wf [] (sched_unblock t s)"
    using unblock_base(1) [OF w(3) assms(4) _ assms(3)] not_queued [OF w(1)] assms(2) by simp
  then show ?thesis
    using assms(1) ne by (auto simp: sched_wf_base unblock_frame)
qed

lemma wake_fold_base:
  assumes "base_wf [] s" "distinct ts"
    "\<And>t. t \<in> set ts \<Longrightarrow> \<not> t_freed (sc_task s t) \<and> t \<notin> set (sc_sleep s) \<and> t \<notin> set (sc_reap s) \<and>
       t \<noteq> sc_current s \<and> (\<forall>c. t \<notin> set (queued c s))"
  shows "base_wf [] (fold sched_unblock ts s) \<and> sc_current (fold sched_unblock ts s) = sc_current s \<and>
    sc_sleep (fold sched_unblock ts s) = sc_sleep s \<and>
    (\<forall>u. u \<notin> set ts \<longrightarrow> sc_task (fold sched_unblock ts s) u = sc_task s u)"
  using assms
proof (induction ts arbitrary: s)
  case (Cons t ts)
  let ?s = "sched_unblock t s"
  have b: "base_wf [] ?s" "\<And>c. set (queued c ?s) \<subseteq> insert t (set (queued c s))"
    using unblock_base [OF Cons.prems(1)] Cons.prems(3) [of t] by auto
  have "base_wf [] (fold sched_unblock ts ?s) \<and> sc_current (fold sched_unblock ts ?s) = sc_current ?s \<and>
    sc_sleep (fold sched_unblock ts ?s) = sc_sleep ?s \<and>
    (\<forall>u. u \<notin> set ts \<longrightarrow> sc_task (fold sched_unblock ts ?s) u = sc_task ?s u)"
  proof (rule Cons.IH [OF b(1)])
    show "distinct ts" using Cons.prems(2) by simp
    fix u assume u: "u \<in> set ts"
    then have "u \<noteq> t" using Cons.prems(2) by auto
    then show "\<not> t_freed (sc_task ?s u) \<and> u \<notin> set (sc_sleep ?s) \<and> u \<notin> set (sc_reap ?s) \<and>
       u \<noteq> sc_current ?s \<and> (\<forall>c. u \<notin> set (queued c ?s))"
      using Cons.prems(3) [of u] u b(2) by (auto simp: unblock_frame)
  qed
  then show ?case by (simp add: unblock_frame)
qed simp

lemma wake_wf:
  assumes "sched_wf s"
  shows "sched_wf (wake_sleepers now s)" "sc_current (wake_sleepers now s) = sc_current s"
    "sc_sleep (wake_sleepers now s) = filter (\<lambda>t. \<not> t_wakeup (sc_task s t) \<le> now) (sc_sleep s)"
    "sc_task (wake_sleepers now s) (sc_current s) = sc_task s (sc_current s)"
proof -
  let ?due = "filter (\<lambda>t. t_wakeup (sc_task s t) \<le> now) (sc_sleep s)"
  define s0 where "s0 = s\<lparr> sc_sleep := filter (\<lambda>t. \<not> t_wakeup (sc_task s t) \<le> now) (sc_sleep s) \<rparr>"
  have q: "queued c s0 = queued c s" for c by (simp add: s0_def queued_def)
  have w: "rq_wf s" "sleep_wf s" "reap_wf [] s" "current_wf s" using assms by (simp_all add: sched_wf_def)
  have b: "base_wf [] s0"
    using assms by (simp add: sched_wf_base base_wf_def wf_defs q) (simp add: s0_def)
  have d: "distinct ?due" using w(2) by (simp add: sleep_wf_def)
  have m: "\<not> t_freed (sc_task s0 t) \<and> t \<notin> set (sc_sleep s0) \<and> t \<notin> set (sc_reap s0) \<and>
       t \<noteq> sc_current s0 \<and> (\<forall>c. t \<notin> set (queued c s0))" if "t \<in> set ?due" for t
  proof -
    have t: "t_state (sc_task s t) = TASK_BLOCKED" "\<not> t_freed (sc_task s t)" "t_wakeup (sc_task s t) \<le> now"
      using that w(2) by (auto simp: sleep_wf_def)
    then show ?thesis
      using w(4) not_queued [OF w(1), of t] not_reaped [OF w(3), of t] by (auto simp: q current_wf_def) (auto simp: s0_def)
  qed
  note f = wake_fold_base [OF b d m]
  have ws: "wake_sleepers now s = fold sched_unblock ?due s0" by (simp add: wake_sleepers_def s0_def)
  have cur: "sc_current s0 = sc_current s" "sc_task s0 = sc_task s"
    "sc_sleep s0 = filter (\<lambda>t. \<not> t_wakeup (sc_task s t) \<le> now) (sc_sleep s)" by (simp_all add: s0_def)
  have nd: "sc_current s \<notin> set ?due" using w(2,4) by (auto simp: sleep_wf_def current_wf_def)
  show "sc_current (wake_sleepers now s) = sc_current s"
    "sc_sleep (wake_sleepers now s) = filter (\<lambda>t. \<not> t_wakeup (sc_task s t) \<le> now) (sc_sleep s)"
    "sc_task (wake_sleepers now s) (sc_current s) = sc_task s (sc_current s)"
    using f nd unfolding ws by (auto simp: cur)
  then show "sched_wf (wake_sleepers now s)"
    using f w(4) unfolding ws sched_wf_base by (auto simp: current_wf_def)
qed

section \<open>Exit and waiting\<close>

text \<open>While a parent's children are detached one by one, \<open>cs\<close> are those still to visit.\<close>

definition orphan_wf :: "nat \<Rightarrow> nat list \<Rightarrow> sched \<Rightarrow> bool" where
  "orphan_wf p cs s \<longleftrightarrow> rq_wf s \<and> sleep_wf s \<and> reap_wf [] s \<and> p \<notin> set cs \<and> distinct cs \<and>
     (\<forall>q. q \<noteq> p \<longrightarrow> distinct (t_children (sc_task s q)) \<and> (\<forall>c \<in> set (t_children (sc_task s q)).
        t_parent (sc_task s c) = Some q \<and> c \<noteq> q \<and> \<not> t_freed (sc_task s c))) \<and>
     (\<forall>c \<in> set cs. t_parent (sc_task s c) = Some p \<and> \<not> t_freed (sc_task s c))"

lemma same_orphan: "same_but_freed {} s s' \<Longrightarrow> orphan_wf p cs s \<Longrightarrow> orphan_wf p cs s'"
  using same_wf(1,2) [of "{}" s s'] same_wf(3) [of "{}" s s' "[]"] by (simp add: orphan_wf_def same_but_freed_def)

lemma queue_reap_orphan:
  assumes "orphan_wf p cs s" "reapable t s"
  shows "orphan_wf p cs (sched_queue_deferred_reap t s)"
proof (cases "t_reap_queued (sc_task s t)")
  case True
  then show ?thesis using assms by (simp add: sched_queue_deferred_reap_def)
next
  case False
  let ?s = "sched_queue_deferred_reap t s"
  have sel [simp]: "queued cpu ?s = queued cpu s" "sc_sleep ?s = sc_sleep s" "sc_current ?s = sc_current s"
    "sc_reap ?s = t # sc_reap s"
    "sc_task ?s u = (if u = t then (sc_task s t)\<lparr> t_reap_queued := True \<rparr> else sc_task s u)" for cpu u
    using False by (simp_all add: sched_queue_deferred_reap_def queued_def upd_task_def)
  have "t \<notin> set (sc_reap s)" using assms(1) False by (auto simp: orphan_wf_def reap_wf_def)
  then have "reap_wf [] ?s"
    using assms by (auto simp: orphan_wf_def reap_wf_def reapable_def)
  moreover have "rq_wf ?s" by (rule rq_wf_frame [of s]) (use assms(1) in \<open>auto simp: orphan_wf_def\<close>)
  moreover have "sleep_wf ?s" by (rule sleep_wf_frame [of s]) (use assms(1) in \<open>auto simp: orphan_wf_def\<close>)
  ultimately show ?thesis using assms(1) by (simp add: orphan_wf_def)
qed

lemma orphan_step:
  assumes "orphan_wf p (c # cs) s"
  shows "orphan_wf p cs (orphan_child c s) \<and> sc_current (orphan_child c s) = sc_current s \<and>
    t_parent (sc_task (orphan_child c s) p) = t_parent (sc_task s p) \<and>
    t_state (sc_task (orphan_child c s) p) = t_state (sc_task s p) \<and>
    t_freed (sc_task (orphan_child c s) p) = t_freed (sc_task s p)"
proof -
  define s1 where "s1 = (upd_task c (\<lambda>k. k\<lparr> t_parent := None \<rparr>) s)\<lparr> sc_orphans := sc_orphans s + 1 \<rparr>"
  have sel1: "queued q s1 = queued q s" "sc_sleep s1 = sc_sleep s" "sc_reap s1 = sc_reap s"
    "sc_current s1 = sc_current s"
    "sc_task s1 u = (if u = c then (sc_task s c)\<lparr> t_parent := None \<rparr> else sc_task s u)" for q u
    by (simp_all add: s1_def queued_def upd_task_def)
  have pc: "p \<noteq> c" "c \<notin> set cs" "t_parent (sc_task s c) = Some p" "\<not> t_freed (sc_task s c)"
    using assms by (auto simp: orphan_wf_def)
  have "c \<notin> set (sc_reap s)" using assms pc by (auto simp: orphan_wf_def reap_wf_def reapable_def)
  then have "reap_wf [] s1" using assms by (auto simp: orphan_wf_def reap_wf_def reapable_def sel1)
  moreover have "rq_wf s1" by (rule rq_wf_frame [of s]) (use assms in \<open>auto simp: orphan_wf_def sel1\<close>)
  moreover have "sleep_wf s1" by (rule sleep_wf_frame [of s]) (use assms in \<open>auto simp: orphan_wf_def sel1\<close>)
  moreover have "c \<notin> set (t_children (sc_task s q))" if "q \<noteq> p" for q
    using assms pc that by (auto simp: orphan_wf_def)
  ultimately have o1: "orphan_wf p cs s1"
    using assms pc unfolding orphan_wf_def by (auto simp: sel1) metis
  show ?thesis
  proof (cases "t_state (sc_task s1 c) = TASK_ZOMBIE \<or> t_state (sc_task s1 c) = TASK_DEAD")
    case False
    then have "orphan_child c s = s1" unfolding orphan_child_def Let_def s1_def [symmetric] by simp
    then show ?thesis using o1 pc by (simp add: sel1)
  next
    case True
    define s2 where "s2 = upd_task c (\<lambda>k. k\<lparr> t_state := TASK_DEAD \<rparr>) s1"
    define s3 where "s3 = sched_drop_task_count c s2"
    have nq: "\<And>q. c \<notin> set (queued q s1)" "c \<notin> set (sc_sleep s1)"
      using True o1 not_queued [of s1 c] not_sleeping [of s1 c] by (auto simp: orphan_wf_def)
    have "rq_wf s2" by (rule rq_wf_frame [of s1]) (use o1 nq in \<open>auto simp: orphan_wf_def s2_def\<close>)
    moreover have "sleep_wf s2" by (rule sleep_wf_frame [of s1]) (use o1 nq in \<open>auto simp: orphan_wf_def s2_def\<close>)
    moreover have "reap_wf [] s2" using o1 by (auto simp: orphan_wf_def reap_wf_def reapable_def s2_def)
    ultimately have "orphan_wf p cs s2" using o1 by (auto simp: orphan_wf_def s2_def)
    moreover have sm: "same_but_freed {} s2 s3" unfolding s3_def by (rule drop_count_same)
    ultimately have o3: "orphan_wf p cs s3" using same_orphan by blast
    have r: "reapable c s3" using sm pc by (simp add: reapable_def same_but_freed_def s2_def sel1)
    have oc: "orphan_child c s = (if \<not> sched_task_in_runqueue c s3 then sched_queue_deferred_reap c s3 else s3)"
      using True unfolding orphan_child_def Let_def s1_def [symmetric] s2_def [symmetric] s3_def [symmetric] by simp
    have "sc_current s3 = sc_current s" "t_parent (sc_task s3 p) = t_parent (sc_task s p)"
      "t_state (sc_task s3 p) = t_state (sc_task s p)" "t_freed (sc_task s3 p) = t_freed (sc_task s p)"
      using sm pc by (simp_all add: same_but_freed_def s2_def sel1)
    then show ?thesis
      using o3 queue_reap_orphan [OF o3 r] pc(1) unfolding oc
      by (auto simp: sched_queue_deferred_reap_def upd_task_def)
  qed
qed

lemma orphan_fold:
  "orphan_wf p cs s \<Longrightarrow> orphan_wf p [] (fold orphan_child cs s) \<and>
    sc_current (fold orphan_child cs s) = sc_current s \<and>
    t_parent (sc_task (fold orphan_child cs s) p) = t_parent (sc_task s p) \<and>
    t_state (sc_task (fold orphan_child cs s) p) = t_state (sc_task s p) \<and>
    t_freed (sc_task (fold orphan_child cs s) p) = t_freed (sc_task s p)"
proof (induction cs arbitrary: s)
  case (Cons c cs)
  then show ?case using orphan_step [OF Cons.prems] by simp
qed simp

lemma orphan_children_base:
  assumes "base_wf [] s"
  shows "base_wf [] (sched_orphan_children (sc_current s) s)"
    "sc_current (sched_orphan_children (sc_current s) s) = sc_current s"
    "t_parent (sc_task (sched_orphan_children (sc_current s) s) (sc_current s)) = t_parent (sc_task s (sc_current s))"
    "t_state (sc_task (sched_orphan_children (sc_current s) s) (sc_current s)) = t_state (sc_task s (sc_current s))"
proof -
  let ?p = "sc_current s" and ?cs = "t_children (sc_task s (sc_current s))"
  let ?f = "fold orphan_child ?cs s"
  define s1 where "s1 = upd_task ?p (\<lambda>k. k\<lparr> t_children := [] \<rparr>) ?f"
  define s2 where "s2 = upd_task ?p (\<lambda>k. k\<lparr> t_pml4 := 0, t_vma_head := 0 \<rparr>) s1"
  have "orphan_wf ?p ?cs s" using assms by (auto simp: base_wf_def orphan_wf_def child_wf_def)
  note f = orphan_fold [OF this]
  have "rq_wf s1" by (rule rq_wf_frame [of ?f]) (use f in \<open>auto simp: orphan_wf_def s1_def\<close>)
  moreover have "sleep_wf s1" by (rule sleep_wf_frame [of ?f]) (use f in \<open>auto simp: orphan_wf_def s1_def\<close>)
  moreover have "reap_wf [] s1" by (rule reap_wf_frame [of _ ?f]) (use f in \<open>auto simp: orphan_wf_def s1_def\<close>)
  moreover have "child_wf s1" using f by (auto simp: orphan_wf_def child_wf_def s1_def)
  ultimately have b1: "base_wf [] s1" using f assms by (auto simp: base_wf_def s1_def)
  have sm: "same_but_freed {} s1 s2" unfolding s2_def by (rule same_upd_task) simp
  have b2: "base_wf [] s2" by (rule same_base [OF sm b1]) auto
  have "sched_orphan_children ?p s \<in> {s, s1, s2}"
    by (simp add: sched_orphan_children_def Let_def s1_def s2_def)
  moreover have "sc_current s1 = ?p" "t_parent (sc_task s1 ?p) = t_parent (sc_task s ?p)"
    "t_state (sc_task s1 ?p) = t_state (sc_task s ?p)"
    using f by (simp_all add: s1_def)
  moreover from this have "sc_current s2 = ?p" "t_parent (sc_task s2 ?p) = t_parent (sc_task s ?p)"
    "t_state (sc_task s2 ?p) = t_state (sc_task s ?p)" by (simp_all add: s2_def)
  ultimately show "base_wf [] (sched_orphan_children ?p s)" "sc_current (sched_orphan_children ?p s) = ?p"
    "t_parent (sc_task (sched_orphan_children ?p s) ?p) = t_parent (sc_task s ?p)"
    "t_state (sc_task (sched_orphan_children ?p s) ?p) = t_state (sc_task s ?p)"
    using assms b1 b2 by auto
qed

text \<open>Giving the current task a state that is neither ready nor blocked.\<close>

lemma cur_state_wf:
  assumes "base_wf [] s" "\<And>c. sc_current s \<notin> set (queued c s)" "sc_current s \<notin> set (sc_sleep s)"
    and "st \<notin> {TASK_READY, TASK_BLOCKED}" "sc_current s \<in> set (sc_reap s) \<Longrightarrow> st = TASK_DEAD"
    and "\<And>k. t_vruntime (f k) = t_vruntime k \<and> t_parent (f k) = t_parent k \<and> t_state (f k) = st \<and>
      t_children (f k) = t_children k \<and> t_reap_queued (f k) = t_reap_queued k \<and> t_freed (f k) = t_freed k"
  shows "sched_wf (upd_task (sc_current s) f s)"
proof -
  let ?s = "upd_task (sc_current s) f s"
  have "rq_wf ?s" by (rule rq_wf_frame [of s]) (use assms in \<open>auto simp: base_wf_def\<close>)
  moreover have "sleep_wf ?s" by (rule sleep_wf_frame [of s]) (use assms in \<open>auto simp: base_wf_def\<close>)
  moreover have "child_wf ?s" by (rule child_wf_frame [of s]) (use assms in \<open>auto simp: base_wf_def\<close>)
  moreover have "reap_wf [] ?s" using assms by (auto simp: base_wf_def reap_wf_def reapable_def)
  ultimately show ?thesis using assms by (auto simp: sched_wf_def base_wf_def current_wf_def)
qed

lemma exit_wf:
  assumes "sched_wf s"
  shows "sched_wf (sched_exit_current code s)" "sc_current (sched_exit_current code s) = sc_current s"
proof -
  let ?cur = "sc_current s"
  define s1 where "s1 = upd_task ?cur (\<lambda>k. k\<lparr> t_exit_code := code \<rparr>) s"
  define s2 where "s2 = sched_orphan_children ?cur s1"
  define s3 where "s3 = upd_task ?cur (\<lambda>k. k\<lparr> t_state := if t_parent k \<noteq> None then TASK_ZOMBIE else TASK_DEAD \<rparr>) s2"
  have b1: "base_wf [] s1"
    by (rule same_base [of "{}" s]) (use assms in \<open>auto simp: s1_def sched_wf_base intro: same_upd_task\<close>)
  have c1: "sc_current s1 = ?cur" by (simp add: s1_def)
  note o = orphan_children_base [OF b1, unfolded c1, folded s2_def]
  have st2: "t_state (sc_task s2 ?cur) \<notin> {TASK_READY, TASK_BLOCKED}"
    using o(4) assms by (simp add: s1_def sched_wf_base)
  have w2: "rq_wf s2" "sleep_wf s2" "reap_wf [] s2" using o(1) by (simp_all add: base_wf_def)
  have nq: "\<And>c. ?cur \<notin> set (queued c s2)" "?cur \<notin> set (sc_sleep s2)"
    using not_queued [OF w2(1)] not_sleeping [OF w2(2)] st2 by auto
  have pn: "?cur \<in> set (sc_reap s2) \<Longrightarrow> t_parent (sc_task s2 ?cur) = None"
    using w2(3) by (auto simp: reap_wf_def reapable_def)
  have s3: "s3 = upd_task (sc_current s2) (\<lambda>k. k\<lparr> t_state := if t_parent (sc_task s2 ?cur) \<noteq> None then TASK_ZOMBIE else TASK_DEAD \<rparr>) s2"
    using o(2) by (simp add: s3_def upd_task_def)
  have w3: "sched_wf s3" unfolding s3
    by (rule cur_state_wf [where st = "if t_parent (sc_task s2 ?cur) \<noteq> None then TASK_ZOMBIE else TASK_DEAD"])
      (use o nq pn in auto)
  have c3: "sc_current s3 = ?cur" using o(2) by (simp add: s3_def)
  define s4 where "s4 = sched_drop_task_count ?cur s3"
  have sm: "same_but_freed {} s3 s4" unfolding s4_def by (rule drop_count_same)
  have b4: "base_wf [] s4" by (rule same_base [OF sm]) (use w3 in \<open>auto simp: sched_wf_base\<close>)
  have "sched_wf (sched_queue_deferred_reap ?cur s4) \<and> sc_current (sched_queue_deferred_reap ?cur s4) = ?cur"
    if "t_parent (sc_task s3 ?cur) = None"
  proof -
    have "reapable ?cur s4"
      using that sm w3 c3 by (auto simp: reapable_def same_but_freed_def s3_def sched_wf_def current_wf_def)
    then have "base_wf [] (sched_queue_deferred_reap ?cur s4)" using queue_reap_base [OF b4] by simp
    moreover have "steady s3 (sched_queue_deferred_reap ?cur s4)"
      using queue_reap_steady same_steady [OF sm] steady_trans by blast
    ultimately show ?thesis using w3 c3 by (auto simp: sched_wf_base steady_def)
  qed
  then show "sched_wf (sched_exit_current code s)" "sc_current (sched_exit_current code s) = ?cur"
    using w3 c3 unfolding sched_exit_current_def Let_def s1_def [symmetric] s2_def [symmetric] s3_def [symmetric]
      s4_def [symmetric] by auto
qed

lemma same_sched: "same_but_freed {} s s' \<Longrightarrow> sched_wf s \<Longrightarrow> sched_wf s'"
  using same_wf(1,2,4,5) [of "{}" s s'] same_wf(3) [of "{}" s s' "[]"] by (simp add: sched_wf_def)

lemma cur_not_listed:
  assumes "sched_wf s"
  shows "sc_current s \<notin> set (queued c s)" "sc_current s \<notin> set (sc_sleep s)"
  using assms not_queued [of s "sc_current s"] not_sleeping [of s "sc_current s"]
  by (auto simp: sched_wf_def current_wf_def)

lemma account_tick_wf:
  assumes "sched_wf s"
  shows "sched_wf (account_tick s)" "sc_current (account_tick s) = sc_current s"
    "sc_cpu_ticks (account_tick s) = sc_cpu_ticks s" "sc_sleep (account_tick s) = sc_sleep s"
    "u \<noteq> sc_current s \<Longrightarrow> sc_task (account_tick s) u = sc_task s u"
proof -
  let ?cur = "sc_current s"
  define s1 where "s1 = upd_task ?cur (\<lambda>k. k\<lparr> t_ticks := t_ticks k + 1, t_slice := t_slice k + 1,
                 t_stime := t_stime k + 1, t_vruntime := t_vruntime k + (1024 * 1024) div eff_weight k
                   - (if t_ai_hint k = AI_HINT_BATCH then 128 else 0) \<rparr>) s"
  note nq = cur_not_listed [OF assms]
  have w: "rq_wf s" "sleep_wf s" "reap_wf [] s" "child_wf s" "current_wf s" using assms by (simp_all add: sched_wf_def)
  have "rq_wf s1" by (rule rq_wf_frame [of s]) (use w nq in \<open>auto simp: s1_def\<close>)
  moreover have "sleep_wf s1" by (rule sleep_wf_frame [of s]) (use w in \<open>auto simp: s1_def\<close>)
  moreover have "child_wf s1" by (rule child_wf_frame [of s]) (use w in \<open>auto simp: s1_def\<close>)
  moreover have "reap_wf [] s1" by (rule reap_wf_frame [of _ s]) (use w in \<open>auto simp: s1_def\<close>)
  moreover have "current_wf s1" using w(5) by (simp add: current_wf_def s1_def)
  ultimately have w1: "sched_wf s1" by (simp add: sched_wf_def)
  have "same_but_freed {} s1 (account_tick s)"
    unfolding account_tick_def Let_def s1_def [symmetric]
    by (auto simp: same_but_freed_def queued_def upd_task_def)
  then show "sched_wf (account_tick s)" using w1 by (rule same_sched)
  show "sc_current (account_tick s) = sc_current s" "sc_cpu_ticks (account_tick s) = sc_cpu_ticks s"
    "sc_sleep (account_tick s) = sc_sleep s"
    "u \<noteq> sc_current s \<Longrightarrow> sc_task (account_tick s) u = sc_task s u"
    by (simp_all add: account_tick_def Let_def)
qed

lemma tick_signals_wf:
  assumes "sched_wf s" "t_state (sc_task s (sc_current s)) = TASK_DEAD \<Longrightarrow>
    \<not> bit (t_signals (sc_task s (sc_current s))) SIGSTOP"
  shows "sched_wf (tick_signals (sc_current s) s)"
proof -
  let ?cur = "sc_current s"
  have "same_but_freed {} (sched_exit_current c s)
      (upd_task ?cur (\<lambda>k. k\<lparr> t_need_resched := True \<rparr>) (sched_exit_current c s))" for c
    by (rule same_upd_task) simp
  then have "sched_wf (upd_task ?cur (\<lambda>k. k\<lparr> t_need_resched := True \<rparr>) (sched_exit_current c s))" for c
    using exit_wf(1) [OF assms(1)] same_sched by blast
  moreover have "sched_wf (upd_task ?cur (\<lambda>k. k\<lparr> t_state := TASK_STOPPED,
      t_signals := unset_bit SIGSTOP (t_signals k) \<rparr>) s)" if "t_state (sc_task s ?cur) \<noteq> TASK_DEAD"
  proof (rule cur_state_wf [where st = TASK_STOPPED])
    show "?cur \<in> set (sc_reap s) \<Longrightarrow> TASK_STOPPED = TASK_DEAD"
      using assms that by (auto simp: sched_wf_def reap_wf_def reapable_def)
  qed (use assms cur_not_listed [OF assms(1)] in \<open>auto simp: sched_wf_base\<close>)
  ultimately show ?thesis using assms by (cases "t_state (sc_task s ?cur) = TASK_DEAD") (auto simp: tick_signals_def)
qed

lemma tick_wf:
  assumes "sched_wf s" "t_state (sc_task s (sc_current s)) = TASK_DEAD \<Longrightarrow>
    \<not> bit (t_signals (sc_task s (sc_current s))) SIGSTOP"
  shows "sched_wf (sched_tick s)"
proof -
  define s1 where "s1 = s\<lparr> sc_cpu_ticks := sc_cpu_ticks s + 1 \<rparr>"
  define s2 where "s2 = account_tick s1"
  define s3 where "s3 = wake_sleepers (sc_cpu_ticks s2) s2"
  let ?cur = "sc_current s"
  have "same_but_freed {} s s1" by (rule same_fields) (simp_all add: s1_def)
  then have w1: "sched_wf s1" using assms(1) by (rule same_sched)
  note a = account_tick_wf [OF w1, folded s2_def]
  note w = wake_wf [OF a(1), of "sc_cpu_ticks s2", folded s3_def]
  have c: "sc_current s1 = ?cur" "sc_current s2 = ?cur" "sc_current s3 = ?cur"
    using a w by (simp_all add: s1_def)
  have "t_state (sc_task s2 ?cur) = t_state (sc_task s ?cur)" "t_signals (sc_task s2 ?cur) = t_signals (sc_task s ?cur)"
    by (simp_all add: s2_def account_tick_def Let_def s1_def)
  then have "sched_wf (tick_signals ?cur s3)"
    using tick_signals_wf [OF w(1)] assms(2) w(4) c by simp
  moreover have "same_but_freed {} (tick_signals ?cur s3)
      (upd_task ?cur (\<lambda>k. k\<lparr> t_invol_switches := t_invol_switches k + 1 \<rparr>) (tick_signals ?cur s3))"
    by (rule same_upd_task) simp
  ultimately have "sched_wf (upd_task ?cur (\<lambda>k. k\<lparr> t_invol_switches := t_invol_switches k + 1 \<rparr>) (tick_signals ?cur s3))"
    using same_sched by blast
  then show ?thesis
    unfolding sched_tick_def Let_def s1_def [symmetric] c s2_def [symmetric] s3_def [symmetric] .
qed

lemma yield_sched_wf: "sched_wf s \<Longrightarrow> sched_wf (sched_yield s)"
  using cur_not_listed [of s] by (intro yield_wf) (auto simp: sched_wf_base)

lemma preempt_wf:
  assumes "sched_wf s"
  shows "sched_wf (sched_maybe_preempt s)"
proof -
  have "same_but_freed {} s (upd_task (sc_current s) (\<lambda>k. k\<lparr> t_need_resched := False \<rparr>) s)"
    by (rule same_upd_task) simp
  then show ?thesis
    using assms yield_sched_wf same_sched by (simp add: sched_maybe_preempt_def Let_def)
qed

lemma remove_child:
  assumes "i < length cs" "distinct cs"
  shows "distinct (remove_child_at i cs)" "set (remove_child_at i cs) = set cs - {cs ! i}"
proof -
  obtain ys x where cs: "cs = ys @ [x]" using assms(1) by (cases cs rule: rev_cases) auto
  have "remove_child_at i cs = (if i = length ys then ys else ys[i := x])"
    using assms(1) by (auto simp: remove_child_at_def cs list_update_append butlast_append)
  moreover have "set (ys[i := x]) = insert x (set ys - {ys ! i})" if "i < length ys"
    using assms(2) that cs by (simp add: set_update_distinct)
  moreover have "distinct (ys[i := x])" if "i < length ys"
    using assms(2) that cs by (auto intro: distinct_list_update)
  ultimately show "distinct (remove_child_at i cs)" "set (remove_child_at i cs) = set cs - {cs ! i}"
    using assms by (auto simp: cs nth_append)
qed

lemma waitpid_pass_wf:
  assumes "sched_wf s" "waitpid_pass pid s = (r, s')"
  shows "sched_wf s'" "r = None \<Longrightarrow> s' = s"
proof -
  let ?cur = "sc_current s" and ?cs = "t_children (sc_task s (sc_current s))"
  let ?P = "\<lambda>i. \<not> (pid > 0 \<and> sint (t_id (sc_task s (?cs ! i))) \<noteq> pid)
               \<and> (t_state (sc_task s (?cs ! i)) = TASK_ZOMBIE \<or> t_state (sc_task s (?cs ! i)) = TASK_DEAD)"
  have w: "rq_wf s" "sleep_wf s" "reap_wf [] s" "child_wf s" "current_wf s" using assms(1) by (simp_all add: sched_wf_def)
  have "sched_wf s' \<and> (r = None \<longrightarrow> s' = s)"
  proof (cases "scan ?P 0 (length ?cs)")
    case None
    then show ?thesis using assms by (simp add: waitpid_pass_def Let_def)
  next
    case (Some i)
    let ?c = "?cs ! i"
    define s1 where "s1 = upd_task ?c (\<lambda>k. k\<lparr> t_state := TASK_DEAD \<rparr>) (sched_drop_task_count ?c s)"
    define s2 where "s2 = upd_task ?cur (\<lambda>k. k\<lparr> t_children := remove_child_at i (t_children k) \<rparr>) s1"
    define s3 where "s3 = s2\<lparr> sc_reaped := sc_reaped s2 + 1 \<rparr>"
    define owns where "owns = (t_pml4 (sc_task s1 ?c) \<noteq> 0 \<and> t_pml4 (sc_task s1 ?c) \<noteq> t_pml4 (sc_task s1 ?cur))"
    have i: "i < length ?cs" "t_state (sc_task s ?c) = TASK_ZOMBIE \<or> t_state (sc_task s ?c) = TASK_DEAD"
      using scan_SomeD [OF Some] by auto
    have c: "?c \<in> set ?cs" "t_parent (sc_task s ?c) = Some ?cur" "?c \<noteq> ?cur" "distinct ?cs"
      using i(1) w(4) by (auto simp: child_wf_def)
    have sm: "same_but_freed {} s (sched_drop_task_count ?c s)" by (rule drop_count_same)
    have nl: "\<And>q. ?c \<notin> set (queued q s)" "?c \<notin> set (sc_sleep s)" "?c \<notin> set (sc_reap s)"
      using i(2) not_queued [OF w(1)] not_sleeping [OF w(2)] c(2) w(3) by (auto simp: reap_wf_def reapable_def)
    have sel: "queued q s3 = queued q s" "sc_sleep s3 = sc_sleep s" "sc_reap s3 = sc_reap s" "sc_current s3 = ?cur"
      "t_state (sc_task s3 u) = (if u = ?c then TASK_DEAD else t_state (sc_task s u))"
      "t_vruntime (sc_task s3 u) = t_vruntime (sc_task s u)" "t_parent (sc_task s3 u) = t_parent (sc_task s u)"
      "t_reap_queued (sc_task s3 u) = t_reap_queued (sc_task s u)" "t_freed (sc_task s3 u) = t_freed (sc_task s u)"
      "t_children (sc_task s3 u) = (if u = ?cur then remove_child_at i ?cs else t_children (sc_task s u))" for q u
      using sm c(3) by (auto simp: s3_def s2_def s1_def same_but_freed_def queued_def upd_task_def)
    have "rq_wf s3" by (rule rq_wf_frame [of s]) (use w nl in \<open>auto simp: sel\<close>)
    moreover have "sleep_wf s3" by (rule sleep_wf_frame [of s]) (use w nl in \<open>auto simp: sel\<close>)
    moreover have "reap_wf [] s3" by (rule reap_wf_frame [of _ s]) (use w nl in \<open>auto simp: sel\<close>)
    moreover have "child_wf s3"
      using w(4) remove_child [OF i(1) c(4)] unfolding child_wf_def by (simp add: sel) blast
    ultimately have b: "base_wf [] s3" using w(5) by (simp add: base_wf_def sel current_wf_def)
    have "\<forall>p. ?c \<notin> set (t_children (sc_task s3 p))"
      using w(4) c(2) remove_child(2) [OF i(1) c(4)] by (auto simp: sel child_wf_def)
    then have "base_wf [] (sched_destroy_task_resources ?c owns True True s3)"
      using same_base [OF destroy_same [of True ?c s3 owns True] b] c(3) nl by (auto simp: sel)
    moreover have "steady s3 (sched_destroy_task_resources ?c owns True True s3)"
      using destroy_same same_steady by blast
    ultimately have "sched_wf (sched_destroy_task_resources ?c owns True True s3)"
      using w(5) c(3) by (auto simp: sched_wf_base steady_def sel current_wf_def)
    then show ?thesis
      using assms(2) Some unfolding waitpid_pass_def Let_def
      by (auto simp: s1_def s2_def s3_def owns_def)
  qed
  then show "sched_wf s'" "r = None \<Longrightarrow> s' = s" by auto
qed

section \<open>Creating tasks\<close>

text \<open>A task object no list of the scheduler refers to.\<close>

definition unlinked :: "nat \<Rightarrow> sched \<Rightarrow> bool" where
  "unlinked t s \<longleftrightarrow> (\<forall>c. t \<notin> set (queued c s)) \<and> t \<notin> set (sc_sleep s) \<and> t \<notin> set (sc_reap s) \<and>
     t \<noteq> sc_current s \<and> (\<forall>p. t \<notin> set (t_children (sc_task s p)))"

definition newborn :: "nat \<Rightarrow> sched \<Rightarrow> bool" where
  "newborn t s \<longleftrightarrow> sched_wf s \<and> unlinked t s"

lemma freed_unlinked: "sched_wf s \<Longrightarrow> t_freed (sc_task s t) \<Longrightarrow> newborn t s"
  by (auto simp: newborn_def unlinked_def sched_wf_def wf_defs)

lemma newborn_upd:
  assumes "newborn t s" "t_children (f (sc_task s t)) = [] \<or> t_children (f (sc_task s t)) = t_children (sc_task s t)"
  shows "newborn t (upd_task t f s)"
proof -
  let ?s = "upd_task t f s"
  have u: "unlinked t s" and w: "rq_wf s" "sleep_wf s" "reap_wf [] s" "child_wf s" "current_wf s"
    using assms(1) by (simp_all add: newborn_def sched_wf_def)
  have "rq_wf ?s" by (rule rq_wf_frame [of s]) (use w u in \<open>auto simp: unlinked_def\<close>)
  moreover have "sleep_wf ?s" by (rule sleep_wf_frame [of s]) (use w u in \<open>auto simp: unlinked_def\<close>)
  moreover have "reap_wf [] ?s" by (rule reap_wf_frame [of _ s]) (use w u in \<open>auto simp: unlinked_def\<close>)
  moreover have "child_wf ?s" using w(4) u assms(2) unfolding child_wf_def unlinked_def by auto
  moreover have "current_wf ?s" using w(5) u by (simp add: current_wf_def unlinked_def)
  ultimately show ?thesis
    using u assms(2) by (auto simp: newborn_def sched_wf_def unlinked_def)
qed

lemma newborn_same: "newborn t s \<Longrightarrow> same_but_freed {} s s' \<Longrightarrow> newborn t s'"
  using same_sched [of s s'] by (auto simp: newborn_def unlinked_def same_but_freed_def)

lemma newborn_fields:
  assumes "newborn t s" "sc_rq s' = sc_rq s" "sc_sleep s' = sc_sleep s" "sc_reap s' = sc_reap s"
    "sc_current s' = sc_current s" "sc_task s' = sc_task s"
  shows "newborn t s'"
  by (rule newborn_same [OF assms(1) same_fields [OF assms(2-6)]])

lemma newborn_destroy: "newborn t s \<Longrightarrow> sched_wf (sched_destroy_task_resources t das cf True s)"
proof -
  assume n: "newborn t s"
  let ?s = "sched_destroy_task_resources t das cf True s"
  have d: "same_but_freed {t} s ?s" using destroy_same [of True t s das cf] by simp
  show ?thesis
    using n same_wf(1,2,4,5) [OF d] same_wf(3) [OF d, of "[]"]
    unfolding newborn_def sched_wf_def unlinked_def by auto
qed

lemma attach_sel:
  "queued c (attach_node t s) = queued c s" "sc_current (attach_node t s) = sc_current s"
  by (simp_all add: attach_node_def queued_def split: prod.split)

lemma newborn_attach: "newborn t s \<Longrightarrow> newborn t (attach_node t s)"
proof -
  assume n: "newborn t s"
  obtain nid g where e: "yamgraph_node_create YAM_NODE_TASK (Some (t_name (sc_task s t))) (Data_ptr (of_nat t))
      (sc_graph s) = (nid, g)" by (metis surj_pair)
  have "newborn t (s\<lparr> sc_graph := g \<rparr>)" by (rule newborn_fields [OF n]) simp_all
  then show ?thesis unfolding attach_node_def e by (auto intro: newborn_upd)
qed

lemma attach_task:
  "t_parent (sc_task (attach_node t s) u) = t_parent (sc_task s u)"
  "t_freed (sc_task (attach_node t s) u) = t_freed (sc_task s u)"
  by (simp_all add: attach_node_def split: prod.split)

lemma enqueue_new_wf:
  assumes "sched_wf s" "\<not> t_freed (sc_task s t)" "\<And>c. t \<notin> set (queued c s)" "t \<notin> set (sc_sleep s)"
    "t \<notin> set (sc_reap s)" "t \<noteq> sc_current s"
  shows "sched_wf (enqueue_new cpu t s)"
proof -
  define s1 where "s1 = upd_task t (\<lambda>k. k\<lparr> t_vruntime := rq_min_vruntime (sc_rq s cpu) \<rparr>) s"
  define s2 where "s2 = rq_insert cpu t s1"
  define s3 where "s3 = upd_task t (\<lambda>k. k\<lparr> t_accounted := True \<rparr>) s2"
  have w: "rq_wf s" "sleep_wf s" "reap_wf [] s" "child_wf s" "current_wf s" using assms(1) by (simp_all add: sched_wf_def)
  have "rq_wf s1" by (rule rq_wf_frame [of s]) (use w assms in \<open>auto simp: s1_def\<close>)
  moreover have "sleep_wf s1" by (rule sleep_wf_frame [of s]) (use w in \<open>auto simp: s1_def\<close>)
  moreover have "reap_wf [] s1" by (rule reap_wf_frame [of _ s]) (use w in \<open>auto simp: s1_def\<close>)
  moreover have "child_wf s1" by (rule child_wf_frame [of s]) (use w in \<open>auto simp: s1_def\<close>)
  ultimately have b1: "base_wf [] s1" using w(5) assms(6) by (simp add: base_wf_def s1_def current_wf_def)
  have "base_wf [] s2" unfolding s2_def
    by (rule rq_insert_base [OF b1]) (use assms in \<open>simp_all add: s1_def\<close>)
  moreover have "t_state (sc_task s2 (sc_current s2)) \<notin> {TASK_READY, TASK_BLOCKED}"
    using w(5) assms(6) by (auto simp: s2_def rq_insert_sel s1_def current_wf_def)
  ultimately have w2: "sched_wf s2" by (simp add: sched_wf_base)
  have a: "same_but_freed {} s2 s3" unfolding s3_def by (rule same_upd_task) simp
  have "same_but_freed {} s3 (s3\<lparr> sc_total := sc_total s3 + 1, sc_created := sc_created s3 + 1 \<rparr>)"
    by (rule same_fields) simp_all
  then have "sched_wf (s3\<lparr> sc_total := sc_total s3 + 1, sc_created := sc_created s3 + 1 \<rparr>)"
    using same_sched [OF _ same_sched [OF a w2]] by blast
  then show ?thesis
    unfolding enqueue_new_def Let_def s1_def [symmetric] s2_def [symmetric] s3_def [symmetric] .
qed

lemma add_child_wf:
  assumes "newborn t s" "t_parent (sc_task s t) = Some (sc_current s)" "\<not> t_freed (sc_task s t)"
  shows "sched_wf (add_child (sc_current s) t s)"
proof -
  let ?s = "add_child (sc_current s) t s"
  have sel: "queued c ?s = queued c s" "sc_sleep ?s = sc_sleep s" "sc_reap ?s = sc_reap s" "sc_current ?s = sc_current s"
    "sc_task ?s u = (if u = sc_current s then (sc_task s u)\<lparr> t_children := t_children (sc_task s u) @ [t] \<rparr>
       else sc_task s u)" for c u
    by (simp_all add: add_child_def)
  have u: "unlinked t s" and w: "rq_wf s" "sleep_wf s" "reap_wf [] s" "child_wf s" "current_wf s"
    using assms(1) by (simp_all add: newborn_def sched_wf_def)
  have "rq_wf ?s" by (rule rq_wf_frame [of s]) (use w in \<open>auto simp: sel\<close>)
  moreover have "sleep_wf ?s" by (rule sleep_wf_frame [of s]) (use w in \<open>auto simp: sel\<close>)
  moreover have "reap_wf [] ?s" by (rule reap_wf_frame [of _ s]) (use w in \<open>auto simp: sel\<close>)
  moreover have "child_wf ?s" using w(4) u assms(2,3) unfolding child_wf_def unlinked_def by (auto simp: sel)
  moreover have "current_wf ?s" using w(5) by (simp add: current_wf_def sel)
  ultimately show ?thesis by (simp add: sched_wf_def)
qed

lemma link_and_enqueue:
  assumes "newborn t s" "t_parent (sc_task s t) = Some (sc_current s)" "\<not> t_freed (sc_task s t)"
  shows "sched_wf (enqueue_new cpu t (add_child (sc_current s) t s))" "sched_wf (enqueue_new cpu t s)"
proof -
  have u: "unlinked t s" "sched_wf s" using assms(1) by (simp_all add: newborn_def)
  show "sched_wf (enqueue_new cpu t (add_child (sc_current s) t s))"
    using add_child_wf [OF assms] u(1) assms(3) by (intro enqueue_new_wf) (auto simp: add_child_def unlinked_def)
  show "sched_wf (enqueue_new cpu t s)"
    using u assms(3) by (intro enqueue_new_wf) (auto simp: unlinked_def)
qed

end
