(* ===== verification/Sched_Reach.thy ===== *)
theory Sched_Reach
  imports Sched_Steps
begin

text \<open>
  Task creation keeps the scheduler's invariant, and the scheduler as a transition system: its operations,
  when they may happen, and the states reachable from \<^verbatim>\<open>sched_init\<close>, all of them well formed.
\<close>

section \<open>Creation keeps the invariant\<close>

lemma spawn_wf:
  assumes "sched_wf s" "\<And>t. al_task al = Some t \<Longrightarrow> t_freed (sc_task s t)"
  shows "sched_wf (snd (sched_spawn name entry arg prio al s))"
proof (cases "al_task al")
  case None
  then show ?thesis using assms(1) by (simp add: sched_spawn_def)
next
  case (Some t)
  let ?p = "sc_current s"
  define k where "k = zero_task\<lparr> t_graph_node := GRAPH_NODE_INVALID, t_id := sc_next_id s,
                      t_prio := if prio < SCHED_PRIO_LEVELS then prio else SCHED_PRIO_LEVELS - 1,
                      t_weight := weight_for_nice 0, t_affinity := - 1, t_entry := entry, t_arg := arg,
                      t_parent := Some ?p, t_start_tick := sc_cpu_ticks s, t_brk_start := 0x400000,
                      t_brk := 0x400000, t_name := take 23 name,
                      t_cwd := if t_cwd (sc_task s ?p) \<noteq> [] then take 255 (t_cwd (sc_task s ?p))
                               else ''/'' \<rparr>"
  define s1 where "s1 = (upd_task t (\<lambda>_. k) s)\<lparr> sc_next_id := sc_next_id s + 1 \<rparr>"
  define s2 where "s2 = attach_node t s1"
  define s3 where "s3 = upd_task t (\<lambda>k. k\<lparr> t_stack := al_stack al \<rparr>) s2"
  define s4 where "s4 = upd_task t (\<lambda>k. k\<lparr> t_fpu := al_fpu al \<rparr>) s3"
  obtain sp m where pw: "push_words [entry, arg, addr_task_trampoline (sc_image s4), 0, 0, 0, 0, 0, 0, 2]
      (al_stack al + SCHED_STACK_SIZE, sc_mem s4) = (sp, m)" by (metis surj_pair)
  define s5 where "s5 = (upd_task t (\<lambda>k. k\<lparr> t_rsp := sp \<rparr>) s4)\<lparr> sc_mem := m \<rparr>"
  have n0: "newborn t s" using freed_unlinked assms Some by blast
  have k: "t_children k = []" "t_parent k = Some ?p" "\<not> t_freed k" by (simp_all add: k_def zero_task_def)
  have "newborn t (upd_task t (\<lambda>_. k) s)" using n0 k(1) by (auto intro: newborn_upd)
  then have n1: "newborn t s1" by (rule newborn_fields) (simp_all add: s1_def)
  then have n2: "newborn t s2" unfolding s2_def by (rule newborn_attach)
  then have n3: "newborn t s3" unfolding s3_def by (auto intro: newborn_upd)
  then have n4: "newborn t s4" unfolding s4_def by (auto intro: newborn_upd)
  then have "newborn t (upd_task t (\<lambda>k. k\<lparr> t_rsp := sp \<rparr>) s4)" by (auto intro: newborn_upd)
  then have n5: "newborn t s5" by (rule newborn_fields) (simp_all add: s5_def)
  have t5: "t_parent (sc_task s5 t) = Some (sc_current s5)" "\<not> t_freed (sc_task s5 t)" "sc_current s5 = ?p"
    using k by (simp_all add: s5_def s4_def s3_def s2_def attach_sel attach_task) (simp_all add: s1_def)
  define s6 where "s6 = (if length (t_children (sc_task s5 ?p)) < MAX_CHILDREN then add_child ?p t s5 else s5)"
  define cpu where "cpu = sched_pick_cpu_for_task t s6"
  define s7 where "s7 = upd_task t (\<lambda>k. k\<lparr> t_cpu := cpu \<rparr>) s6"
  have w6: "sched_wf s6" using add_child_wf [OF n5 t5(1,2)] n5 t5(3) by (simp add: s6_def newborn_def)
  have "same_but_freed {} s6 s7" unfolding s7_def by (rule same_upd_task) simp
  then have w7: "sched_wf s7" using w6 by (rule same_sched)
  have "unlinked t s5" using n5 by (simp add: newborn_def)
  then have "sched_wf (enqueue_new cpu t s7)"
    using w7 t5 by (intro enqueue_new_wf) (auto simp: s7_def s6_def add_child_def unlinked_def)
  moreover have "sched_wf (sched_destroy_task_resources t False False True s2)"
    "sched_wf (sched_destroy_task_resources t False False True s3)"
    "sched_wf (sched_destroy_task_resources t False False True s4)"
    using n2 n3 n4 by (auto intro: newborn_destroy)
  ultimately show ?thesis
    unfolding sched_spawn_def Let_def Some option.case k_def [symmetric] s1_def [symmetric] s2_def [symmetric]
      s3_def [symmetric] s4_def [symmetric] pw prod.case s5_def [symmetric] s6_def [symmetric]
      cpu_def [symmetric] s7_def [symmetric] by simp
qed

lemma arm_child_newborn:
  assumes "sched_fork_arm_child c p r s = (b, s')" "newborn c s"
  shows "newborn c s'" "sc_current s' = sc_current s"
    "t_parent (sc_task s' c) = t_parent (sc_task s c)" "t_freed (sc_task s' c) = t_freed (sc_task s c)"
proof -
  consider "s' = s" | a m where "s' = upd_task c (\<lambda>k. k\<lparr> t_rsp := a \<rparr>) (s\<lparr> sc_mem := m \<rparr>)"
    using assms(1) by (auto simp: sched_fork_arm_child_def Let_def split: if_splits)
  then have "newborn c s' \<and> sc_current s' = sc_current s \<and>
    t_parent (sc_task s' c) = t_parent (sc_task s c) \<and> t_freed (sc_task s' c) = t_freed (sc_task s c)"
  proof cases
    case (2 a m)
    have "newborn c (s\<lparr> sc_mem := m \<rparr>)" by (rule newborn_fields [OF assms(2)]) simp_all
    then show ?thesis unfolding 2 by (auto intro: newborn_upd)
  qed (use assms(2) in simp)
  then show "newborn c s'" "sc_current s' = sc_current s"
    "t_parent (sc_task s' c) = t_parent (sc_task s c)" "t_freed (sc_task s' c) = t_freed (sc_task s c)" by auto
qed

lemma fork_wf:
  assumes "sched_wf s" "\<And>t. al_task al = Some t \<Longrightarrow> t_freed (sc_task s t)"
  shows "sched_wf (snd (sys_fork r al s))"
proof (cases "length (t_children (sc_task s (sc_current s))) \<ge> MAX_CHILDREN \<or> al_task al = None")
  case True
  then show ?thesis using assms(1) by (auto simp: sys_fork_def Let_def)
next
  case False
  let ?p = "sc_current s"
  obtain c where c: "al_task al = Some c" using False by auto
  define k where "k = (inherit_task ?p (sc_next_id s) (sc_cpu_ticks s) (sc_task s ?p))
                      \<lparr> t_pml4 := 0, t_vma_head := 0, t_tls := 0, t_thread_group := 0 \<rparr>"
  define s1 where "s1 = (upd_task c (\<lambda>_. k) s)\<lparr> sc_next_id := sc_next_id s + 1 \<rparr>"
  define s2 where "s2 = upd_task c (\<lambda>k. k\<lparr> t_stack := al_stack al \<rparr>) s1"
  define s2m where "s2m = s2\<lparr> sc_mem := copy_stack (al_stack al) (t_stack (sc_task s2 ?p)) (sc_mem s2) \<rparr>"
  define s3 where "s3 = upd_task c (\<lambda>k. k\<lparr> t_fpu := al_fpu al \<rparr>) s2m"
  define s4 where "s4 = (if t_pml4 (sc_task s3 ?p) \<noteq> 0
                              then upd_task c (\<lambda>k. k\<lparr> t_pml4 := al_pml4 al \<rparr>) s3 else s3)"
  define vmas where "vmas = the (al_vmas al)"
  define s5 where "s5 = attach_node c (upd_task c (\<lambda>k. k\<lparr> t_vma_head := vmas \<rparr>) s4)"
  obtain b s6 where arm: "sched_fork_arm_child c ?p r s5 = (b, s6)" by (metis surj_pair)
  have n0: "newborn c s" using freed_unlinked assms c by blast
  have k: "t_children k = []" "t_parent k = Some ?p" "\<not> t_freed k" by (simp_all add: k_def inherit_task_def)
  have "newborn c (upd_task c (\<lambda>_. k) s)" using n0 k(1) by (auto intro: newborn_upd)
  then have n1: "newborn c s1" by (rule newborn_fields) (simp_all add: s1_def)
  then have n2: "newborn c s2" unfolding s2_def by (auto intro: newborn_upd)
  then have "newborn c s2m" by (rule newborn_fields) (simp_all add: s2m_def)
  then have n3: "newborn c s3" unfolding s3_def by (auto intro: newborn_upd)
  then have n4: "newborn c s4" unfolding s4_def by (auto intro: newborn_upd)
  have n5: "newborn c s5" unfolding s5_def by (rule newborn_attach) (use n4 in \<open>auto intro: newborn_upd\<close>)
  note a = arm_child_newborn [OF arm n5]
  have t5: "t_parent (sc_task s5 c) = Some ?p" "\<not> t_freed (sc_task s5 c)" "sc_current s5 = ?p"
    using k by (simp_all add: s5_def attach_sel attach_task s4_def s3_def s2m_def s2_def s1_def)
  have "sched_wf (enqueue_new 0 c (add_child ?p c s6))"
    using link_and_enqueue(1) [OF a(1)] a t5 by simp
  moreover have "same_but_freed {} (enqueue_new 0 c (add_child ?p c s6))
      ((enqueue_new 0 c (add_child ?p c s6))\<lparr> sc_forked := sc_forked (enqueue_new 0 c (add_child ?p c s6)) + 1 \<rparr>)"
    by (rule same_fields) simp_all
  ultimately have ok: "sched_wf ((enqueue_new 0 c (add_child ?p c s6))
      \<lparr> sc_forked := sc_forked (enqueue_new 0 c (add_child ?p c s6)) + 1 \<rparr>)"
    using same_sched by blast
  have d: "sched_wf (sched_destroy_task_resources c x False True s2)"
    "sched_wf (sched_destroy_task_resources c x False True s3)"
    "sched_wf (sched_destroy_task_resources c x False True s4)"
    "sched_wf (sched_destroy_task_resources c x False True s5)"
    "sched_wf (sched_destroy_task_resources c x False True s6)" for x
    using n2 n3 n4 n5 a(1) by (auto intro: newborn_destroy)
  have r: "sys_fork r al s =
     (if al_stack al = 0 then (None, sched_destroy_task_resources c False False True s2)
      else if al_fpu al = 0 then (None, sched_destroy_task_resources c False False True s3)
      else if t_pml4 (sc_task s3 ?p) \<noteq> 0 \<and> al_pml4 al = 0
        then (None, sched_destroy_task_resources c False False True s4)
      else if al_vmas al = None
        then (None, sched_destroy_task_resources c (t_pml4 (sc_task s4 c) \<noteq> 0) False True s4)
      else if t_graph_node (sc_task s5 c) = GRAPH_NODE_INVALID
        then (None, sched_destroy_task_resources c (t_pml4 (sc_task s5 c) \<noteq> 0) False True s5)
      else if \<not> b then (None, sched_destroy_task_resources c (t_pml4 (sc_task s6 c) \<noteq> 0) False True s6)
      else (Some (t_id (sc_task (enqueue_new 0 c (add_child ?p c s6)) c)), (enqueue_new 0 c (add_child ?p c s6))
        \<lparr> sc_forked := sc_forked (enqueue_new 0 c (add_child ?p c s6)) + 1 \<rparr>))"
  proof (cases "al_vmas al")
    case None
    then show ?thesis using False unfolding sys_fork_def Let_def c None option.case k_def [symmetric]
      s1_def [symmetric] s2_def [symmetric] s2m_def [symmetric] s3_def [symmetric] s4_def [symmetric] by simp
  next
    case (Some v)
    then have v: "al_vmas al = Some vmas" by (simp add: vmas_def)
    show ?thesis using False unfolding sys_fork_def Let_def c v option.case k_def [symmetric]
      s1_def [symmetric] s2_def [symmetric] s2m_def [symmetric] s3_def [symmetric] s4_def [symmetric]
      s5_def [symmetric] arm prod.case by (simp split: bool.split)
  qed
  show ?thesis unfolding r using ok d by simp
qed

lemma thread_wf:
  assumes "sched_wf s" "\<And>t. al_task al = Some t \<Longrightarrow> t_freed (sc_task s t)"
  shows "sched_wf (snd (sched_thread_create name entry utop arg tls al s))"
proof (cases "length (t_children (sc_task s (sc_current s))) \<ge> MAX_CHILDREN \<or> al_task al = None")
  case True
  then show ?thesis using assms(1) by (auto simp: sched_thread_create_def Let_def)
next
  case False
  let ?p = "sc_current s" and ?pk = "sc_task s (sc_current s)"
  obtain c where c: "al_task al = Some c" using False by auto
  define k where "k = (inherit_task ?p (sc_next_id s) (sc_cpu_ticks s) ?pk)
                      \<lparr> t_tls := tls,
                        t_thread_group := if t_thread_group ?pk \<noteq> 0 then t_thread_group ?pk else t_id ?pk,
                        t_name := case name of None \<Rightarrow> t_name ?pk | Some n \<Rightarrow> take 23 n,
                        t_stack := al_stack al \<rparr>"
  define s1 where "s1 = (upd_task c (\<lambda>_. k) s)\<lparr> sc_next_id := sc_next_id s + 1 \<rparr>"
  define s1m where "s1m = s1\<lparr> sc_mem := clear_stack (al_stack al) (sc_mem s1) \<rparr>"
  define s2 where "s2 = upd_task c (\<lambda>k. k\<lparr> t_fpu := al_fpu al \<rparr>) s1m"
  define s3 where "s3 = attach_node c (upd_task c (\<lambda>k. k\<lparr> t_pml4 := t_pml4 ?pk \<rparr>) s2)"
  obtain sp m where pw: "push_words [0x1B, utop, 0x202, 0x23, entry, arg, addr_user_thread_stub (sc_image s3),
      0, 0, 0, 0, 0, 0, 0x202] (al_stack al + SCHED_STACK_SIZE, sc_mem s3) = (sp, m)" by (metis surj_pair)
  define s4 where "s4 = (upd_task c (\<lambda>k. k\<lparr> t_rsp := sp \<rparr>) s3)\<lparr> sc_mem := m \<rparr>"
  define s5 where "s5 = enqueue_new 0 c (add_child ?p c s4)"
  have n0: "newborn c s" using freed_unlinked assms c by blast
  have k: "t_children k = []" "t_parent k = Some ?p" "\<not> t_freed k" by (simp_all add: k_def inherit_task_def)
  have "newborn c (upd_task c (\<lambda>_. k) s)" using n0 k(1) by (auto intro: newborn_upd)
  then have n1: "newborn c s1" by (rule newborn_fields) (simp_all add: s1_def)
  then have "newborn c s1m" by (rule newborn_fields) (simp_all add: s1m_def)
  then have n2: "newborn c s2" unfolding s2_def by (auto intro: newborn_upd)
  have n3: "newborn c s3" unfolding s3_def by (rule newborn_attach) (use n2 in \<open>auto intro: newborn_upd\<close>)
  then have "newborn c (upd_task c (\<lambda>k. k\<lparr> t_rsp := sp \<rparr>) s3)" by (auto intro: newborn_upd)
  then have n4: "newborn c s4" by (rule newborn_fields) (simp_all add: s4_def)
  have t4: "t_parent (sc_task s4 c) = Some ?p" "\<not> t_freed (sc_task s4 c)" "sc_current s4 = ?p"
    using k by (simp_all add: s4_def s3_def attach_sel attach_task s2_def s1m_def s1_def)
  have "sched_wf s5" unfolding s5_def using link_and_enqueue(1) [OF n4] t4 by simp
  moreover have "same_but_freed {} s5 (s5\<lparr> sc_threads := sc_threads s5 + 1 \<rparr>)" by (rule same_fields) simp_all
  ultimately have ok: "sched_wf (s5\<lparr> sc_threads := sc_threads s5 + 1 \<rparr>)" using same_sched by blast
  have d: "sched_wf (sched_destroy_task_resources c False False True s1)"
    "sched_wf (sched_destroy_task_resources c False False True s2)"
    "sched_wf (sched_destroy_task_resources c False False True s3)"
    using n1 n2 n3 by (auto intro: newborn_destroy)
  show ?thesis
    using False ok d unfolding sched_thread_create_def Let_def c option.case k_def [symmetric] s1_def [symmetric]
      s1m_def [symmetric] s2_def [symmetric] s3_def [symmetric] pw prod.case s4_def [symmetric] s5_def [symmetric]
    by simp
qed

section \<open>The scheduler as a transition system\<close>

datatype sched_op =
    Tick | Yield | Preempt | Sleep u64 | SleepMs u64 | Block | Unblock nat | Exit int | Waitpid int u32
  | Kill u64 u32 | KillTask u64 | Nice nat int | Affinity nat u64 | Hint nat u8 | DrainReaps
  | Spawn string u64 u64 nat task_alloc | Fork u64 task_alloc
  | Thread "string option" u64 u64 u64 u64 task_alloc

text \<open>\<open>Block\<close> is what \<^verbatim>\<open>wq_sleep\<close> does to the scheduler: mark the current task blocked, then yield.\<close>

fun sched_step :: "sched_op \<Rightarrow> sched \<Rightarrow> sched" where
  "sched_step Tick s = sched_tick s"
| "sched_step Yield s = sched_yield s"
| "sched_step Preempt s = sched_maybe_preempt s"
| "sched_step (Sleep d) s = sched_sleep_until d s"
| "sched_step (SleepMs ms) s = task_sleep_ms ms s"
| "sched_step Block s = sched_yield (upd_task (sc_current s) (\<lambda>k. k\<lparr> t_state := TASK_BLOCKED \<rparr>) s)"
| "sched_step (Unblock t) s = sched_unblock t s"
| "sched_step (Exit code) s = sched_exit_current code s"
| "sched_step (Waitpid pid opts) s = snd (sched_waitpid pid opts s)"
| "sched_step (Kill pid sig) s = snd (sys_kill pid sig s)"
| "sched_step (KillTask pid) s = sched_kill_task pid s"
| "sched_step (Nice t n) s = sched_set_nice t n s"
| "sched_step (Affinity t m) s = sched_set_affinity t m s"
| "sched_step (Hint t h) s = sched_set_ai_hint t h s"
| "sched_step DrainReaps s = sched_drain_deferred_reaps s"
| "sched_step (Spawn name entry arg prio al) s = snd (sched_spawn name entry arg prio al s)"
| "sched_step (Fork r al) s = snd (sys_fork r al s)"
| "sched_step (Thread name entry utop arg tls al) s = snd (sched_thread_create name entry utop arg tls al s)"

text \<open>
  When an operation may happen.  A blocking call is made by a running task while another task is ready on
  the CPU; a wait queue wakes a task that is blocked on it; the allocator hands out task objects that are
  not in use; no stop signal is pending on a task that has already exited.
\<close>

fun op_ok :: "sched_op \<Rightarrow> sched \<Rightarrow> bool" where
  "op_ok Tick s \<longleftrightarrow> (t_state (sc_task s (sc_current s)) = TASK_DEAD \<longrightarrow>
     \<not> bit (t_signals (sc_task s (sc_current s))) SIGSTOP)"
| "op_ok (Sleep d) s \<longleftrightarrow> t_state (sc_task s (sc_current s)) = TASK_RUNNING \<and> queued 0 s \<noteq> []"
| "op_ok (SleepMs ms) s \<longleftrightarrow> t_state (sc_task s (sc_current s)) = TASK_RUNNING \<and> queued 0 s \<noteq> []"
| "op_ok Block s \<longleftrightarrow> t_state (sc_task s (sc_current s)) = TASK_RUNNING \<and> sc_enabled s \<and> queued 0 s \<noteq> []"
| "op_ok (Waitpid pid opts) s \<longleftrightarrow> t_state (sc_task s (sc_current s)) = TASK_RUNNING \<and> queued 0 s \<noteq> []"
| "op_ok (Unblock t) s \<longleftrightarrow> t_state (sc_task s t) = TASK_BLOCKED \<and> t \<notin> set (sc_sleep s) \<and> \<not> t_freed (sc_task s t)"
| "op_ok (Spawn name entry arg prio al) s \<longleftrightarrow> (case al_task al of None \<Rightarrow> True | Some t \<Rightarrow> t_freed (sc_task s t))"
| "op_ok (Fork r al) s \<longleftrightarrow> (case al_task al of None \<Rightarrow> True | Some t \<Rightarrow> t_freed (sc_task s t))"
| "op_ok (Thread name entry utop arg tls al) s \<longleftrightarrow>
     (case al_task al of None \<Rightarrow> True | Some t \<Rightarrow> t_freed (sc_task s t))"
| "op_ok _ s \<longleftrightarrow> True"

text \<open>The zeroed statics of the kernel image: no task object is in use.\<close>

definition sched_blank :: "sched \<Rightarrow> bool" where
  "sched_blank s \<longleftrightarrow> sc_sleep s = [] \<and> sc_reap s = [] \<and> (\<forall>c. queued c s = []) \<and>
     (\<forall>t. t_freed (sc_task s t) \<and> t_children (sc_task s t) = [])"

inductive sched_reachable :: "sched \<Rightarrow> bool" where
  boot: "sched_blank s \<Longrightarrow> sched_reachable (sched_init (Some b) fpu s)"
| step: "sched_reachable s \<Longrightarrow> op_ok a s \<Longrightarrow> sched_reachable (sched_step a s)"
| enable: "sched_reachable s \<Longrightarrow> sched_reachable (sched_enable s)"

lemma init_wf:
  assumes "sched_blank s"
  shows "sched_wf (sched_init (Some b) fpu s)"
proof -
  let ?s = "sched_init (Some b) fpu s"
  have "queued c ?s = []" for c
    using assms by (simp add: sched_init_def Let_def queued_def sched_blank_def zero_rq_def)
  moreover have "sc_sleep ?s = []" "sc_reap ?s = []" "sc_current ?s = b"
    using assms by (simp_all add: sched_init_def Let_def sched_blank_def)
  moreover have "t_children (sc_task ?s u) = []" for u
    using assms by (simp add: sched_init_def Let_def sched_blank_def upd_task_def zero_task_def)
  moreover have "\<not> t_freed (sc_task ?s b)" "t_state (sc_task ?s b) = TASK_RUNNING"
    by (simp_all add: sched_init_def Let_def upd_task_def zero_task_def)
  ultimately show ?thesis by (simp add: sched_wf_def wf_defs)
qed

lemma signal_same: "same_but_freed {} s (snd (sys_kill pid sig s))"
  by (auto simp: sys_kill_def same_refl split: option.split intro: same_upd_task)

lemma kill_queue_same:
  "same_but_freed {} s (fold (\<lambda>t s. if t_id (sc_task s t) = pid
      then upd_task t (\<lambda>k. k\<lparr> t_signals := set_bit SIGKILL (t_signals k) \<rparr>) s else s) ts s)"
proof (induction ts arbitrary: s)
  case (Cons t ts)
  show ?case
    by (simp, intro conjI impI) (rule same_trans [OF same_upd_task Cons.IH], simp, rule Cons.IH)
qed (simp add: same_refl)

lemma kill_task_same: "same_but_freed {} s (sched_kill_task pid s)"
proof -
  define body where "body = (\<lambda>cpu s.
        let s1 = (case sc_active s cpu of
              Some a \<Rightarrow> if t_id (sc_task s a) = pid
                then upd_task a (\<lambda>k. k\<lparr> t_signals := set_bit SIGKILL (t_signals k), t_need_resched := True \<rparr>) s
                else s
            | None \<Rightarrow> s)
        in fold (\<lambda>t s. if t_id (sc_task s t) = pid
                  then upd_task t (\<lambda>k. k\<lparr> t_signals := set_bit SIGKILL (t_signals k) \<rparr>) s else s)
             (rq_tasks (sc_rq s1 cpu)) s1)"
  have one: "same_but_freed {} s (body cpu s)" for cpu s
    unfolding body_def Let_def
    by (rule same_trans [OF _ kill_queue_same]) (auto simp: same_refl split: option.split intro: same_upd_task)
  have "same_but_freed {} s (fold body cs s)" for cs
  proof (induction cs arbitrary: s)
    case (Cons c cs)
    then show ?case using same_trans [OF one Cons.IH] by simp
  qed (simp add: same_refl)
  then show ?thesis by (simp add: sched_kill_task_def same_refl body_def)
qed

lemma waitpid_wf:
  assumes "sched_wf s" "t_state (sc_task s (sc_current s)) = TASK_RUNNING" "queued 0 s \<noteq> []"
  shows "sched_wf (snd (sched_waitpid pid opts s))"
proof -
  obtain r s1 where p: "waitpid_pass pid s = (r, s1)" by (cases "waitpid_pass pid s")
  note w = waitpid_pass_wf [OF assms(1) p]
  show ?thesis
    using w task_sleep_wf [OF assms] p by (cases r) (auto simp: sched_waitpid_def)
qed

lemma step_wf:
  assumes "sched_wf s" "op_ok a s"
  shows "sched_wf (sched_step a s)"
proof (cases a)
  case Tick
  then show ?thesis using assms tick_wf by simp
next
  case Block
  let ?s = "upd_task (sc_current s) (\<lambda>k. k\<lparr> t_state := TASK_BLOCKED \<rparr>) s"
  have w: "rq_wf s" "sleep_wf s" "reap_wf [] s" "child_wf s" "\<not> t_freed (sc_task s (sc_current s))"
    and run: "t_state (sc_task s (sc_current s)) = TASK_RUNNING"
    using assms Block by (simp_all add: sched_wf_def current_wf_def)
  note nl = cur_not_listed [OF assms(1)]
  have nr: "sc_current s \<notin> set (sc_reap s)" using not_reaped [OF w(3)] run by simp
  have "rq_wf ?s" by (rule rq_wf_frame [of s]) (use w nl in auto)
  moreover have "sleep_wf ?s" by (rule sleep_wf_frame [of s]) (use w nl in auto)
  moreover have "reap_wf [] ?s" by (rule reap_wf_frame [of _ s]) (use w nr in auto)
  moreover have "child_wf ?s" by (rule child_wf_frame [of s]) (use w in auto)
  ultimately have "base_wf [] ?s" using w(5) by (simp add: base_wf_def)
  then show ?thesis using assms Block nl by (auto intro: yield_wf)
next
  case DrainReaps
  then show ?thesis
    using assms(1) reap_deferred_base [of s]
    by (auto simp: sched_drain_deferred_reaps_def sched_wf_base steady_def)
next
  case (Nice t n)
  have "same_but_freed {} s (sched_set_nice t n s)"
    unfolding sched_set_nice_def Let_def by (rule same_upd_task) simp
  then show ?thesis using Nice assms(1) same_sched by simp
next
  case (Affinity t m)
  have "same_but_freed {} s (sched_set_affinity t m s)"
    unfolding sched_set_affinity_def by (rule same_upd_task) simp
  then show ?thesis using Affinity assms(1) same_sched by simp
next
  case (Hint t m)
  have "same_but_freed {} s (sched_set_ai_hint t m s)"
    unfolding sched_set_ai_hint_def by (rule same_upd_task) simp
  then show ?thesis using Hint assms(1) same_sched by simp
qed (use assms in \<open>auto intro: yield_sched_wf preempt_wf sleep_wf_step task_sleep_wf unblock_wf exit_wf(1)
      waitpid_wf same_sched [OF signal_same] same_sched [OF kill_task_same] spawn_wf fork_wf thread_wf\<close>)

lemma sched_reachable_wf: "sched_reachable s \<Longrightarrow> sched_wf s"
proof (induction rule: sched_reachable.induct)
  case (enable s)
  have "same_but_freed {} s (sched_enable s)" by (rule same_fields) (simp_all add: sched_enable_def)
  then show ?case using enable same_sched by blast
qed (auto intro: init_wf step_wf)

end
