(* ===== verification/Sched_Props.thy ===== *)
theory Sched_Props
  imports Sched_Reach
begin

text \<open>
  The scheduler's properties: its invariant on every state reachable from \<^verbatim>\<open>sched_init\<close>, the order in
  which tasks run, waking of sleepers, the exit and wait round trip, the stack frame of a forked child and
  the bounds of weights and slices.
\<close>

section \<open>Lemmas\<close>

lemma unblock_queues:
  assumes "base_wf [] s" "t_state (sc_task s t) = TASK_BLOCKED" "\<And>c. length (queued c s) < RQ_SIZE"
  shows "\<exists>c. t \<in> set (queued c (sched_unblock t s))" "u \<in> set (queued c s) \<Longrightarrow> u \<in> set (queued c (sched_unblock t s))"
    "length (queued c (sched_unblock t s)) \<le> Suc (length (queued c s))"
proof -
  define cpu where "cpu = sched_pick_cpu_for_task t s"
  define s1 where "s1 = upd_task t (\<lambda>k. k\<lparr> t_cpu := cpu \<rparr>) s"
  have sm: "same_but_freed {} s s1" unfolding s1_def by (rule same_upd_task) simp
  have b: "rq_wf s1" using same_base [OF sm assms(1)] by (simp add: base_wf_def)
  have u: "sched_unblock t s = rq_insert cpu t s1"
    using assms(2) by (simp add: sched_unblock_def Let_def cpu_def s1_def)
  have q: "queued cpu (rq_insert cpu t s1) = insort_key (\<lambda>x. t_vruntime (sc_task s1 x)) t (queued cpu s)"
    using rq_insert_queued [OF b, of cpu t] assms(3) by (simp add: s1_def)
  then have "t \<in> set (queued cpu (sched_unblock t s))" by (simp add: u set_insort_key)
  then show "\<exists>c. t \<in> set (queued c (sched_unblock t s))" by blast
  show "u \<in> set (queued c s) \<Longrightarrow> u \<in> set (queued c (sched_unblock t s))"
    "length (queued c (sched_unblock t s)) \<le> Suc (length (queued c s))"
    by (cases "c = cpu"; simp add: u q set_insort_key rq_insert_sel; simp add: s1_def)+
qed

lemma wake_fold_queues:
  assumes "base_wf [] s" "distinct ts"
    "\<And>t. t \<in> set ts \<Longrightarrow> t_state (sc_task s t) = TASK_BLOCKED \<and> \<not> t_freed (sc_task s t) \<and>
       t \<notin> set (sc_sleep s) \<and> t \<notin> set (sc_reap s)"
    "\<And>c. length (queued c s) + length ts \<le> RQ_SIZE"
  shows "(\<forall>t \<in> set ts. \<exists>c. t \<in> set (queued c (fold sched_unblock ts s))) \<and>
    (\<forall>c u. u \<in> set (queued c s) \<longrightarrow> u \<in> set (queued c (fold sched_unblock ts s)))"
  using assms
proof (induction ts arbitrary: s)
  case (Cons t ts)
  let ?s = "sched_unblock t s"
  have r: "rq_wf s" using Cons.prems(1) by (simp add: base_wf_def)
  have room: "length (queued c s) < RQ_SIZE" for c using Cons.prems(4) [of c] by simp
  note q = unblock_queues [OF Cons.prems(1) _ room, of t]
  have b: "base_wf [] ?s"
    using unblock_base(1) [OF Cons.prems(1)] Cons.prems(3) [of t] not_queued [OF r, of t] by simp
  have "(\<forall>t \<in> set ts. \<exists>c. t \<in> set (queued c (fold sched_unblock ts ?s))) \<and>
    (\<forall>c u. u \<in> set (queued c ?s) \<longrightarrow> u \<in> set (queued c (fold sched_unblock ts ?s)))"
  proof (rule Cons.IH [OF b])
    show "distinct ts" using Cons.prems(2) by simp
    fix u assume u: "u \<in> set ts"
    then have "u \<noteq> t" using Cons.prems(2) by auto
    then show "t_state (sc_task ?s u) = TASK_BLOCKED \<and> \<not> t_freed (sc_task ?s u) \<and>
       u \<notin> set (sc_sleep ?s) \<and> u \<notin> set (sc_reap ?s)"
      using Cons.prems(3) [of u] u by (simp add: unblock_frame)
  next
    fix c
    show "length (queued c ?s) + length ts \<le> RQ_SIZE"
      using q(3) [of c] Cons.prems(3) [of t] Cons.prems(4) [of c] by simp
  qed
  then show ?case using q(1,2) Cons.prems(3) [of t] by simp blast
qed simp

lemma queue_reap_lists [simp]:
  "sc_rq (sched_queue_deferred_reap t s) = sc_rq s" "sc_sleep (sched_queue_deferred_reap t s) = sc_sleep s"
  by (simp_all add: sched_queue_deferred_reap_def)

lemma drop_count_lists [simp]:
  "sc_rq (sched_drop_task_count t s) = sc_rq s" "sc_sleep (sched_drop_task_count t s) = sc_sleep s"
  by (simp_all add: sched_drop_task_count_def Let_def)

lemma orphan_child_lists [simp]:
  "sc_rq (orphan_child c s) = sc_rq s" "sc_sleep (orphan_child c s) = sc_sleep s"
  by (simp_all add: orphan_child_def Let_def)

lemma orphan_fold_lists [simp]:
  "sc_rq (fold orphan_child cs s) = sc_rq s" "sc_sleep (fold orphan_child cs s) = sc_sleep s"
  by (induction cs arbitrary: s) simp_all

lemma exit_lists [simp]:
  "sc_rq (sched_exit_current code s) = sc_rq s" "sc_sleep (sched_exit_current code s) = sc_sleep s"
  by (simp_all add: sched_exit_current_def sched_orphan_children_def Let_def)

lemma tick_lists:
  "sc_rq (sched_tick s) = sc_rq (wake_sleepers (sc_cpu_ticks s + 1) (account_tick (s\<lparr> sc_cpu_ticks := sc_cpu_ticks s + 1 \<rparr>)))"
  "sc_sleep (sched_tick s) = sc_sleep (wake_sleepers (sc_cpu_ticks s + 1) (account_tick (s\<lparr> sc_cpu_ticks := sc_cpu_ticks s + 1 \<rparr>)))"
  by (simp_all add: sched_tick_def Let_def tick_signals_def account_tick_def)

text \<open>Detaching children changes nobody's identifier, exit status or list of children.\<close>

lemma orphan_child_keeps [simp]:
  "t_id (sc_task (orphan_child c s) u) = t_id (sc_task s u)"
  "t_exit_code (sc_task (orphan_child c s) u) = t_exit_code (sc_task s u)"
  "t_children (sc_task (orphan_child c s) u) = t_children (sc_task s u)"
  by (simp_all add: orphan_child_def Let_def sched_drop_task_count_def sched_queue_deferred_reap_def upd_task_def)

lemma orphan_fold_keeps [simp]:
  "t_id (sc_task (fold orphan_child cs s) u) = t_id (sc_task s u)"
  "t_exit_code (sc_task (fold orphan_child cs s) u) = t_exit_code (sc_task s u)"
  "t_children (sc_task (fold orphan_child cs s) u) = t_children (sc_task s u)"
  by (induction cs arbitrary: s) simp_all

lemma orphan_children_keeps:
  "t_id (sc_task (sched_orphan_children p s) u) = t_id (sc_task s u)"
  "t_exit_code (sc_task (sched_orphan_children p s) u) = t_exit_code (sc_task s u)"
  "u \<noteq> p \<Longrightarrow> t_children (sc_task (sched_orphan_children p s) u) = t_children (sc_task s u)"
  by (simp_all add: sched_orphan_children_def Let_def)

lemma exit_keeps:
  fixes s :: sched and code :: int
  assumes "sched_wf s" "t_parent (sc_task s (sc_current s)) = Some p"
  defines "s' \<equiv> sched_exit_current code s" and "c \<equiv> sc_current s"
  shows "t_id (sc_task s' u) = t_id (sc_task s u)" "t_exit_code (sc_task s' c) = code"
    "u \<noteq> c \<Longrightarrow> t_children (sc_task s' u) = t_children (sc_task s u)" "t_state (sc_task s' c) = TASK_ZOMBIE"
proof -
  define s1 where "s1 = upd_task c (\<lambda>k. k\<lparr> t_exit_code := code \<rparr>) s"
  have "same_but_freed {} s s1" unfolding s1_def by (rule same_upd_task) simp
  then have "base_wf [] s1" using assms(1) same_sched by (auto simp: sched_wf_base)
  moreover have c1: "sc_current s1 = c" by (simp add: s1_def c_def)
  ultimately have par: "t_parent (sc_task (sched_orphan_children c s1) c) = Some p"
    using orphan_children_base(3) [of s1] assms(2) by (simp add: s1_def c_def)
  have s': "s' = upd_task c (\<lambda>k. k\<lparr> t_state := if t_parent k \<noteq> None then TASK_ZOMBIE else TASK_DEAD \<rparr>)
      (sched_orphan_children c s1)"
    using par unfolding s'_def sched_exit_current_def Let_def c_def [symmetric] s1_def [symmetric] by simp
  show "t_id (sc_task s' u) = t_id (sc_task s u)" "t_exit_code (sc_task s' c) = code"
    "u \<noteq> c \<Longrightarrow> t_children (sc_task s' u) = t_children (sc_task s u)" "t_state (sc_task s' c) = TASK_ZOMBIE"
    unfolding s' using par by (simp_all add: orphan_children_keeps) (simp_all add: s1_def)
qed

text \<open>Stack addresses that do not wrap.\<close>

lemma word_add_below:
  fixes x y :: u64
  assumes "unat x + n < 2 ^ 64"
  shows "unat (x + of_nat n) = unat x + n"
  using assms by (simp add: unat_add_lem [THEN iffD1] unat_of_nat)

lemma pick_cpu_fold:
  assumes "\<And>d. len d < M"
    and "fold (\<lambda>cpu (bc, bn). if \<not> ok cpu then (bc, bn) else if len cpu < bn then (cpu, len cpu) else (bc, bn))
      [0..<n] (0 :: nat, M :: nat) = (b, k)"
  shows "k = M \<and> (\<forall>d<n. \<not> ok d) \<or> b < n \<and> ok b \<and> k = len b \<and> (\<forall>d<n. ok d \<longrightarrow> k \<le> len d)"
  using assms(2)
proof (induction n arbitrary: b k)
  case (Suc n)
  define r where "r = fold (\<lambda>cpu (bc, bn). if \<not> ok cpu then (bc, bn) else if len cpu < bn then (cpu, len cpu) else (bc, bn))
      [0..<n] (0 :: nat, M :: nat)"
  obtain b' k' where r: "r = (b', k')" by (cases r)
  note f = r [unfolded r_def]
  have st: "(b, k) = (if \<not> ok n then (b', k') else if len n < k' then (n, len n) else (b', k'))"
    using Suc.prems by (simp add: f)
  note ih = Suc.IH [OF f]
  show ?case
  proof (cases "ok n \<and> len n < k'")
    case True
    then have "b = n" "k = len n" using st by auto
    then show ?thesis using True ih by (auto simp: less_Suc_eq)
  next
    case False
    then have "b = b'" "k = k'" using st by (auto split: if_splits)
    then show ?thesis using False ih assms(1) [of n] by (auto simp: less_Suc_eq)
  qed
qed simp

lemma weight_idx: "weight_for_nice k = nice_to_weight ! nat (min 39 (max 0 (k + 20)))"
proof -
  have "(if (if k + 20 < 0 then 0 else k + 20) \<ge> 40 then 39 else if k + 20 < 0 then 0 else k + 20) = min 39 (max 0 (k + 20))"
    unfolding min_def max_def by presburger
  then show ?thesis unfolding weight_for_nice_def Let_def by (rule arg_cong)
qed

lemma nice_len: "length nice_to_weight = 40"
  by (simp add: nice_to_weight_def)

lemma nice_range: "\<forall>w \<in> set nice_to_weight. 15 \<le> w \<and> w \<le> 88761"
  by (simp add: nice_to_weight_def)

lemma nice_sorted: "sorted_wrt (\<lambda>a b. b \<le> a) nice_to_weight"
  by (simp add: nice_to_weight_def)

lemma weight_range: "15 \<le> weight_for_nice n" "weight_for_nice n \<le> 88761"
proof -
  have "weight_for_nice n \<in> set nice_to_weight"
    unfolding weight_idx by (rule nth_mem) (simp add: nice_len)
  then show "15 \<le> weight_for_nice n" "weight_for_nice n \<le> 88761" using nice_range by blast+
qed

lemma weight_antimono:
  assumes "n \<le> m"
  shows "weight_for_nice m \<le> weight_for_nice n"
proof -
  define i j where "i = nat (min 39 (max 0 (n + 20)))" and "j = nat (min 39 (max 0 (m + 20)))"
  have "i \<le> j" "j < length nice_to_weight" using assms by (auto simp: nice_len i_def j_def)
  then have "nice_to_weight ! j \<le> nice_to_weight ! i"
    using sorted_wrt_nth_less [OF nice_sorted, of i j] by (cases "i = j") simp_all
  then show ?thesis by (simp only: weight_idx i_def j_def)
qed

section \<open>Concrete states\<close>

definition blank_sched :: sched where
  "blank_sched = \<lparr> sc_task = \<lambda>t. zero_task\<lparr> t_freed := True \<rparr>, sc_rq = \<lambda>c. zero_rq, sc_active = \<lambda>c. None,
     sc_sleep = [], sc_reap = [], sc_current = 0, sc_idle = 0, sc_cpu_ticks = 0, sc_idle_ticks = 0,
     sc_sched_cpus = 1, sc_enabled = False, sc_next_id = 1, sc_total = 0, sc_created = 0, sc_forked = 0,
     sc_threads = 0, sc_orphans = 0, sc_reaped = 0, sc_detached_reaped = 0, sc_vma_destroyed = 0,
     sc_pml4_destroyed = 0, sc_fds_closed = 0, sc_stacks_freed = 0, sc_nodes_destroyed = 0,
     sc_objects_freed = 0, sc_graph = graph_zero, sc_mem = \<lambda>a. 0,
     sc_image = \<lparr> addr_task_trampoline = 0x100, addr_fork_trampoline = 0x200, addr_user_thread_stub = 0x300 \<rparr> \<rparr>"

definition demo_alloc :: task_alloc where
  "demo_alloc = \<lparr> al_task = Some 5, al_stack = 0x10000, al_fpu = 0x2000, al_pml4 = 0, al_vmas = Some 0 \<rparr>"

definition demo_boot :: sched where
  "demo_boot = sched_enable (sched_init (Some 0) 0x1000 blank_sched)"

definition demo_spawned :: sched where
  "demo_spawned = sched_step (Spawn ''a'' 0x500 7 1 demo_alloc) demo_boot"

lemma demo_boot_reachable: "sched_reachable demo_boot"
  unfolding demo_boot_def
  by (intro sched_reachable.enable sched_reachable.boot)
    (simp add: sched_blank_def blank_sched_def zero_task_def queued_def zero_rq_def)

lemmas sched_eval = upd_task_def upd_rq_def Let_def blank_sched_def zero_task_def zero_rq_def sched_enable_def
  sched_init_def

lemma boot_eval:
  "sc_current demo_boot = 0" "sc_rq demo_boot c = zero_rq" "sc_sleep demo_boot = []" "sc_enabled demo_boot"
  "sc_cpu_ticks demo_boot = 0" "sc_sched_cpus demo_boot = 1" "sc_next_id demo_boot = 1"
  "sc_graph demo_boot = graph_zero" "sc_reap demo_boot = []"
  "t_state (sc_task demo_boot 0) = TASK_RUNNING" "t_children (sc_task demo_boot 0) = []"
  "t_freed (sc_task demo_boot 5)" "t_signals (sc_task demo_boot 0) = 0"
  by (simp_all add: demo_boot_def sched_eval)

lemma demo_spawned_reachable: "sched_reachable demo_spawned"
  unfolding demo_spawned_def
  by (rule sched_reachable.step [OF demo_boot_reachable]) (simp add: demo_alloc_def boot_eval)

text \<open>A spawn for which every allocation succeeds, on a machine with one schedulable CPU.\<close>

lemma attach_ok:
  assumes "next_node_id (sc_graph s) < YAMGRAPH_MAX_NODES"
  shows "sc_task (attach_node t s) u = (if u = t then (sc_task s t)\<lparr> t_graph_node := of_nat (next_node_id (sc_graph s)) \<rparr> else sc_task s u)"
    "sc_rq (attach_node t s) = sc_rq s" "sc_sleep (attach_node t s) = sc_sleep s"
    "sc_enabled (attach_node t s) = sc_enabled s" "sc_cpu_ticks (attach_node t s) = sc_cpu_ticks s"
    "sc_sched_cpus (attach_node t s) = sc_sched_cpus s" "sc_reap (attach_node t s) = sc_reap s"
proof -
  have e: "attach_node t s = upd_task t (\<lambda>k. k\<lparr> t_graph_node := ucast (of_nat (next_node_id (sc_graph s)) :: u64) \<rparr>)
      (s\<lparr> sc_graph := snd (yamgraph_node_create YAM_NODE_TASK (Some (t_name (sc_task s t))) (Data_ptr (of_nat t)) (sc_graph s)) \<rparr>)"
    using assms by (simp add: attach_node_def yamgraph_node_create_def Let_def)
  have "(ucast (of_nat (next_node_id (sc_graph s)) :: u64) :: u32) = of_nat (next_node_id (sc_graph s))"
    using assms by (simp add: word_unat_eq_iff unsigned_ucast_eq take_bit_nat_eq_self unat_of_nat_lt YAMGRAPH_MAX_NODES_def)
  then show "sc_task (attach_node t s) u = (if u = t then (sc_task s t)\<lparr> t_graph_node := of_nat (next_node_id (sc_graph s)) \<rparr> else sc_task s u)"
    "sc_rq (attach_node t s) = sc_rq s" "sc_sleep (attach_node t s) = sc_sleep s"
    "sc_enabled (attach_node t s) = sc_enabled s" "sc_cpu_ticks (attach_node t s) = sc_cpu_ticks s"
    "sc_sched_cpus (attach_node t s) = sc_sched_cpus s" "sc_reap (attach_node t s) = sc_reap s"
    unfolding e by simp_all
qed

lemma rq_search_empty: "rq_search vr ts v 0 0 = 0"
  by (subst rq_search.simps) simp

lemma queued_fields:
  "queued c (s\<lparr> sc_total := x, sc_created := y \<rparr>) = queued c s" "queued c (s\<lparr> sc_reap := r \<rparr>) = queued c s"
  by (simp_all add: queued_def)

lemma rq_insert_ticks: "sc_cpu_ticks (rq_insert cpu t s) = sc_cpu_ticks s"
  by (simp add: rq_insert_def Let_def upd_rq_def)

lemma spawn_ok:
  fixes name :: string and entry arg :: u64 and prio :: nat
  assumes "al_task al = Some t" "al_stack al \<noteq> 0" "al_fpu al \<noteq> 0" "t \<noteq> sc_current s"
    "next_node_id (sc_graph s) < YAMGRAPH_MAX_NODES" "t_children (sc_task s (sc_current s)) = []"
    "sc_sched_cpus s = 1" "queued 0 s = []"
  defines "s' \<equiv> sched_step (Spawn name entry arg prio al) s"
  shows "queued 0 s' = [t]" "sc_current s' = sc_current s" "sc_sleep s' = sc_sleep s" "sc_enabled s' = sc_enabled s"
    "sc_cpu_ticks s' = sc_cpu_ticks s" "t_state (sc_task s' (sc_current s)) = t_state (sc_task s (sc_current s))"
    "t_children (sc_task s' (sc_current s)) = [t]" "t_id (sc_task s' t) = sc_next_id s"
    "t_signals (sc_task s' (sc_current s)) = t_signals (sc_task s (sc_current s))"
    "t_freed (sc_task s' t) = False" "t_affinity (sc_task s' t) = - 1" "sc_reap s' = sc_reap s"
    "sc_sched_cpus s' = 1" "c \<noteq> 0 \<Longrightarrow> queued c s' = queued c s"
proof -
  let ?p = "sc_current s"
  define k where "k = zero_task\<lparr> t_graph_node := GRAPH_NODE_INVALID, t_id := sc_next_id s,
                      t_prio := if prio < SCHED_PRIO_LEVELS then prio else SCHED_PRIO_LEVELS - 1,
                      t_weight := weight_for_nice 0, t_affinity := - 1, t_entry := entry, t_arg := arg,
                      t_parent := Some ?p, t_start_tick := sc_cpu_ticks s, t_brk_start := 0x400000,
                      t_brk := 0x400000, t_name := take 23 name,
                      t_cwd := if t_cwd (sc_task s ?p) \<noteq> [] then take 255 (t_cwd (sc_task s ?p))
                               else ''/'' \<rparr>"
  define s1 where "s1 = (upd_task t (\<lambda>_. k) s)\<lparr> sc_next_id := sc_next_id s + 1 \<rparr>"
  define s2 where "s2 = attach_node t s1"
  define s3 where "s3 = upd_task t (\<lambda>k. k\<lparr> t_stack := al_stack al \<rparr>) s2"
  define s4 where "s4 = upd_task t (\<lambda>k. k\<lparr> t_fpu := al_fpu al \<rparr>) s3"
  obtain sp m where pw: "push_words [entry, arg, addr_task_trampoline (sc_image s4), 0, 0, 0, 0, 0, 0, 2]
      (al_stack al + SCHED_STACK_SIZE, sc_mem s4) = (sp, m)" by (metis surj_pair)
  define s5 where "s5 = (upd_task t (\<lambda>k. k\<lparr> t_rsp := sp \<rparr>) s4)\<lparr> sc_mem := m \<rparr>"
  define s6 where "s6 = (if length (t_children (sc_task s5 ?p)) < MAX_CHILDREN then add_child ?p t s5 else s5)"
  define cpu where "cpu = sched_pick_cpu_for_task t s6"
  define s7 where "s7 = upd_task t (\<lambda>k. k\<lparr> t_cpu := cpu \<rparr>) s6"
  have g1: "next_node_id (sc_graph s1) = next_node_id (sc_graph s)" by (simp add: s1_def upd_task_def)
  note at = attach_ok [of s1 t, unfolded g1, OF assms(5), folded s2_def]
  have gn: "of_nat (next_node_id (sc_graph s)) \<noteq> GRAPH_NODE_INVALID"
  proof
    assume "of_nat (next_node_id (sc_graph s)) = GRAPH_NODE_INVALID"
    then have "unat (of_nat (next_node_id (sc_graph s)) :: u32) = unat (- 1 :: u32)" by (simp add: GRAPH_NODE_INVALID_def)
    then show False using assms(5) by (simp add: yam_consts unat_of_nat_lt unsigned_minus_1_eq_mask mask_eq_exp_minus_1)
  qed
  have n2: "t_graph_node (sc_task s2 t) \<noteq> GRAPH_NODE_INVALID" using gn by (simp add: at(1))
  have s': "s' = enqueue_new cpu t s7"
    using n2 assms(2,3) unfolding s'_def sched_step.simps sched_spawn_def Let_def assms(1) option.case k_def [symmetric]
      s1_def [symmetric] s2_def [symmetric] s3_def [symmetric] s4_def [symmetric] pw prod.case s5_def [symmetric]
      s6_def [symmetric] cpu_def [symmetric] s7_def [symmetric] by simp
  have t5: "sc_task s5 u = (if u = t then k\<lparr> t_graph_node := of_nat (next_node_id (sc_graph s)), t_stack := al_stack al,
      t_fpu := al_fpu al, t_rsp := sp \<rparr> else sc_task s u)" for u
    by (simp add: s5_def s4_def s3_def at) (simp add: s1_def)
  have l5: "sc_rq s5 = sc_rq s" "sc_sleep s5 = sc_sleep s" "sc_enabled s5 = sc_enabled s"
    "sc_cpu_ticks s5 = sc_cpu_ticks s" "sc_sched_cpus s5 = sc_sched_cpus s" "sc_current s5 = ?p"
    "sc_reap s5 = sc_reap s"
    by (simp_all add: s5_def s4_def s3_def at) (simp_all add: s1_def s2_def attach_sel)
  have s6: "s6 = add_child ?p t s5" using assms(4,6) t5 by (simp add: s6_def MAX_CHILDREN_def)
  have cpu0: "cpu = 0"
    using assms(7) l5(5) by (simp add: cpu_def s6 add_child_def sched_pick_cpu_for_task_def sched_cpu_limit_def SCHED_MAX_CPUS_def)
  have k: "t_children k = []" "t_id k = sc_next_id s" "\<not> t_freed k" "t_affinity k = - 1" by (simp_all add: k_def zero_task_def)
  define s8 where "s8 = upd_task t (\<lambda>k. k\<lparr> t_vruntime := rq_min_vruntime (sc_rq s7 0) \<rparr>) s7"
  have q8: "rq_tasks (sc_rq s8 0) = []" using assms(8) l5(1) by (simp add: s8_def s7_def s6 add_child_def queued_def)
  define s9 where "s9 = upd_task t (\<lambda>k. k\<lparr> t_accounted := True \<rparr>) (rq_insert 0 t s8)"
  have e: "s' = s9\<lparr> sc_total := sc_total s9 + 1, sc_created := sc_created s9 + 1 \<rparr>"
    unfolding s' cpu0 enqueue_new_def Let_def s8_def [symmetric] s9_def [symmetric] ..
  have q: "rq_tasks (sc_rq (rq_insert 0 t s8) 0) = [t]"
    using q8 by (simp add: rq_insert_def RQ_SIZE_def upd_rq_def Let_def rq_insert_queue_def rq_search_empty)
  then show "queued 0 s' = [t]" unfolding e by (simp add: queued_def s9_def)
  show "sc_current s' = ?p" "sc_sleep s' = sc_sleep s" "sc_enabled s' = sc_enabled s" "sc_cpu_ticks s' = sc_cpu_ticks s"
    "sc_reap s' = sc_reap s" "sc_sched_cpus s' = 1" "c \<noteq> 0 \<Longrightarrow> queued c s' = queued c s"
    unfolding e using l5 assms(7)
    by (simp_all add: s9_def rq_insert_sel rq_insert_ticks queued_fields)
      (simp_all add: s8_def s7_def s6 add_child_def queued_def)
  have tk: "sc_task s' u = (if u = t then (sc_task s8 t)\<lparr> t_state := TASK_READY, t_accounted := True \<rparr> else sc_task s8 u)" for u
    unfolding e using q8 by (simp add: s9_def rq_insert_sel queued_def RQ_SIZE_def)
  show "t_state (sc_task s' ?p) = t_state (sc_task s ?p)" "t_children (sc_task s' ?p) = [t]" "t_id (sc_task s' t) = sc_next_id s"
    "t_signals (sc_task s' ?p) = t_signals (sc_task s ?p)" "t_freed (sc_task s' t) = False" "t_affinity (sc_task s' t) = - 1"
    using assms(4,6) k by (simp_all add: tk s8_def s7_def s6 add_child_def t5)
qed

lemma spawn_eval:
  "queued 0 demo_spawned = [5]" "sc_current demo_spawned = 0" "sc_sleep demo_spawned = []" "sc_enabled demo_spawned"
  "sc_cpu_ticks demo_spawned = 0" "t_state (sc_task demo_spawned 0) = TASK_RUNNING"
  "t_children (sc_task demo_spawned 0) = [5]" "t_id (sc_task demo_spawned 5) = 1"
  "t_signals (sc_task demo_spawned 0) = 0" "sc_reap demo_spawned = []" "sc_sched_cpus demo_spawned = 1"
  "t_affinity (sc_task demo_spawned 5) = - 1" "c \<noteq> 0 \<Longrightarrow> queued c demo_spawned = []"
proof -
  have "al_task demo_alloc = Some 5" "al_stack demo_alloc \<noteq> 0" "al_fpu demo_alloc \<noteq> 0" "5 \<noteq> sc_current demo_boot"
    "next_node_id (sc_graph demo_boot) < YAMGRAPH_MAX_NODES" "t_children (sc_task demo_boot (sc_current demo_boot)) = []"
    "sc_sched_cpus demo_boot = 1" "queued 0 demo_boot = []"
    by (simp_all add: demo_alloc_def boot_eval queued_def zero_rq_def graph_zero_def YAMGRAPH_MAX_NODES_def)
  note sp = spawn_ok [OF this, where name = "''a''" and entry = "0x500" and arg = 7 and prio = 1, folded demo_spawned_def]
  show "queued 0 demo_spawned = [5]" "sc_current demo_spawned = 0" "sc_sleep demo_spawned = []" "sc_enabled demo_spawned"
    "sc_cpu_ticks demo_spawned = 0" "t_state (sc_task demo_spawned 0) = TASK_RUNNING"
    "t_children (sc_task demo_spawned 0) = [5]" "t_id (sc_task demo_spawned 5) = 1"
    "t_signals (sc_task demo_spawned 0) = 0" "sc_reap demo_spawned = []" "sc_sched_cpus demo_spawned = 1"
    "t_affinity (sc_task demo_spawned 5) = - 1" "c \<noteq> 0 \<Longrightarrow> queued c demo_spawned = []"
    using sp by (simp_all only: boot_eval simp_thms) (simp add: queued_def boot_eval zero_rq_def)
qed

definition demo_asleep :: sched where
  "demo_asleep = sched_step (Sleep 1) demo_spawned"

lemma asleep_eval:
  "sched_reachable demo_asleep" "sc_sleep demo_asleep = [0]" "sc_current demo_asleep = 5" "queued 0 demo_asleep = []"
  "sc_cpu_ticks demo_asleep = 0" "t_wakeup (sc_task demo_asleep 0) = 1" "t_state (sc_task demo_asleep 5) = TASK_RUNNING"
  "queued c demo_asleep = (if c = 0 then [] else queued c demo_spawned)"
proof -
  show "sched_reachable demo_asleep" unfolding demo_asleep_def
    by (rule sched_reachable.step [OF demo_spawned_reachable]) (simp add: spawn_eval)
  have "rq_tasks (sc_rq demo_spawned 0) = [5]" using spawn_eval(1) by (simp add: queued_def)
  then show "sc_sleep demo_asleep = [0]" "sc_current demo_asleep = 5" "queued 0 demo_asleep = []"
    "sc_cpu_ticks demo_asleep = 0" "t_wakeup (sc_task demo_asleep 0) = 1" "t_state (sc_task demo_asleep 5) = TASK_RUNNING"
    "queued c demo_asleep = (if c = 0 then [] else queued c demo_spawned)"
    by (simp_all add: demo_asleep_def sched_sleep_until_def Let_def rq_pick_next_def rq_pick_queue_def switch_to_def
        upd_task_def upd_rq_def queued_def spawn_eval)
qed

definition demo_child :: sched where
  "demo_child = sched_step Yield demo_spawned"

lemma child_eval:
  "sched_reachable demo_child" "sc_current demo_child = 5" "t_children (sc_task demo_child 0) = [5]"
  "t_id (sc_task demo_child 5) = 1"
proof -
  show "sched_reachable demo_child" unfolding demo_child_def
    by (rule sched_reachable.step [OF demo_spawned_reachable]) simp
  define s0 where "s0 = demo_spawned\<lparr> sc_reap := [] \<rparr>"
  have r: "sched_reap_deferred_dead_tasks demo_spawned = s0"
    by (simp add: sched_reap_deferred_dead_tasks_def spawn_eval s0_def)
  have q: "rq_tasks (sc_rq s0 0) = [5]" using spawn_eval(1) by (simp add: queued_def s0_def)
  obtain s1 where p: "rq_pick_next 0 s0 = (Some 5, s1)"
    using q by (simp add: rq_pick_next_def rq_pick_queue_def)
  have "sched_wf demo_spawned" by (rule sched_reachable_wf [OF demo_spawned_reachable])
  then have "t_state (sc_task demo_spawned 5) = TASK_READY" 
    using spawn_eval(1) not_queued [of demo_spawned 5 0] by (auto simp: sched_wf_def)
  then have y: "demo_child = switch_to 5 (rq_insert 0 0 (upd_task 0 (\<lambda>k. k\<lparr> t_vol_switches := t_vol_switches k + 1,
      t_slice := 0, t_need_resched := False \<rparr>) s1))"
    using p q pick_Some(3) [OF p] spawn_eval
    by (simp add: demo_child_def sched_yield_def Let_def r) (simp add: s0_def)
  show "sc_current demo_child = 5" "t_children (sc_task demo_child 0) = [5]" "t_id (sc_task demo_child 5) = 1"
    unfolding y using pick_Some(3) [OF p] spawn_eval by (simp_all add: switch_sel rq_insert_sel s0_def)
qed

definition demo_stacks :: sched where
  "demo_stacks = (upd_task 5 (\<lambda>k. k\<lparr> t_stack := 0x20000 \<rparr>) (upd_task 0 (\<lambda>k. k\<lparr> t_stack := 0x10000 \<rparr>) blank_sched))
     \<lparr> sc_mem := copy_stack 0x20000 0x10000 (\<lambda>a. a) \<rparr>"

section \<open>Properties\<close>


text \<open>C25. The binary-search insertion is sorted insertion: on a reachable state, inserting a task into a run
queue with room leaves the list that inserting it before the first task of no smaller virtual runtime
gives.\<close>

theorem rq_insert_is_sorted_insertion:
  assumes "sched_reachable s" "length (queued cpu s) < RQ_SIZE"
  shows "queued cpu (rq_insert cpu t s) = insort_key (\<lambda>x. t_vruntime (sc_task s x)) t (queued cpu s)"
  using rq_insert_queued sched_reachable_wf [OF assms(1)] assms(2) by (simp add: sched_wf_def)
theorem rq_insert_is_sorted_insertion_witness:
  "sched_reachable demo_spawned \<and> length (queued 0 demo_spawned) < RQ_SIZE \<and>
   queued 0 (rq_insert 0 7 demo_spawned) = insort_key (\<lambda>x. t_vruntime (sc_task demo_spawned x)) 7 [5]"
proof -
  have r: "length (queued 0 demo_spawned) < RQ_SIZE" by (simp add: spawn_eval RQ_SIZE_def)
  show ?thesis
    using rq_insert_is_sorted_insertion [OF demo_spawned_reachable r, of 7] demo_spawned_reachable r
    by (simp add: spawn_eval)
qed

text \<open>Whatever tasks are inserted into an empty run queue, picking until it is empty returns each of
them exactly once, in order of virtual runtime.\<close>

theorem run_queue_order:
  "mset (run_queue.drain T (length ts) (fold (rq_insert_queue T) ts zero_rq)) = mset ts \<and>
   sorted (map (\<lambda>t. t_vruntime (T t)) (run_queue.drain T (length ts) (fold (rq_insert_queue T) ts zero_rq)))"
proof -
  have "sorted (map (\<lambda>t. t_vruntime (T t)) (rq_tasks rq)) \<Longrightarrow>
      sorted (map (\<lambda>t. t_vruntime (T t)) (rq_tasks (fold (rq_insert_queue T) ts rq))) \<and>
      mset (rq_tasks (fold (rq_insert_queue T) ts rq)) = mset ts + mset (rq_tasks rq)" for rq
  proof (induction ts arbitrary: rq)
    case (Cons t ts)
    then show ?case using run_queue.put_ordered [of T rq t] run_queue.put_elems [of T rq t] by simp
  qed simp
  from this [of zero_rq] show ?thesis
    using run_queue.drain_elems [of T "fold (rq_insert_queue T) ts zero_rq" "length ts"]
      run_queue.drain_sorted [of T "fold (rq_insert_queue T) ts zero_rq" "length ts"]
    by (simp add: zero_rq_def)
qed

text \<open>C26. A yield runs the ready task of least virtual runtime and does not lose the caller: on a reachable
state with a running current task and a non-empty queue, the task switched to is the first of the queue,
no queued task has a smaller virtual runtime, and the queue afterwards holds the others and the caller.\<close>

theorem yield_runs_minimum:
  assumes "sched_reachable s" "sc_enabled s" "t_state (sc_task s (sc_current s)) = TASK_RUNNING"
    "queued 0 s = nxt # rest"
  shows "sc_current (sched_yield s) = nxt \<and> (\<forall>u \<in> set (queued 0 s). t_vruntime (sc_task s nxt) \<le> t_vruntime (sc_task s u)) \<and>
    mset (queued 0 (sched_yield s)) = add_mset (sc_current s) (mset rest)"
proof -
  have w: "sched_wf s" by (rule sched_reachable_wf [OF assms(1)])
  define s0 where "s0 = sched_reap_deferred_dead_tasks s"
  have b0: "base_wf [] s0" and st: "steady s s0"
    using reap_deferred_base w by (simp_all add: s0_def sched_wf_base)
  have cur: "sc_current s0 = sc_current s" "t_state (sc_task s0 (sc_current s)) = TASK_RUNNING" "queued 0 s0 = nxt # rest"
    using st assms(3,4) by (simp_all add: steady_def)
  obtain s1 where p: "rq_pick_next 0 s0 = (Some nxt, s1)"
    using cur(3) by (simp add: rq_pick_next_def rq_pick_queue_def queued_def)
  note ps = pick_Some [OF p] and pb = pick_base [OF b0 p]
  define s2 where "s2 = upd_task (sc_current s) (\<lambda>k. k\<lparr> t_vol_switches := t_vol_switches k + 1,
                                t_slice := 0, t_need_resched := False \<rparr>) s1"
  have y: "sched_yield s = switch_to nxt (rq_insert 0 (sc_current s) s2)"
    using assms(2) p pb(2) ps(3) cur
    by (simp add: sched_yield_def Let_def s0_def [symmetric] s2_def)
  have "base_wf [] s2" by (rule same_base [OF _ pb(1)]) (auto simp: s2_def same_but_freed_def)
  moreover have "queued 0 s2 = rest" using ps(1) cur(3) by (simp add: s2_def)
  moreover have "length (nxt # rest) \<le> RQ_SIZE"
    using w unfolding assms(4) [symmetric] by (simp add: sched_wf_def rq_wf_def)
  ultimately have "mset (queued 0 (rq_insert 0 (sc_current s) s2)) = add_mset (sc_current s) (mset rest)"
    using rq_insert_queued [of s2 0 "sc_current s"] by (simp add: base_wf_def)
  moreover have "sorted (map (\<lambda>x. t_vruntime (sc_task s x)) (nxt # rest))"
    using w unfolding assms(4) [symmetric] by (simp add: sched_wf_def rq_wf_def)
  ultimately show ?thesis unfolding y assms(4) by (simp add: switch_sel)
qed
theorem yield_runs_minimum_witness:
  "sched_reachable demo_spawned \<and> sc_current (sched_yield demo_spawned) = 5 \<and>
   mset (queued 0 (sched_yield demo_spawned)) = {#0#}"
  using yield_runs_minimum [OF demo_spawned_reachable, of 5 "[]"] demo_spawned_reachable by (simp add: spawn_eval)

text \<open>C27. The tick wakes every sleeper whose time has come: on a reachable state with room in the run
queues, after a tick a task whose deadline is at or before the new tick count is off the sleep list, ready
and in a run queue.\<close>

theorem tick_wakes_sleepers:
  assumes "sched_reachable s" "op_ok Tick s" "\<And>c. length (queued c s) + length (sc_sleep s) \<le> RQ_SIZE"
    "t \<in> set (sc_sleep s)" "t_wakeup (sc_task s t) \<le> sc_cpu_ticks s + 1"
  shows "t \<notin> set (sc_sleep (sched_tick s)) \<and> (\<exists>c. t \<in> set (queued c (sched_tick s))) \<and>
    t_state (sc_task (sched_tick s) t) = TASK_READY"
proof -
  have w: "sched_wf s" by (rule sched_reachable_wf [OF assms(1)])
  define s1 where "s1 = s\<lparr> sc_cpu_ticks := sc_cpu_ticks s + 1 \<rparr>"
  define s2 where "s2 = account_tick s1"
  define now where "now = sc_cpu_ticks s + 1"
  have "same_but_freed {} s s1" by (rule same_fields) (simp_all add: s1_def)
  then have w1: "sched_wf s1" using w by (rule same_sched)
  note a = account_tick_wf [OF w1, folded s2_def]
  note wk = wake_wf [OF a(1), of now]
  let ?due = "filter (\<lambda>t. t_wakeup (sc_task s2 t) \<le> now) (sc_sleep s2)"
  let ?s0 = "s2\<lparr> sc_sleep := filter (\<lambda>t. \<not> t_wakeup (sc_task s2 t) \<le> now) (sc_sleep s2) \<rparr>"
  have sl: "sc_sleep s2 = sc_sleep s" and q2: "queued c s2 = queued c s" for c
    using a(4) by (simp_all add: s1_def s2_def account_tick_def queued_def Let_def)
  have "t \<noteq> sc_current s" using cur_not_listed(2) [OF w] assms(4) by auto
  then have tk: "sc_task s2 t = sc_task s t" using a(5) by (simp add: s1_def)
  have due: "t \<in> set ?due" using assms(4,5) by (simp add: sl tk now_def)
  have ws: "wake_sleepers now s2 = fold sched_unblock ?due ?s0" by (simp add: wake_sleepers_def)
  have w2: "rq_wf s2" "sleep_wf s2" "reap_wf [] s2" "child_wf s2" "current_wf s2" using a(1) by (simp_all add: sched_wf_def)
  have "\<forall>t \<in> set ?due. \<exists>c. t \<in> set (queued c (fold sched_unblock ?due ?s0))"
  proof (rule conjunct1 [OF wake_fold_queues])
    have "queued c ?s0 = queued c s2" for c by (simp add: queued_def)
    then show "base_wf [] ?s0" using w2 by (simp add: base_wf_def wf_defs)
    show "distinct ?due" using w2(2) by (simp add: sleep_wf_def)
    show "t_state (sc_task ?s0 u) = TASK_BLOCKED \<and> \<not> t_freed (sc_task ?s0 u) \<and> u \<notin> set (sc_sleep ?s0) \<and> u \<notin> set (sc_reap ?s0)"
      if "u \<in> set ?due" for u
      using that w2(2,3) by (auto simp: sleep_wf_def reap_wf_def reapable_def)
    show "length (queued c ?s0) + length ?due \<le> RQ_SIZE" for c
      using assms(3) [of c] q2 [of c] sl length_filter_le [of _ "sc_sleep s2"]
      by (simp add: queued_def) (meson add_left_mono length_filter_le order_trans)
  qed
  then obtain c where "t \<in> set (queued c (wake_sleepers now s2))" using due unfolding ws by blast
  then have "t \<in> set (queued c (sched_tick s))"
    using tick_lists(1) [of s] by (simp add: queued_def now_def s2_def s1_def)
  moreover have "t \<notin> set (sc_sleep (sched_tick s))"
    using wk(3) due tick_lists(2) [of s] by (simp add: now_def s2_def s1_def)
  moreover have "sched_wf (sched_tick s)" using step_wf [OF w assms(2)] by simp
  ultimately show ?thesis by (auto simp: sched_wf_def rq_wf_def)
qed
theorem tick_wakes_sleepers_witness:
  "sched_reachable demo_asleep \<and> 0 \<in> set (sc_sleep demo_asleep) \<and> t_state (sc_task (sched_tick demo_asleep) 0) = TASK_READY"
proof -
  have "length (queued c demo_spawned) \<le> 255" for c
    by (cases "c = 0") (simp_all add: spawn_eval)
  then have "length (queued c demo_asleep) + length (sc_sleep demo_asleep) \<le> RQ_SIZE" for c
    by (simp add: asleep_eval RQ_SIZE_def)
  from tick_wakes_sleepers [OF asleep_eval(1) _ this, of 0] show ?thesis by (simp add: asleep_eval)
qed

text \<open>C28. Exit and wait fit together: when a task with a parent exits with a code and the parent then runs
and waits for it, the wait returns the child's identifier and the code's low byte shifted into the status
word, the child leaves the list of children and its task object is released.\<close>

theorem exit_wait_roundtrip:
  assumes "sched_reachable s" "c = sc_current s" "c \<in> set (t_children (sc_task s p))" "0 < sint (t_id (sc_task s c))"
    "\<forall>d \<in> set (t_children (sc_task s p)). t_id (sc_task s d) = t_id (sc_task s c) \<longrightarrow> d = c"
    "sched_waitpid (sint (t_id (sc_task s c))) opts (switch_to p (sched_exit_current code s)) = (r, s')"
  shows "r = Some (t_id (sc_task s c), Some (code mod 256 * 256)) \<and>
    set (t_children (sc_task s' p)) = set (t_children (sc_task s p)) - {c} \<and> t_freed (sc_task s' c)"
proof -
  have w: "sched_wf s" by (rule sched_reachable_wf [OF assms(1)])
  then have cw: "t_parent (sc_task s c) = Some p" "c \<noteq> p" "distinct (t_children (sc_task s p))"
    using assms(3) by (auto simp: sched_wf_def child_wf_def)
  define s1 where "s1 = switch_to p (sched_exit_current code s)"
  let ?cs = "t_children (sc_task s p)" and ?pid = "sint (t_id (sc_task s c))"
  note e = exit_keeps [OF w cw(1) [unfolded assms(2)], folded assms(2)]
  have t1: "sc_current s1 = p" "t_children (sc_task s1 p) = ?cs" "t_id (sc_task s1 u) = t_id (sc_task s u)"
    "t_state (sc_task s1 c) = TASK_ZOMBIE" "t_exit_code (sc_task s1 c) = code" for u
    using e cw(2) by (auto simp: s1_def switch_sel)
  let ?P = "\<lambda>i. \<not> (?pid > 0 \<and> sint (t_id (sc_task s1 (?cs ! i))) \<noteq> ?pid)
               \<and> (t_state (sc_task s1 (?cs ! i)) = TASK_ZOMBIE \<or> t_state (sc_task s1 (?cs ! i)) = TASK_DEAD)"
  obtain j where j: "j < length ?cs" "?cs ! j = c" using assms(3) by (auto simp: in_set_conv_nth)
  then have "scan ?P 0 (length ?cs) \<noteq> None" using t1 by (auto simp: scan_None_iff)
  then obtain i where i: "scan ?P 0 (length ?cs) = Some i" by blast
  have "i < length ?cs" "sint (t_id (sc_task s1 (?cs ! i))) = ?pid" using scan_SomeD [OF i] assms(4) by auto
  then have ci: "?cs ! i = c" "i < length ?cs"
    using assms(5) t1(3) by (auto simp: signed_word_eqI)
  define s2 where "s2 = upd_task c (\<lambda>k. k\<lparr> t_state := TASK_DEAD \<rparr>) (sched_drop_task_count c s1)"
  define s3 where "s3 = upd_task p (\<lambda>k. k\<lparr> t_children := remove_child_at i (t_children k) \<rparr>) s2"
  define s4 where "s4 = s3\<lparr> sc_reaped := sc_reaped s3 + 1 \<rparr>"
  define owns where "owns = (t_pml4 (sc_task s2 c) \<noteq> 0 \<and> t_pml4 (sc_task s2 c) \<noteq> t_pml4 (sc_task s2 p))"
  have pass: "waitpid_pass ?pid s1 = (Some (t_id (sc_task s4 c), t_exit_code (sc_task s1 c) mod 256 * 256),
      sched_destroy_task_resources c owns True True s4)"
    unfolding waitpid_pass_def Let_def t1(1,2) i option.case ci(1)
      s2_def [symmetric] s3_def [symmetric] s4_def [symmetric] owns_def [symmetric] ..
  have id4: "t_id (sc_task s4 c) = t_id (sc_task s c)"
    using t1(3) cw(2) by (simp add: s4_def s3_def s2_def sched_drop_task_count_def Let_def upd_task_def)
  have ch4: "t_children (sc_task s4 p) = remove_child_at i ?cs"
    using t1(2) cw(2) by (simp add: s4_def s3_def s2_def sched_drop_task_count_def Let_def upd_task_def)
  have "same_but_freed {c} s4 (sched_destroy_task_resources c owns True True s4)"
    using destroy_same [of True c s4] by simp
  then show ?thesis
    using assms(6) remove_child(2) [OF ci(2) cw(3)] unfolding s1_def [symmetric]
    by (auto simp: sched_waitpid_def pass id4 t1(5) same_but_freed_def ch4 ci(1))
qed
theorem exit_wait_roundtrip_witness:
  "fst (sched_waitpid 1 0 (switch_to 0 (sched_exit_current 3 demo_child))) = Some (1, Some 768)"
proof -
  obtain r s' where w: "sched_waitpid 1 0 (switch_to 0 (sched_exit_current 3 demo_child)) = (r, s')" by (metis surj_pair)
  show ?thesis
    using exit_wait_roundtrip [OF child_eval(1), of 5 0 0 3 r s'] w by (simp add: child_eval)
qed

text \<open>C29. The bootstrap frame of a forked child lies in the child's stack, directly below the copy of the
parent's saved system-call frame, and overwrites none of it: when arming succeeds on non-wrapping stacks,
the nine words end where the child resumes, and every address from there to the top of the child's stack
still holds what the parent's stack held.\<close>

theorem fork_frame_below_snapshot:
  fixes ps cs :: u64
  assumes "ps = t_stack (sc_task s p)" "cs = t_stack (sc_task s c)" "sc_mem s = copy_stack cs ps m"
    "unat ps + 16384 < 2 ^ 64" "unat cs + 16384 < 2 ^ 64"
    "sched_fork_arm_child c p r s = (True, s')"
  shows "cs \<le> t_rsp (sc_task s' c) \<and> unat (t_rsp (sc_task s' c)) + 72 = unat cs + (unat r - unat ps) \<and>
    unat r \<le> unat ps + 16384 \<and> sc_mem s' (t_rsp (sc_task s' c) + 64) = cs + (r - ps) \<and>
    (\<forall>a. unat (t_rsp (sc_task s' c)) + 72 \<le> unat a \<and> unat a < unat cs + 16384 \<longrightarrow> sc_mem s' a = m (a - cs + ps))"
proof -
  have g: "\<not> (r < ps \<or> r > ps + SCHED_STACK_SIZE)" "\<not> r < ps + 72"
    using assms(1,2,6) by (auto simp: sched_fork_arm_child_def Let_def split: if_splits)
  have ups: "unat (ps + SCHED_STACK_SIZE) = unat ps + 16384" "unat (ps + 72) = unat ps + 72"
    using word_add_below [of ps 16384] word_add_below [of ps 72] assms(4) by (simp_all add: SCHED_STACK_SIZE_def)
  have r: "unat ps + 72 \<le> unat r" "unat r \<le> unat ps + 16384"
    using g ups by (simp_all add: word_less_nat_alt not_less)
  define d where "d = unat r - unat ps - 72"
  have d: "d \<le> 16384 - 72" using r by (simp add: d_def)
  have rd: "r = ps + of_nat (d + 72)"
    using r by (simp add: d_def word_unat_eq_iff word_add_below [of ps] assms(4) del: of_nat_add)
  let ?f = "cs + ((r - 72) - ps)"
  have f: "?f = cs + of_nat d" by (simp add: rd)
  have uf: "unat (?f + of_nat n) = unat cs + d + n" if "n \<le> 72" for n
    using word_add_below [of cs "d + n"] d that assms(5) unfolding f by (simp add: add.assoc)
  have uf0: "unat ?f = unat cs + d" using uf [of 0] by simp
  define ws where "ws = [0x202, 0, 0, 0, 0, 0, 0, addr_fork_trampoline (sc_image s), cs + (r - ps)]"
  have s': "s' = upd_task c (\<lambda>k. k\<lparr> t_rsp := ?f \<rparr>) (s\<lparr> sc_mem := store_frame ?f ws (sc_mem s) \<rparr>)"
    using assms(6) g unfolding sched_fork_arm_child_def Let_def assms(1,2) [symmetric] ws_def by simp
  have rsp: "t_rsp (sc_task s' c) = ?f" and mem: "sc_mem s' = store_frame ?f ws (sc_mem s)"
    by (simp_all add: s' upd_task_def)
  have lw: "length ws = 9" by (simp add: ws_def)
  have keep: "store_frame ?f ws mm a = mm a" if "unat ?f + 72 \<le> unat a" for a mm
  proof -
    have "a \<noteq> ?f + of_nat (8 * i)" if "i < 9" for i
      using uf [of "8 * i"] \<open>unat ?f + 72 \<le> unat a\<close> that uf0 by auto
    then have ne: "i < 9 \<Longrightarrow> a \<noteq> ?f + 8 * of_nat i" for i by (simp add: of_nat_mult)
    have "n \<le> 9 \<Longrightarrow> fold (\<lambda>i m. m(?f + 8 * of_nat i := ws ! i)) [0..<n] mm a = mm a" for n
      by (induction n) (use ne in auto)
    then show ?thesis by (simp add: store_frame_def lw)
  qed
  have "sc_mem s' (?f + 64) = ws ! 8"
    unfolding mem store_frame_def lw by (simp add: upt_rec [of _ 9] upt_conv_Cons eval_nat_numeral del: upt_Suc)
  moreover have "sc_mem s' a = m (a - cs + ps)" if "unat ?f + 72 \<le> unat a" "unat a < unat cs + 16384" for a
  proof -
    have "cs \<le> a" using that uf0 by (simp add: word_le_nat_alt)
    then have "unat (a - cs) = unat a - unat cs" by (rule unat_sub)
    then have "a - cs < SCHED_STACK_SIZE" using that by (simp add: word_less_nat_alt SCHED_STACK_SIZE_def)
    then show ?thesis unfolding mem keep [OF that(1)] assms(3) by (simp add: copy_stack_def)
  qed
  moreover have "cs \<le> ?f" using uf0 by (simp add: word_le_nat_alt)
  moreover have "unat ?f + 72 = unat cs + (unat r - unat ps)" using uf0 r by (simp add: d_def)
  ultimately show ?thesis unfolding rsp using r(2) by (auto simp: ws_def)
qed
theorem fork_frame_below_snapshot_witness:
  "t_rsp (sc_task (snd (sched_fork_arm_child 5 0 0x13000 demo_stacks)) 5) = 0x22FB8 \<and>
   sc_mem (snd (sched_fork_arm_child 5 0 0x13000 demo_stacks)) 0x23008 = 0x13008"
proof -
  have t: "t_stack (sc_task demo_stacks 0) = 0x10000" "t_stack (sc_task demo_stacks 5) = 0x20000"
    "sc_mem demo_stacks = copy_stack 0x20000 0x10000 (\<lambda>a. a)"
    by (simp_all add: demo_stacks_def upd_task_def)
  obtain s' where a: "sched_fork_arm_child 5 0 0x13000 demo_stacks = (True, s')" and r: "t_rsp (sc_task s' 5) = 0x22FB8"
    by (simp add: sched_fork_arm_child_def Let_def t SCHED_STACK_SIZE_def)
  show ?thesis
    using fork_frame_below_snapshot [OF t(1,2) [symmetric] t(3) _ _ a] r by (simp add: a)
qed

text \<open>Time slices and weights are bounded: whatever the load, nice value and hint, a slice is between 1 and
6 ticks; a weight is between 15 and 88761, never larger for a larger nice value; and a running task that is
not a batch job gains at least one unit of virtual runtime per tick.\<close>

theorem slice_and_weight_bounds:
  "1 \<le> sched_effective_slice_ticks rq t \<and> sched_effective_slice_ticks rq t \<le> 6 \<and>
   15 \<le> weight_for_nice n \<and> weight_for_nice n \<le> 88761 \<and>
   (n \<le> m \<longrightarrow> weight_for_nice m \<le> weight_for_nice n) \<and>
   0 < (1024 * 1024 :: u64) div eff_weight (t\<lparr> t_weight := weight_for_nice n \<rparr>)"
proof -
  have slice: "1 \<le> sched_effective_slice_ticks rq t" "sched_effective_slice_ticks rq t \<le> 6"
    by (auto simp: sched_effective_slice_ticks_def Let_def yam_consts)
  have u: "unat (weight_for_nice n) \<le> 88761" "weight_for_nice n \<noteq> 0"
    using weight_range [of n] by (auto simp: word_le_nat_alt)
  let ?e = "eff_weight (t\<lparr> t_weight := weight_for_nice n \<rparr>)"
  have e: "?e = ucast (weight_for_nice n)" using u(2) by (simp add: eff_weight_def)
  have ue: "unat ?e = unat (weight_for_nice n)" 
    unfolding e using u(1) by (simp add: unsigned_ucast_eq take_bit_nat_eq_self)
  have "unat ((1024 * 1024 :: u64) div ?e) = 1048576 div unat (weight_for_nice n)"
    by (simp add: unat_div ue)
  moreover have "0 < 1048576 div unat (weight_for_nice n)"
    using u by (simp add: div_greater_zero_iff word_neq_0_conv unat_gt_0)
  ultimately have "0 < (1024 * 1024 :: u64) div ?e" by (simp add: word_less_nat_alt)
  then show ?thesis using slice weight_range [of n] weight_antimono [of n m] by simp
qed
theorem slice_and_weight_bounds_witness:
  "weight_for_nice 5 \<le> weight_for_nice (- 5) \<and> sched_effective_slice_ticks zero_rq zero_task \<le> 6"
  using slice_and_weight_bounds [of zero_rq zero_task "- 5" 5] by simp

text \<open>CPU selection balances within the affinity mask: when some schedulable CPU is allowed, the chosen CPU
is schedulable and allowed, and no allowed schedulable CPU has a shorter run queue.\<close>

theorem pick_cpu_allowed_and_least:
  assumes "sched_reachable s" "d < sched_cpu_limit (sc_sched_cpus s)" "bit (t_affinity (sc_task s t)) d"
  shows "sched_pick_cpu_for_task t s < sched_cpu_limit (sc_sched_cpus s) \<and>
    bit (t_affinity (sc_task s t)) (sched_pick_cpu_for_task t s) \<and>
    length (queued (sched_pick_cpu_for_task t s) s) \<le> length (queued d s)"
proof -
  have "length (queued c s) < 0xFFFFFFFF" for c
    using sched_reachable_wf [OF assms(1)] by (auto simp: sched_wf_def rq_wf_def yam_consts intro: le_less_trans [of _ 256])
  then have small: "length (queued c s) < 0xFFFFFFFF" for c by simp
  define r where "r = fold (\<lambda>cpu (bc, bn). if \<not> bit (t_affinity (sc_task s t)) cpu then (bc, bn)
      else if length (queued cpu s) < bn then (cpu, length (queued cpu s)) else (bc, bn))
      [0..<sched_cpu_limit (sc_sched_cpus s)] (0, 0xFFFFFFFF)"
  obtain b k where r: "r = (b, k)" by (cases r)
  have "sched_pick_cpu_for_task t s = b"
    unfolding sched_pick_cpu_for_task_def queued_def [symmetric] r_def [symmetric] r by simp
  then show ?thesis
    using pick_cpu_fold [of "\<lambda>c. length (queued c s)", OF small r [unfolded r_def]] assms(2,3) by auto
qed
theorem pick_cpu_allowed_and_least_witness:
  "sched_reachable demo_spawned \<and> sched_pick_cpu_for_task 5 demo_spawned < sched_cpu_limit (sc_sched_cpus demo_spawned)"
  using pick_cpu_allowed_and_least [OF demo_spawned_reachable, of 0 5] demo_spawned_reachable
  by (simp add: spawn_eval sched_cpu_limit_def SCHED_MAX_CPUS_def)

end
