(* ===== verification/Wait.thy ===== *)
theory Wait
  imports Sched_Props
begin

text \<open>
  Wait queues, mutexes, readers-writer locks, semaphores and futexes of \<^verbatim>\<open>src/src/sched/wait.c\<close>.
  A wait queue is the list of tasks its \<^verbatim>\<open>wait_next\<close> chain threads, newest first; the queue operations act
  on the scheduler.  The locks are transition systems over the program counters of the tasks that use them:
  a step is one atomic statement of the source (an exchange, a section under the lock's spinlock, a queue
  operation), and steps of different tasks interleave in any order.
\<close>

section \<open>Wait queues\<close>

definition wq_init :: "nat list" where
  "wq_init = []"

definition wq_sleep :: "nat list \<Rightarrow> sched \<Rightarrow> nat list \<times> sched" where
  "wq_sleep wq s =
     (let cur = sc_current s
      in (cur # wq, sched_yield (upd_task cur (\<lambda>k. k\<lparr> t_state := TASK_BLOCKED \<rparr>) s)))"

definition wq_wake_one :: "nat list \<Rightarrow> sched \<Rightarrow> nat list \<times> sched" where
  "wq_wake_one wq s = (case wq of [] \<Rightarrow> ([], s) | t # rest \<Rightarrow> (rest, sched_unblock t s))"

definition wq_wake_all :: "nat list \<Rightarrow> sched \<Rightarrow> nat list \<times> sched" where
  "wq_wake_all wq s = ([], fold sched_unblock wq s)"

section \<open>Futexes\<close>

definition FUTEX_WAIT :: int where [yam_consts]: "FUTEX_WAIT = 0"
definition FUTEX_WAKE :: int where [yam_consts]: "FUTEX_WAKE = 1"
definition FUTEX_HASH_SIZE :: nat where [yam_consts]: "FUTEX_HASH_SIZE = 64"

record futex_state =
  fx_table :: "nat \<Rightarrow> nat list"
  fx_initialized :: bool

definition futex_hash :: "u64 \<Rightarrow> nat" where
  "futex_hash addr = unat (drop_bit 2 addr) mod FUTEX_HASH_SIZE"

fun futex_wake :: "nat \<Rightarrow> nat list \<Rightarrow> sched \<Rightarrow> nat list \<times> sched" where
  "futex_wake 0 wq s = (wq, s)"
| "futex_wake (Suc n) wq s = (case wq_wake_one wq s of (wq', s') \<Rightarrow> futex_wake n wq' s')"

definition sys_futex :: "(u64 \<Rightarrow> u32) \<Rightarrow> u64 \<Rightarrow> int \<Rightarrow> u32 \<Rightarrow> futex_state \<Rightarrow> sched \<Rightarrow> int \<times> futex_state \<times> sched" where
  "sys_futex mem uaddr fop val fx s =
     (let fx1 = (if fx_initialized fx then fx
                 else \<lparr> fx_table = \<lambda>i. if i < FUTEX_HASH_SIZE then wq_init else fx_table fx i, fx_initialized = True \<rparr>);
          idx = futex_hash uaddr;
          wq = fx_table fx1 idx
      in if fop = FUTEX_WAIT
         then if mem uaddr \<noteq> val then (- 1, fx1, s)
              else case wq_sleep wq s of (wq', s') \<Rightarrow> (0, fx1\<lparr> fx_table := (fx_table fx1)(idx := wq') \<rparr>, s')
         else if fop = FUTEX_WAKE
         then case futex_wake (unat val) wq s of (wq', s') \<Rightarrow> (0, fx1\<lparr> fx_table := (fx_table fx1)(idx := wq') \<rparr>, s')
         else (- 1, fx1, s))"

section \<open>Mutexes\<close>

text \<open>Where a task is in its use of a lock: not using it, about to try, about to park, parked on the wait
queue, holding it, or released it and about to wake a waiter.\<close>

datatype lock_pc = Idle | Trying | Parking | Parked | Holding | Waking

record mutex =
  mx_locked :: bool
  mx_waiters :: "nat list"
  mx_pc :: "nat \<Rightarrow> lock_pc"

datatype mutex_act = M_call nat | M_exchange nat | M_park nat | M_release nat | M_wake nat

definition mutex_init :: mutex where
  "mutex_init = \<lparr> mx_locked = False, mx_waiters = [], mx_pc = \<lambda>i. Idle \<rparr>"

text \<open>The exchange of \<^verbatim>\<open>mutex_lock\<close> stores 1 and looks at the old value.\<close>

definition mutex_exchange :: "nat \<Rightarrow> mutex \<Rightarrow> mutex" where
  "mutex_exchange i m = m\<lparr> mx_locked := True,
     mx_pc := (mx_pc m)(i := if mx_locked m then Parking else Holding) \<rparr>"

definition mutex_park :: "nat \<Rightarrow> mutex \<Rightarrow> mutex" where
  "mutex_park i m = m\<lparr> mx_waiters := i # mx_waiters m, mx_pc := (mx_pc m)(i := Parked) \<rparr>"

definition mutex_release :: "nat \<Rightarrow> mutex \<Rightarrow> mutex" where
  "mutex_release i m = m\<lparr> mx_locked := False, mx_pc := (mx_pc m)(i := Waking) \<rparr>"

definition mutex_wake :: "nat \<Rightarrow> mutex \<Rightarrow> mutex" where
  "mutex_wake i m =
     (case mx_waiters m of
        [] \<Rightarrow> m\<lparr> mx_pc := (mx_pc m)(i := Idle) \<rparr>
      | h # rest \<Rightarrow> m\<lparr> mx_waiters := rest, mx_pc := (mx_pc m)(i := Idle, h := Trying) \<rparr>)"

fun mutex_step :: "mutex_act \<Rightarrow> mutex \<Rightarrow> mutex option" where
  "mutex_step (M_call i) m = (if mx_pc m i = Idle then Some (m\<lparr> mx_pc := (mx_pc m)(i := Trying) \<rparr>) else None)"
| "mutex_step (M_exchange i) m = (if mx_pc m i = Trying then Some (mutex_exchange i m) else None)"
| "mutex_step (M_park i) m = (if mx_pc m i = Parking then Some (mutex_park i m) else None)"
| "mutex_step (M_release i) m = (if mx_pc m i = Holding then Some (mutex_release i m) else None)"
| "mutex_step (M_wake i) m = (if mx_pc m i = Waking then Some (mutex_wake i m) else None)"

inductive mutex_reach :: "mutex \<Rightarrow> bool" where
  init: "mutex_reach mutex_init"
| step: "mutex_reach m \<Longrightarrow> mutex_step a m = Some m' \<Longrightarrow> mutex_reach m'"

text \<open>On one CPU kernel code is not preempted, so a failed exchange and the parking that follows it are one
step.\<close>

fun mutex_step_up :: "mutex_act \<Rightarrow> mutex \<Rightarrow> mutex option" where
  "mutex_step_up (M_exchange i) m =
     (if mx_pc m i = Trying
      then Some (if mx_locked m then mutex_park i (mutex_exchange i m) else mutex_exchange i m) else None)"
| "mutex_step_up (M_park i) m = None"
| "mutex_step_up a m = mutex_step a m"

inductive mutex_reach_up :: "mutex \<Rightarrow> bool" where
  init: "mutex_reach_up mutex_init"
| step: "mutex_reach_up m \<Longrightarrow> mutex_step_up a m = Some m' \<Longrightarrow> mutex_reach_up m'"

text \<open>The tasks at a program point, and how one move changes them.\<close>

definition at_pc :: "'p \<Rightarrow> (nat \<Rightarrow> 'p) \<Rightarrow> nat set" where
  "at_pc x pc = {i. pc i = x}"

lemma at_pc_upd [simp]: "at_pc x (pc(i := y)) = (if x = y then insert i (at_pc x pc) else at_pc x pc - {i})"
  by (auto simp: at_pc_def)

lemma in_at_pc [simp]: "i \<in> at_pc x pc \<longleftrightarrow> pc i = x"
  by (simp add: at_pc_def)

definition mutex_wf :: "mutex \<Rightarrow> bool" where
  "mutex_wf m \<longleftrightarrow> (if mx_locked m then is_singleton (at_pc Holding (mx_pc m)) else at_pc Holding (mx_pc m) = {}) \<and>
     distinct (mx_waiters m) \<and> set (mx_waiters m) = at_pc Parked (mx_pc m)"

definition mutex_awake :: "mutex \<Rightarrow> bool" where
  "mutex_awake m \<longleftrightarrow> (mx_waiters m \<noteq> [] \<longrightarrow> mx_locked m \<or> (\<exists>i. mx_pc m i \<in> {Trying, Waking}))"

lemma mutex_wf_move:
  assumes "mutex_wf m" "mx_pc m i \<notin> {Holding, Parked}" "x \<notin> {Holding, Parked}"
  shows "mutex_wf (m\<lparr> mx_pc := (mx_pc m)(i := x) \<rparr>)"
  using assms by (auto simp: mutex_wf_def)

lemma mutex_wf_exchange:
  assumes "mutex_wf m" "mx_pc m i = Trying"
  shows "mutex_wf (mutex_exchange i m)"
proof -
  have "i \<notin> at_pc Holding (mx_pc m)" "i \<notin> at_pc Parked (mx_pc m)" using assms(2) by simp_all
  then show ?thesis using assms(1) by (auto simp: mutex_wf_def mutex_exchange_def is_singleton_def)
qed

lemma mutex_wf_park:
  assumes "mutex_wf m" "mx_pc m i = Parking"
  shows "mutex_wf (mutex_park i m)"
proof -
  have "i \<notin> at_pc Holding (mx_pc m)" "i \<notin> at_pc Parked (mx_pc m)" using assms(2) by simp_all
  then show ?thesis using assms(1) by (auto simp: mutex_wf_def mutex_park_def)
qed

lemma mutex_wf_release:
  assumes "mutex_wf m" "mx_pc m i = Holding"
  shows "mutex_wf (mutex_release i m)"
proof -
  have i: "i \<in> at_pc Holding (mx_pc m)" "i \<notin> at_pc Parked (mx_pc m)" using assms(2) by simp_all
  then have "at_pc Holding (mx_pc m) = {i}"
    using assms(1) unfolding mutex_wf_def is_singleton_def by (metis empty_iff singletonD)
  then show ?thesis using assms(1) i by (auto simp: mutex_wf_def mutex_release_def)
qed

lemma mutex_wf_wake:
  assumes "mutex_wf m" "mx_pc m i = Waking"
  shows "mutex_wf (mutex_wake i m)"
proof (cases "mx_waiters m")
  case Nil
  then show ?thesis using mutex_wf_move [OF assms(1), of i Idle] assms(2) by (simp add: mutex_wake_def)
next
  case (Cons h rest)
  have "i \<notin> at_pc Holding (mx_pc m)" "i \<notin> at_pc Parked (mx_pc m)" using assms(2) by simp_all
  moreover have "h \<in> at_pc Parked (mx_pc m)" using assms(1) Cons by (auto simp: mutex_wf_def)
  then have "h \<notin> at_pc Holding (mx_pc m)" "h \<noteq> i" using assms(2) by auto
  ultimately show ?thesis using assms(1) Cons by (auto simp: mutex_wf_def mutex_wake_def)
qed

lemma mutex_wf_step: "mutex_wf m \<Longrightarrow> mutex_step a m = Some m' \<Longrightarrow> mutex_wf m'"
  by (cases a) (auto split: if_splits
      intro: mutex_wf_move mutex_wf_exchange mutex_wf_park mutex_wf_release mutex_wf_wake)

lemma mutex_wf_init: "mutex_wf mutex_init"
  by (simp add: mutex_wf_def mutex_init_def at_pc_def)

lemma mutex_reach_wf: "mutex_reach m \<Longrightarrow> mutex_wf m"
  by (induction rule: mutex_reach.induct) (auto intro: mutex_wf_init mutex_wf_step)

lemma mutex_exchange_parks: "mx_locked m \<Longrightarrow> mx_pc (mutex_exchange i m) i = Parking"
  by (simp add: mutex_exchange_def)

lemma mutex_wf_step_up:
  assumes "mutex_wf m" "mutex_step_up a m = Some m'"
  shows "mutex_wf m'"
proof (cases "\<exists>i. a = M_exchange i")
  case True
  then show ?thesis
    using assms by (auto split: if_splits simp: mutex_wf_exchange mutex_wf_park mutex_exchange_parks)
next
  case False
  then have "mutex_step a m = Some m'" using assms(2) by (cases a) auto
  then show ?thesis by (rule mutex_wf_step [OF assms(1)])
qed

lemma mutex_awake_step:
  assumes "mutex_wf m" "mutex_awake m" "mutex_step_up a m = Some m'"
  shows "mutex_awake m'"
proof (cases a)
  case (M_wake i)
  then have m': "m' = mutex_wake i m" using assms(3) by (auto split: if_splits)
  show ?thesis
  proof (cases "mx_waiters m")
    case (Cons h rest)
    then show ?thesis unfolding m' by (auto simp: mutex_awake_def mutex_wake_def intro: exI [of _ h])
  qed (simp add: m' mutex_awake_def mutex_wake_def)
qed (use assms in \<open>auto simp: mutex_awake_def mutex_exchange_def mutex_park_def mutex_release_def split: if_splits\<close>)

lemma mutex_reach_up_awake: "mutex_reach_up m \<Longrightarrow> mutex_wf m \<and> mutex_awake m"
proof (induction rule: mutex_reach_up.induct)
  case init
  then show ?case by (simp add: mutex_wf_init) (simp add: mutex_awake_def mutex_init_def)
next
  case (step m a m')
  then show ?case using mutex_wf_step_up mutex_awake_step by blast
qed

section \<open>Readers-writer locks\<close>






























section \<open>Semaphores\<close>

record semaphore =
  sm_count :: u32
  sm_waiters :: "nat list"
  sm_pc :: "nat \<Rightarrow> lock_pc"

definition sem_init :: "u32 \<Rightarrow> semaphore" where
  "sem_init n = \<lparr> sm_count = n, sm_waiters = [], sm_pc = \<lambda>i. Idle \<rparr>"

definition sem_trywait :: "semaphore \<Rightarrow> bool \<times> semaphore" where
  "sem_trywait s = (if sint (sm_count s) > 0 then (True, s\<lparr> sm_count := sm_count s - 1 \<rparr>) else (False, s))"

definition sem_wait :: "nat \<Rightarrow> semaphore \<Rightarrow> semaphore" where
  "sem_wait i s =
     (if sint (sm_count s) > 0 then s\<lparr> sm_count := sm_count s - 1, sm_pc := (sm_pc s)(i := Idle) \<rparr>
      else s\<lparr> sm_pc := (sm_pc s)(i := Parking) \<rparr>)"

definition sem_park :: "nat \<Rightarrow> semaphore \<Rightarrow> semaphore" where
  "sem_park i s = s\<lparr> sm_waiters := i # sm_waiters s, sm_pc := (sm_pc s)(i := Parked) \<rparr>"

definition sem_post :: "nat \<Rightarrow> semaphore \<Rightarrow> semaphore" where
  "sem_post i s = s\<lparr> sm_count := sm_count s + 1, sm_pc := (sm_pc s)(i := Waking) \<rparr>"

definition sem_wake :: "nat \<Rightarrow> semaphore \<Rightarrow> semaphore" where
  "sem_wake i s =
     (case sm_waiters s of
        [] \<Rightarrow> s\<lparr> sm_pc := (sm_pc s)(i := Idle) \<rparr>
      | h # rest \<Rightarrow> s\<lparr> sm_waiters := rest, sm_pc := (sm_pc s)(i := Idle, h := Trying) \<rparr>)"

datatype sem_act = S_call nat | S_try nat | S_park nat | S_trywait nat | S_post nat | S_wake nat

fun sem_step :: "sem_act \<Rightarrow> semaphore \<Rightarrow> semaphore option" where
  "sem_step (S_call i) s = (if sm_pc s i = Idle then Some (s\<lparr> sm_pc := (sm_pc s)(i := Trying) \<rparr>) else None)"
| "sem_step (S_try i) s = (if sm_pc s i = Trying then Some (sem_wait i s) else None)"
| "sem_step (S_park i) s = (if sm_pc s i = Parking then Some (sem_park i s) else None)"
| "sem_step (S_trywait i) s = (if sm_pc s i = Idle then Some (snd (sem_trywait s)) else None)"
| "sem_step (S_post i) s = (if sm_pc s i = Idle then Some (sem_post i s) else None)"
| "sem_step (S_wake i) s = (if sm_pc s i = Waking then Some (sem_wake i s) else None)"

text \<open>Whether an action takes a unit, and whether it adds one.\<close>

fun sem_takes :: "sem_act \<Rightarrow> semaphore \<Rightarrow> bool" where
  "sem_takes (S_try i) s \<longleftrightarrow> sint (sm_count s) > 0"
| "sem_takes (S_trywait i) s \<longleftrightarrow> fst (sem_trywait s)"
| "sem_takes a s \<longleftrightarrow> False"

fun sem_posts :: "sem_act \<Rightarrow> bool" where
  "sem_posts (S_post i) \<longleftrightarrow> True"
| "sem_posts a \<longleftrightarrow> False"

text \<open>\<open>sem_reach n s p k\<close>: from an initial count \<open>n\<close>, after \<open>p\<close> posts and \<open>k\<close> successful waits.\<close>

inductive sem_reach :: "u32 \<Rightarrow> semaphore \<Rightarrow> nat \<Rightarrow> nat \<Rightarrow> bool" where
  init: "sem_reach n (sem_init n) 0 0"
| step: "sem_reach n s p k \<Longrightarrow> sem_step a s = Some s' \<Longrightarrow>
    sem_reach n s' (p + (if sem_posts a then 1 else 0)) (k + (if sem_takes a s then 1 else 0))"

lemma sint_count_dec: "0 < sint (w :: u32) \<Longrightarrow> sint (w - 1) = sint w - 1"
  using sint_lt [of w] sint_ge [of w] by (simp add: sint_word_ariths signed_take_bit_int_eq_self)

lemma sint_count_inc: "sint (w :: u32) < 2 ^ 31 - 1 \<Longrightarrow> sint (w + 1) = sint w + 1"
  using sint_lt [of w] sint_ge [of w] by (simp add: sint_word_ariths signed_take_bit_int_eq_self)

lemma sem_step_count:
  assumes "sem_step a s = Some s'" "sem_posts a \<Longrightarrow> sint (sm_count s) < 2 ^ 31 - 1"
  shows "sint (sm_count s') = sint (sm_count s) + (if sem_posts a then 1 else 0) - (if sem_takes a s then 1 else 0)"
  using assms
  by (cases a) (auto simp: sem_wait_def sem_park_def sem_trywait_def sem_post_def sem_wake_def sint_count_dec
      sint_count_inc split: if_splits list.splits)

lemma sem_reach_count:
  assumes "sem_reach n s p k" "0 \<le> sint n" "sint n + int p < 2 ^ 31"
  shows "sint (sm_count s) = sint n + int p - int k \<and> int k \<le> sint n + int p"
  using assms
proof (induction rule: sem_reach.induct)
  case (init n)
  then show ?case by (simp add: sem_init_def)
next
  case (step n s p k a s')
  have ih: "sint (sm_count s) = sint n + int p - int k" "int k \<le> sint n + int p"
    using step.IH step.prems by (auto split: if_splits)
  have "sint (sm_count s') = sint (sm_count s) + (if sem_posts a then 1 else 0) - (if sem_takes a s then 1 else 0)"
    by (rule sem_step_count [OF step.hyps(2)]) (use ih step.prems in \<open>auto split: if_splits\<close>)
  moreover have "sem_takes a s \<Longrightarrow> 0 < sint (sm_count s)"
    by (cases a) (auto simp: sem_trywait_def split: if_splits)
  ultimately show ?case using ih by (auto split: if_splits)
qed

section \<open>Properties\<close>

text \<open>C10. Mutual exclusion: in every interleaving of the atomic steps of lock and unlock by any tasks, at most
one task holds the mutex, and the lock word is set exactly while one does.\<close>

theorem mutex_mutual_exclusion:
  assumes "mutex_reach m"
  shows "(mx_pc m i = Holding \<longrightarrow> mx_pc m j = Holding \<longrightarrow> i = j) \<and> (mx_locked m \<longleftrightarrow> (\<exists>h. mx_pc m h = Holding))"
proof -
  have "mutex_wf m" by (rule mutex_reach_wf [OF assms])
  then show ?thesis
    by (auto simp: mutex_wf_def is_singleton_def at_pc_def set_eq_iff split: if_splits)
qed

definition demo_mutex :: mutex where
  "demo_mutex = mutex_park 2 (mutex_exchange 2 ((mutex_exchange 1 (mutex_init\<lparr> mx_pc := (\<lambda>i. Idle)(1 := Trying) \<rparr>))
     \<lparr> mx_pc := (\<lambda>i. Idle)(1 := Holding, 2 := Trying) \<rparr>))"

lemma demo_mutex_reach: "mutex_reach demo_mutex" "mutex_reach_up demo_mutex"
proof -
  let ?m1 = "mutex_init\<lparr> mx_pc := (\<lambda>i. Idle)(1 := Trying) \<rparr>"
  let ?m2 = "mutex_exchange 1 ?m1"
  let ?m3 = "?m2\<lparr> mx_pc := (\<lambda>i. Idle)(1 := Holding, 2 := Trying) \<rparr>"
  let ?m4 = "mutex_exchange 2 ?m3"
  have pc: "mx_pc ?m1 1 = Trying" "mx_pc ?m2 = (\<lambda>i. Idle)(1 := Holding)" "mx_pc ?m3 2 = Trying" "mx_pc ?m4 2 = Parking"
    "mx_locked ?m3" by (simp_all add: mutex_exchange_def mutex_init_def)
  have s1: "mutex_step (M_call 1) mutex_init = Some ?m1" "mutex_step (M_exchange 1) ?m1 = Some ?m2"
    "mutex_step (M_call 2) ?m2 = Some ?m3" "mutex_step (M_exchange 2) ?m3 = Some ?m4"
    "mutex_step (M_park 2) ?m4 = Some demo_mutex"
    using pc by (simp_all add: demo_mutex_def) (simp_all add: mutex_init_def)
  show "mutex_reach demo_mutex"
    by (rule mutex_reach.step [OF _ s1(5)], rule mutex_reach.step [OF _ s1(4)], rule mutex_reach.step [OF _ s1(3)],
        rule mutex_reach.step [OF _ s1(2)], rule mutex_reach.step [OF _ s1(1)], rule mutex_reach.init)
  have u: "mutex_step_up (M_call 1) mutex_init = Some ?m1" "mutex_step_up (M_exchange 1) ?m1 = Some ?m2"
    "mutex_step_up (M_call 2) ?m2 = Some ?m3" "mutex_step_up (M_exchange 2) ?m3 = Some demo_mutex"
    using pc s1 by (simp_all add: demo_mutex_def) (simp_all add: mutex_init_def)
  show "mutex_reach_up demo_mutex"
    by (rule mutex_reach_up.step [OF _ u(4)], rule mutex_reach_up.step [OF _ u(3)],
        rule mutex_reach_up.step [OF _ u(2)], rule mutex_reach_up.step [OF _ u(1)], rule mutex_reach_up.init)
qed

theorem mutex_mutual_exclusion_witness: "mx_pc demo_mutex 1 = Holding \<and> mx_locked demo_mutex"
  using mutex_mutual_exclusion [OF demo_mutex_reach(1), of 1 1]
  by (auto simp: demo_mutex_def mutex_park_def mutex_exchange_def)

text \<open>C30. No wake-up is lost on one CPU: when a failed lock attempt parks without being preempted in between, then
in every reachable state with a parked task the mutex is held, or some task is about to wake a waiter or to
try the lock.\<close>

theorem mutex_no_lost_wakeup:
  assumes "mutex_reach_up m" "mx_pc m i = Parked"
  shows "mx_locked m \<or> (\<exists>j. mx_pc m j \<in> {Trying, Waking})"
proof -
  have "mutex_wf m \<and> mutex_awake m" by (rule mutex_reach_up_awake [OF assms(1)])
  moreover from this have "i \<in> set (mx_waiters m)" using assms(2) by (simp add: mutex_wf_def)
  ultimately show ?thesis by (auto simp: mutex_awake_def)
qed

theorem mutex_no_lost_wakeup_witness:
  "mx_pc demo_mutex 2 = Parked \<and> (mx_locked demo_mutex \<or> (\<exists>j. mx_pc demo_mutex j \<in> {Trying, Waking}))"
proof -
  have "mx_pc demo_mutex 2 = Parked" by (simp add: demo_mutex_def mutex_park_def)
  then show ?thesis using mutex_no_lost_wakeup [OF demo_mutex_reach(2)] by simp
qed



text \<open>A semaphore never hands out more units than it was given: from a non-negative initial count, after any
interleaving with p posts that do not overflow the 32-bit count and k successful waits, the count is the initial
count plus p minus k, and k is at most the initial count plus p.\<close>

theorem semaphore_accounting:
  assumes "sem_reach n s p k" "0 \<le> sint n" "sint n + int p < 2 ^ 31"
  shows "sint (sm_count s) = sint n + int p - int k \<and> int k \<le> sint n + int p"
  by (rule sem_reach_count [OF assms])

theorem semaphore_accounting_witness:
  "sint (sm_count (snd (sem_trywait (sem_init 3)))) = 2"
proof -
  have "sem_step (S_trywait 1) (sem_init 3) = Some (snd (sem_trywait (sem_init 3)))" by (simp add: sem_init_def)
  from sem_reach.step [OF sem_reach.init this] have "sem_reach 3 (snd (sem_trywait (sem_init 3))) 0 1"
    by (simp add: sem_trywait_def sem_init_def)
  from semaphore_accounting [OF this] show ?thesis by simp
qed

end
