(* ===== verification/Pipe.thy ===== *)
theory Pipe
  imports Fifo Wait
begin

text \<open>
  Anonymous pipes of \<^verbatim>\<open>src/src/ipc/pipe.c\<close>: a ring of 4096 bytes between readers and writers that sleep
  on two wait queues.  An activation of \<^verbatim>\<open>pipe_read\<close> or \<^verbatim>\<open>pipe_write\<close> that has to sleep ends in
  \<open>Would_block\<close> with the task on the queue; when it is woken it runs the activation again, as the source's
  loop does; the file's private data is the pipe \<^verbatim>\<open>sys_pipe\<close> allocated, never null.  The ring interprets \<open>bounded_fifo\<close> byte by byte.
\<close>

section \<open>Model\<close>

definition PIPE_BUF_SIZE :: nat where [yam_consts]: "PIPE_BUF_SIZE = 4096"

record pipe =
  p_buf :: "nat \<Rightarrow> u8"
  p_read_pos :: nat
  p_write_pos :: nat
  p_count :: nat
  p_readers :: "nat list"
  p_writers :: "nat list"
  p_readers_open :: u32
  p_writers_open :: u32
  p_freed :: bool

datatype pipe_result = Done int "u8 list" | Would_block

text \<open>The two copy loops; the count is updated after them.\<close>

fun pipe_copy_out :: "nat \<Rightarrow> pipe \<Rightarrow> u8 list \<times> pipe" where
  "pipe_copy_out 0 p = ([], p)"
| "pipe_copy_out (Suc n) p =
     (case pipe_copy_out n (p\<lparr> p_read_pos := (p_read_pos p + 1) mod PIPE_BUF_SIZE \<rparr>) of
        (bs, p') \<Rightarrow> (p_buf p (p_read_pos p) # bs, p'))"

fun pipe_copy_in :: "u8 list \<Rightarrow> pipe \<Rightarrow> pipe" where
  "pipe_copy_in [] p = p"
| "pipe_copy_in (b # bs) p =
     pipe_copy_in bs (p\<lparr> p_buf := (p_buf p)(p_write_pos p := b), p_write_pos := (p_write_pos p + 1) mod PIPE_BUF_SIZE \<rparr>)"

definition pipe_read :: "nat \<Rightarrow> pipe \<Rightarrow> sched \<Rightarrow> pipe_result \<times> pipe \<times> sched" where
  "pipe_read n p s =
     (if p_count p = 0
      then if p_writers_open p = 0 then (Done 0 [], p, s)
           else case wq_sleep (p_readers p) s of (wq, s') \<Rightarrow> (Would_block, p\<lparr> p_readers := wq \<rparr>, s')
      else let to_read = (if n < p_count p then n else p_count p)
        in case pipe_copy_out to_read p of (bs, p1) \<Rightarrow>
             let p2 = p1\<lparr> p_count := p_count p1 - to_read \<rparr>
             in case wq_wake_one (p_writers p2) s of (wq, s') \<Rightarrow>
                  (Done (int to_read) bs, p2\<lparr> p_writers := wq \<rparr>, s'))"

definition pipe_write :: "u8 list \<Rightarrow> pipe \<Rightarrow> sched \<Rightarrow> pipe_result \<times> pipe \<times> sched" where
  "pipe_write bs p s =
     (if p_count p \<ge> PIPE_BUF_SIZE
      then if p_readers_open p = 0 then (Done (- 1) [], p, s)
           else case wq_sleep (p_writers p) s of (wq, s') \<Rightarrow> (Would_block, p\<lparr> p_writers := wq \<rparr>, s')
      else let space = PIPE_BUF_SIZE - p_count p;
               to_write = (if length bs < space then length bs else space);
               p1 = pipe_copy_in (take to_write bs) p;
               p2 = p1\<lparr> p_count := p_count p1 + to_write \<rparr>
        in case wq_wake_one (p_readers p2) s of (wq, s') \<Rightarrow>
             (Done (int to_write) [], p2\<lparr> p_readers := wq \<rparr>, s'))"

definition pipe_poll_read :: "pipe \<Rightarrow> bool" where
  "pipe_poll_read p \<longleftrightarrow> p_count p > 0 \<or> p_writers_open p = 0"

definition pipe_poll_write :: "pipe \<Rightarrow> bool" where
  "pipe_poll_write p \<longleftrightarrow> p_count p < PIPE_BUF_SIZE \<or> p_readers_open p = 0"

definition pipe_close_read :: "pipe \<Rightarrow> sched \<Rightarrow> pipe \<times> sched" where
  "pipe_close_read p s =
     (let p1 = p\<lparr> p_readers_open := p_readers_open p - 1 \<rparr>
      in case wq_wake_all (p_writers p1) s of (wq, s') \<Rightarrow>
           (let p2 = p1\<lparr> p_writers := wq \<rparr>
            in if p_readers_open p2 = 0 \<and> p_writers_open p2 = 0 then (p2\<lparr> p_freed := True \<rparr>, s') else (p2, s')))"

definition pipe_close_write :: "pipe \<Rightarrow> sched \<Rightarrow> pipe \<times> sched" where
  "pipe_close_write p s =
     (let p1 = p\<lparr> p_writers_open := p_writers_open p - 1 \<rparr>
      in case wq_wake_all (p_readers p1) s of (wq, s') \<Rightarrow>
           (let p2 = p1\<lparr> p_readers := wq \<rparr>
            in if p_readers_open p2 = 0 \<and> p_writers_open p2 = 0 then (p2\<lparr> p_freed := True \<rparr>, s') else (p2, s')))"

text \<open>The pipe \<^verbatim>\<open>sys_pipe\<close> allocates.\<close>

definition new_pipe :: pipe where
  "new_pipe = \<lparr> p_buf = \<lambda>i. 0, p_read_pos = 0, p_write_pos = 0, p_count = 0, p_readers = wq_init,
     p_writers = wq_init, p_readers_open = 1, p_writers_open = 1, p_freed = False \<rparr>"

section \<open>The byte ring\<close>

definition pipe_contents :: "pipe \<Rightarrow> u8 list" where
  "pipe_contents p = ring_contents PIPE_BUF_SIZE (p_buf p) (p_read_pos p) (p_count p)"

definition pipe_wf :: "pipe \<Rightarrow> bool" where
  "pipe_wf p \<longleftrightarrow> p_read_pos p < PIPE_BUF_SIZE \<and> p_count p \<le> PIPE_BUF_SIZE \<and>
     p_write_pos p = (p_read_pos p + p_count p) mod PIPE_BUF_SIZE"

text \<open>One iteration of each loop with its share of the count.\<close>

definition byte_put :: "u8 \<Rightarrow> pipe \<Rightarrow> pipe option" where
  "byte_put b p =
     (if p_count p \<ge> PIPE_BUF_SIZE then None
      else Some (p\<lparr> p_buf := (p_buf p)(p_write_pos p := b), p_write_pos := (p_write_pos p + 1) mod PIPE_BUF_SIZE,
                    p_count := p_count p + 1 \<rparr>))"

definition byte_get :: "pipe \<Rightarrow> (u8 \<times> pipe) option" where
  "byte_get p =
     (if p_count p = 0 then None
      else Some (p_buf p (p_read_pos p), p\<lparr> p_read_pos := (p_read_pos p + 1) mod PIPE_BUF_SIZE, p_count := p_count p - 1 \<rparr>))"

interpretation pipe_bytes: bounded_fifo byte_put byte_get pipe_contents pipe_wf "\<lambda>b. True" PIPE_BUF_SIZE
proof (unfold_locales, goal_cases)
  case (1 s)
  then show ?case by (simp add: pipe_contents_def pipe_wf_def)
next
  case (2 s x)
  then show ?case by (simp add: pipe_contents_def byte_put_def)
next
  case (3 s x)
  have m: "p_count s < PIPE_BUF_SIZE" using 3 by (simp add: pipe_contents_def)
  have "(p_read_pos s + p_count s + 1) mod PIPE_BUF_SIZE = ((p_read_pos s + p_count s) mod PIPE_BUF_SIZE + 1) mod PIPE_BUF_SIZE"
    by (simp add: mod_simps)
  then show ?case
    using 3 m ring_contents_push [OF m, of "p_buf s" "p_read_pos s" x]
    by (auto simp: byte_put_def pipe_wf_def pipe_contents_def)
next
  case (4 s)
  then have "p_count s = 0" by (metis length_ring_contents list.size(3) pipe_contents_def)
  then show ?case by (simp add: byte_get_def)
next
  case (5 s x xs)
  then have c: "0 < p_count s" by (metis length_greater_0_conv length_ring_contents list.distinct(1) pipe_contents_def)
  have "pipe_contents s = p_buf s (p_read_pos s) # ring_contents PIPE_BUF_SIZE (p_buf s) ((p_read_pos s + 1) mod PIPE_BUF_SIZE) (p_count s - 1)"
    using ring_contents_pop [OF c, of PIPE_BUF_SIZE "p_buf s" "p_read_pos s"] 5(1) by (simp add: pipe_contents_def pipe_wf_def)
  moreover have "(p_read_pos s + 1) mod PIPE_BUF_SIZE < PIPE_BUF_SIZE" by (simp add: PIPE_BUF_SIZE_def)
  ultimately show ?case
    using 5 c ring_tail_pop [OF c, of "p_read_pos s" PIPE_BUF_SIZE]
    by (auto simp: byte_get_def pipe_wf_def pipe_contents_def)
qed

text \<open>The loops are the byte operations iterated.\<close>

lemma count_last:
  "p\<lparr> p_count := c, p_buf := b \<rparr> = p\<lparr> p_buf := b, p_count := c \<rparr>"
  "p\<lparr> p_count := c, p_write_pos := i \<rparr> = p\<lparr> p_write_pos := i, p_count := c \<rparr>"
  "p\<lparr> p_count := c, p_read_pos := i \<rparr> = p\<lparr> p_read_pos := i, p_count := c \<rparr>"
  by simp_all

lemma copy_in_count: "pipe_copy_in bs (p\<lparr> p_count := c \<rparr>) = (pipe_copy_in bs p)\<lparr> p_count := c \<rparr>"
  by (induction bs arbitrary: p) (simp_all add: count_last)

lemma copy_in_keeps: "p_count (pipe_copy_in bs p) = p_count p"
  by (induction bs arbitrary: p) simp_all

lemma copy_out_count:
  "pipe_copy_out n (p\<lparr> p_count := c \<rparr>) = (fst (pipe_copy_out n p), (snd (pipe_copy_out n p))\<lparr> p_count := c \<rparr>)"
  by (induction n arbitrary: p) (simp_all add: case_prod_beta count_last)

lemma copy_out_keeps: "p_count (snd (pipe_copy_out n p)) = p_count p"
  by (induction n arbitrary: p) (simp_all add: case_prod_beta)

lemma copy_in_appends:
  assumes "pipe_wf p" "p_count p + length bs \<le> PIPE_BUF_SIZE"
  shows "pipe_wf ((pipe_copy_in bs p)\<lparr> p_count := p_count p + length bs \<rparr>) \<and>
    pipe_contents ((pipe_copy_in bs p)\<lparr> p_count := p_count p + length bs \<rparr>) = pipe_contents p @ bs"
  using assms
proof (induction bs arbitrary: p)
  case Nil
  then show ?case by simp
next
  case (Cons b bs)
  define q where "q = p\<lparr> p_buf := (p_buf p)(p_write_pos p := b), p_write_pos := Suc (p_write_pos p) mod PIPE_BUF_SIZE \<rparr>"
  have put: "byte_put b p = Some (q\<lparr> p_count := p_count p + 1 \<rparr>)" using Cons.prems(2) by (simp add: byte_put_def q_def)
  have w: "pipe_wf (q\<lparr> p_count := p_count p + 1 \<rparr>)" "pipe_contents (q\<lparr> p_count := p_count p + 1 \<rparr>) = pipe_contents p @ [b]"
    using pipe_bytes.put_SomeD [OF Cons.prems(1) put] by simp_all
  show ?case
    using Cons.IH [OF w(1)] Cons.prems(2) w(2)
    by (simp add: copy_in_count add.commute flip: q_def)
qed

lemma copy_out_removes:
  assumes "pipe_wf p" "n \<le> p_count p" "pipe_copy_out n p = (bs, p1)"
  shows "pipe_wf (p1\<lparr> p_count := p_count p - n \<rparr>) \<and> pipe_contents p = bs @ pipe_contents (p1\<lparr> p_count := p_count p - n \<rparr>)"
  using assms
proof (induction n arbitrary: p bs p1)
  case 0
  then show ?case by simp
next
  case (Suc n)
  define q where "q = p\<lparr> p_read_pos := Suc (p_read_pos p) mod PIPE_BUF_SIZE \<rparr>"
  have "0 < p_count p" using Suc.prems(2) by simp
  then have get: "byte_get p = Some (p_buf p (p_read_pos p), q\<lparr> p_count := p_count p - 1 \<rparr>)"
    by (simp add: byte_get_def q_def)
  have w: "pipe_wf (q\<lparr> p_count := p_count p - 1 \<rparr>)"
    "pipe_contents p = p_buf p (p_read_pos p) # pipe_contents (q\<lparr> p_count := p_count p - 1 \<rparr>)"
    using pipe_bytes.get_SomeD [OF Suc.prems(1) get] by simp_all
  obtain cs q1 where co: "pipe_copy_out n q = (cs, q1)" by (cases "pipe_copy_out n q")
  then have e: "bs = p_buf p (p_read_pos p) # cs" "p1 = q1" using Suc.prems(3) by (simp_all add: q_def [symmetric])
  have "pipe_copy_out n (q\<lparr> p_count := p_count p - 1 \<rparr>) = (cs, q1\<lparr> p_count := p_count p - 1 \<rparr>)"
    by (simp add: copy_out_count co)
  from Suc.IH [OF w(1) _ this] show ?case using Suc.prems(2) w(2) e by simp
qed

lemma waiters_irrelevant:
  "pipe_wf (p\<lparr> p_readers := w \<rparr>) = pipe_wf p" "pipe_wf (p\<lparr> p_writers := w \<rparr>) = pipe_wf p"
  "pipe_contents (p\<lparr> p_readers := w \<rparr>) = pipe_contents p" "pipe_contents (p\<lparr> p_writers := w \<rparr>) = pipe_contents p"
  by (simp_all add: pipe_wf_def pipe_contents_def)

lemma pipe_write_effect:
  assumes "pipe_wf p" "pipe_write bs p s = (r, p', s')"
  shows "pipe_wf p' \<and> pipe_contents p' = pipe_contents p @ (case r of Would_block \<Rightarrow> [] | Done k x \<Rightarrow> take (nat k) bs)"
proof (cases "p_count p \<ge> PIPE_BUF_SIZE")
  case True
  then show ?thesis using assms by (auto simp: pipe_write_def waiters_irrelevant split: if_splits prod.splits)
next
  case False
  define k where "k = (if length bs < PIPE_BUF_SIZE - p_count p then length bs else PIPE_BUF_SIZE - p_count p)"
  define q where "q = (pipe_copy_in (take k bs) p)\<lparr> p_count := p_count p + k \<rparr>"
  have len: "length (take k bs) = k" by (simp add: k_def)
  have fits: "p_count p + k \<le> PIPE_BUF_SIZE" using False by (auto simp: k_def)
  have "pipe_wf q \<and> pipe_contents q = pipe_contents p @ take k bs"
    using copy_in_appends [OF assms(1), of "take k bs"] fits unfolding len q_def by simp
  moreover have "p_readers (pipe_copy_in (take k bs) p) = p_readers q" by (simp add: q_def)
  moreover obtain wq s1 where "wq_wake_one (p_readers q) s = (wq, s1)" by (cases "wq_wake_one (p_readers q) s")
  ultimately show ?thesis
    using assms(2) False by (auto simp: pipe_write_def Let_def k_def [symmetric] copy_in_keeps q_def [symmetric] waiters_irrelevant)
qed

lemma pipe_read_effect:
  assumes "pipe_wf p" "pipe_read n p s = (r, p', s')"
  shows "pipe_wf p' \<and> pipe_contents p = (case r of Would_block \<Rightarrow> [] | Done k x \<Rightarrow> x) @ pipe_contents p'"
proof (cases "p_count p = 0")
  case True
  then show ?thesis using assms by (auto simp: pipe_read_def waiters_irrelevant split: if_splits prod.splits)
next
  case False
  define k where "k = (if n < p_count p then n else p_count p)"
  obtain bs p1 where c: "pipe_copy_out k p = (bs, p1)" by (cases "pipe_copy_out k p")
  define q where "q = p1\<lparr> p_count := p_count p - k \<rparr>"
  have k: "k \<le> p_count p" by (simp add: k_def)
  have "p_count p1 = p_count p" using copy_out_keeps [of k p] c by simp
  moreover have "pipe_wf q \<and> pipe_contents p = bs @ pipe_contents q"
    using copy_out_removes [OF assms(1) k c] by (simp add: q_def)
  moreover obtain wq s1 where "wq_wake_one (p_writers p1) s = (wq, s1)" by (cases "wq_wake_one (p_writers p1) s")
  ultimately show ?thesis
    using assms(2) False by (auto simp: pipe_read_def Let_def k_def [symmetric] c q_def [symmetric] waiters_irrelevant)
qed

section \<open>Properties\<close>

datatype pipe_op = P_write "u8 list" | P_read nat | P_close_read | P_close_write

text \<open>
  A run: the bytes accepted by writes, the bytes delivered by reads, and the pipe.  Nothing follows the close
  that frees the pipe.
\<close>

fun pipe_run :: "pipe_op list \<Rightarrow> pipe \<Rightarrow> sched \<Rightarrow> u8 list \<times> u8 list \<times> pipe" where
  "pipe_run [] p s = ([], [], p)"
| "pipe_run (P_write bs # ops) p s =
     (if p_freed p then ([], [], p) else
      case pipe_write bs p s of (r, p', s') \<Rightarrow>
      case pipe_run ops p' s' of (acc, del, q) \<Rightarrow>
        ((case r of Would_block \<Rightarrow> [] | Done k x \<Rightarrow> take (nat k) bs) @ acc, del, q))"
| "pipe_run (P_read n # ops) p s =
     (if p_freed p then ([], [], p) else
      case pipe_read n p s of (r, p', s') \<Rightarrow>
      case pipe_run ops p' s' of (acc, del, q) \<Rightarrow>
        (acc, (case r of Would_block \<Rightarrow> [] | Done k x \<Rightarrow> x) @ del, q))"
| "pipe_run (P_close_read # ops) p s =
     (if p_freed p then ([], [], p) else case pipe_close_read p s of (p', s') \<Rightarrow> pipe_run ops p' s')"
| "pipe_run (P_close_write # ops) p s =
     (if p_freed p then ([], [], p) else case pipe_close_write p s of (p', s') \<Rightarrow> pipe_run ops p' s')"

lemma close_effect:
  "pipe_close_read p s = (p', s') \<Longrightarrow> pipe_wf p' = pipe_wf p \<and> pipe_contents p' = pipe_contents p"
  "pipe_close_write p s = (p', s') \<Longrightarrow> pipe_wf p' = pipe_wf p \<and> pipe_contents p' = pipe_contents p"
  by (auto simp: pipe_close_read_def pipe_close_write_def wq_wake_all_def Let_def pipe_wf_def pipe_contents_def split: if_splits)

lemma pipe_run_stream:
  "pipe_wf p \<Longrightarrow> pipe_run ops p s = (acc, del, q) \<Longrightarrow> pipe_wf q \<and> pipe_contents p @ acc = del @ pipe_contents q"
proof (induction ops p s arbitrary: acc del q rule: pipe_run.induct)
  case (2 bs ops p s)
  show ?case
  proof (cases "p_freed p")
    case False
    obtain r p' s' where w: "pipe_write bs p s = (r, p', s')" by (metis prod_cases3)
    obtain acc' del' where r: "pipe_run ops p' s' = (acc', del', q)" using 2(3) w False by (auto split: prod.splits)
    have e: "pipe_wf p' \<and> pipe_contents p' = pipe_contents p @ (case r of Would_block \<Rightarrow> [] | Done k x \<Rightarrow> take (nat k) bs)"
      by (rule pipe_write_effect [OF 2(2) w])
    have "pipe_wf q \<and> pipe_contents p' @ acc' = del' @ pipe_contents q"
      using 2(1) [OF False w [symmetric] refl _ r] e by blast
    then show ?thesis using e 2(3) False by (auto simp: w r)
  qed (use 2 in auto)
next
  case (3 n ops p s)
  show ?case
  proof (cases "p_freed p")
    case False
    obtain r p' s' where w: "pipe_read n p s = (r, p', s')" by (metis prod_cases3)
    obtain acc' del' where r: "pipe_run ops p' s' = (acc', del', q)" using 3(3) w False by (auto split: prod.splits)
    have e: "pipe_wf p' \<and> pipe_contents p = (case r of Would_block \<Rightarrow> [] | Done k x \<Rightarrow> x) @ pipe_contents p'"
      by (rule pipe_read_effect [OF 3(2) w])
    have "pipe_wf q \<and> pipe_contents p' @ acc' = del' @ pipe_contents q"
      using 3(1) [OF False w [symmetric] refl _ r] e by blast
    then show ?thesis using e 3(3) False by (auto simp: w r)
  qed (use 3 in auto)
next
  case (4 ops p s)
  obtain p' s' where w: "pipe_close_read p s = (p', s')" by fastforce
  show ?case using 4(1) [OF _ w [symmetric]] 4(2,3) close_effect(1) [OF w] by (simp add: w split: if_splits)
next
  case (5 ops p s)
  obtain p' s' where w: "pipe_close_write p s = (p', s')" by fastforce
  show ?case using 5(1) [OF _ w [symmetric]] 5(2,3) close_effect(2) [OF w] by (simp add: w split: if_splits)
qed simp

text \<open>C32. A pipe is a byte stream: whatever writes, reads and closes are made on a new pipe, the bytes the reads
delivered followed by the bytes still buffered are the bytes the writes accepted, in order; and at most 4096
bytes are buffered.\<close>

theorem pipe_byte_stream:
  assumes "pipe_run ops new_pipe s = (acc, del, q)"
  shows "acc = del @ pipe_contents q \<and> length (pipe_contents q) \<le> 4096"
proof -
  have "pipe_wf new_pipe" "pipe_contents new_pipe = []" by (simp_all add: pipe_wf_def new_pipe_def pipe_contents_def PIPE_BUF_SIZE_def)
  with pipe_run_stream [OF _ assms] have "pipe_wf q \<and> acc = del @ pipe_contents q" by simp
  then show ?thesis using pipe_bytes.contents_bounded [of q] by (simp add: PIPE_BUF_SIZE_def)
qed

theorem pipe_byte_stream_witness:
  "fst (snd (pipe_run [P_write [1, 2, 3], P_read 2] new_pipe blank_sched)) = [1, 2]"
proof -
  obtain acc del q where r: "pipe_run [P_write [1, 2, 3], P_read 2] new_pipe blank_sched = (acc, del, q)" by (metis prod_cases3)
  moreover have "acc = [1, 2, 3] \<and> length del = 2"
    using r by (simp add: new_pipe_def pipe_write_def pipe_read_def Let_def PIPE_BUF_SIZE_def wq_init_def wq_wake_one_def numeral_2_eq_2) auto
  ultimately show ?thesis using pipe_byte_stream [OF r] by (cases del; cases "tl del") auto
qed

text \<open>Polling tells the truth: a pipe polls readable exactly when a read would not sleep, and writable exactly
when a write would not; a read that does not sleep returns no bytes only at end of file or for an empty request,
and a write fails only when the pipe is full and has no readers.\<close>

theorem pipe_poll_exact:
  "(pipe_poll_read p \<longleftrightarrow> fst (pipe_read n p s) \<noteq> Would_block) \<and>
   (pipe_poll_write p \<longleftrightarrow> fst (pipe_write bs p s) \<noteq> Would_block) \<and>
   ((\<exists>x. fst (pipe_read n p s) = Done 0 x) \<longleftrightarrow> (p_count p = 0 \<and> p_writers_open p = 0) \<or> (0 < p_count p \<and> n = 0)) \<and>
   ((\<exists>x. fst (pipe_write bs p s) = Done (- 1) x) \<longleftrightarrow> PIPE_BUF_SIZE \<le> p_count p \<and> p_readers_open p = 0)"
  by (auto simp: pipe_poll_read_def pipe_poll_write_def pipe_read_def pipe_write_def Let_def not_le split: prod.split)

end
