(* ===== verification/Block.thy ===== *)
theory Block
  imports Yam_Prelude
begin

text \<open>
  The block device core of \<^verbatim>\<open>src/src/drivers/block/block.c\<close>: a table of at most 16 device descriptors.
  The driver behind a descriptor is reached through its function pointers, here functions on the state \<open>'w\<close>
  of the hardware; a transfer buffer is a function from the byte offset.
\<close>

definition BLOCK_MAX_DEVICES :: nat where [yam_consts]: "BLOCK_MAX_DEVICES = 16"
definition BLOCK_DEVICE_NAME_MAX :: nat where [yam_consts]: "BLOCK_DEVICE_NAME_MAX = 32"

datatype block_device_kind =
  BLOCK_DEVICE_UNKNOWN | BLOCK_DEVICE_AHCI | BLOCK_DEVICE_NVME | BLOCK_DEVICE_VIRTIO | BLOCK_DEVICE_RAM

record 'w block_device =
  bd_name :: string
  bd_kind :: block_device_kind
  bd_sector_count :: nat
  bd_sector_size :: nat
  bd_read_only :: bool
  bd_read :: "('w \<Rightarrow> nat \<Rightarrow> nat \<Rightarrow> (nat \<Rightarrow> u8) \<Rightarrow> int \<times> (nat \<Rightarrow> u8)) option"
  bd_write :: "('w \<Rightarrow> nat \<Rightarrow> nat \<Rightarrow> (nat \<Rightarrow> u8) \<Rightarrow> int \<times> 'w) option"
  bd_flush :: "('w \<Rightarrow> int \<times> 'w) option"

record 'w block_core =
  g_block_devices :: "nat \<Rightarrow> 'w block_device"
  g_block_device_count :: nat

definition zero_block_device :: "'w block_device" where
  "zero_block_device = \<lparr> bd_name = [], bd_kind = BLOCK_DEVICE_UNKNOWN, bd_sector_count = 0, bd_sector_size = 0,
     bd_read_only = False, bd_read = None, bd_write = None, bd_flush = None \<rparr>"

definition block_init :: "'w block_core" where
  "block_init = \<lparr> g_block_devices = \<lambda>i. zero_block_device, g_block_device_count = 0 \<rparr>"

definition block_register :: "'w block_device \<Rightarrow> 'w block_core \<Rightarrow> int \<times> 'w block_core" where
  "block_register dev b =
     (if g_block_device_count b \<ge> BLOCK_MAX_DEVICES then (- 1, b)
      else if bd_name dev = [] \<or> bd_sector_size dev = 0 \<or> bd_sector_count dev = 0 \<or> bd_read dev = None then (- 1, b)
      else (int (g_block_device_count b),
            \<lparr> g_block_devices = (g_block_devices b)(g_block_device_count b :=
                dev\<lparr> bd_name := take (BLOCK_DEVICE_NAME_MAX - 1) (bd_name dev) \<rparr>),
              g_block_device_count = g_block_device_count b + 1 \<rparr>))"

definition block_device_count :: "'w block_core \<Rightarrow> nat" where
  "block_device_count b = g_block_device_count b"

definition block_device_at :: "nat \<Rightarrow> 'w block_core \<Rightarrow> nat option" where
  "block_device_at index b = (if index \<ge> g_block_device_count b then None else Some index)"

definition block_find :: "string \<Rightarrow> 'w block_core \<Rightarrow> nat option" where
  "block_find name b = scan (\<lambda>i. bd_name (g_block_devices b i) = name) 0 (g_block_device_count b)"

section \<open>The table\<close>

text \<open>Every registered device has a name, sectors, a sector size and a read operation.\<close>

definition block_wf :: "'w block_core \<Rightarrow> bool" where
  "block_wf b \<longleftrightarrow> g_block_device_count b \<le> BLOCK_MAX_DEVICES \<and>
     (\<forall>i < g_block_device_count b. let d = g_block_devices b i in
        bd_name d \<noteq> [] \<and> length (bd_name d) < BLOCK_DEVICE_NAME_MAX \<and>
        0 < bd_sector_size d \<and> 0 < bd_sector_count d \<and> bd_read d \<noteq> None)"

lemma block_init_wf: "block_wf block_init"
  by (simp add: block_wf_def block_init_def)

lemma block_register_wf:
  assumes "block_wf b" shows "block_wf (snd (block_register dev b))"
  using assms
  by (auto simp: block_wf_def block_register_def Let_def less_Suc_eq yam_consts)

lemma block_register_keeps:
  assumes "i < g_block_device_count b"
  shows "g_block_devices (snd (block_register dev b)) i = g_block_devices b i"
  using assms by (simp add: block_register_def)

lemma block_find_registered:
  assumes "block_register dev b = (int i, b')"
  shows "\<exists>j \<le> i. block_find (take 31 (bd_name dev)) b' = Some j \<and>
    (j = i \<or> block_find (take 31 (bd_name dev)) b = Some j)"
proof -
  have i: "i = g_block_device_count b" "g_block_device_count b' = Suc i"
    "bd_name (g_block_devices b' i) = take 31 (bd_name dev)"
    and old: "\<And>j. j < i \<Longrightarrow> g_block_devices b' j = g_block_devices b j"
    using assms by (auto simp: block_register_def yam_consts split: if_splits)
  obtain j where j: "block_find (take 31 (bd_name dev)) b' = Some j"
    using i(2,3) by (cases "block_find (take 31 (bd_name dev)) b'") (auto simp: block_find_def scan_None_iff)
  then have le: "j \<le> i" using i(2) by (auto simp: block_find_def scan_Some_iff)
  moreover have "block_find (take 31 (bd_name dev)) b = Some j" if "j < i"
    using j that i(1) old by (auto simp: block_find_def scan_Some_iff)
  ultimately show ?thesis using j by (cases "j = i") auto
qed

end
