(* ===== verification/BCache.thy ===== *)
theory BCache
  imports Block
begin

text \<open>
  The LRU block cache of \<^verbatim>\<open>src/src/fs/bcache.c\<close>: 256 pages of 4096 bytes, written back when a page is
  evicted or flushed.  Sector numbers are naturals, and the one addition that can leave 64 bits,
  \<^verbatim>\<open>current_lba += chunk_sectors\<close>, has its wrap-around written out.  A page's data is a function from the
  byte offset; the transfers stay inside the 4096 bytes for sector sizes up to 4096, which \<open>driver_ok\<close> asks.

  The abstract device is a byte array per device (\<open>bc_view\<close>): a read returns its bytes, a write updates them,
  and neither eviction nor flushing is visible.
\<close>

section \<open>Model\<close>

definition BCACHE_PAGE_SIZE :: nat where [yam_consts]: "BCACHE_PAGE_SIZE = 4096"
definition BCACHE_MAX_PAGES :: nat where [yam_consts]: "BCACHE_MAX_PAGES = 256"

record bcache_entry =
  e_dev :: "nat option"
  e_page_lba :: nat
  e_sectors :: nat
  e_last_use :: nat
  e_dirty :: bool
  e_data :: "nat \<Rightarrow> u8"

record 'w bcache =
  g_bcache :: "nat \<Rightarrow> bcache_entry"
  g_bcache_ticks :: nat
  bc_world :: 'w

definition upd_ent :: "nat \<Rightarrow> (bcache_entry \<Rightarrow> bcache_entry) \<Rightarrow> 'w bcache \<Rightarrow> 'w bcache" where
  "upd_ent i f st = st\<lparr> g_bcache := (g_bcache st)(i := f (g_bcache st i)) \<rparr>"

definition bcache_init :: "'w \<Rightarrow> 'w bcache" where
  "bcache_init w = \<lparr> g_bcache = \<lambda>i. \<lparr> e_dev = None, e_page_lba = 0, e_sectors = 0, e_last_use = 0, e_dirty = False,
     e_data = \<lambda>k. 0 \<rparr>, g_bcache_ticks = 0, bc_world = w \<rparr>"

text \<open>\<^verbatim>\<open>++g_bcache_ticks\<close>\<close>

definition next_tick :: "'w bcache \<Rightarrow> nat" where
  "next_tick st = (g_bcache_ticks st + 1) mod 2 ^ 64"

definition holds_page :: "'w bcache \<Rightarrow> nat \<Rightarrow> nat \<Rightarrow> nat \<Rightarrow> bool" where
  "holds_page st dev page_lba i \<longleftrightarrow> e_dev (g_bcache st i) = Some dev \<and> e_page_lba (g_bcache st i) = page_lba"

definition bcache_find :: "nat \<Rightarrow> nat \<Rightarrow> 'w bcache \<Rightarrow> nat option \<times> 'w bcache" where
  "bcache_find dev page_lba st =
     (case scan (holds_page st dev page_lba) 0 BCACHE_MAX_PAGES of
        Some i \<Rightarrow> (Some i, upd_ent i (\<lambda>e. e\<lparr> e_last_use := next_tick st \<rparr>) (st\<lparr> g_bcache_ticks := next_tick st \<rparr>))
      | None \<Rightarrow> (None, st))"

definition write_back :: "(nat \<Rightarrow> 'w block_device) \<Rightarrow> bcache_entry \<Rightarrow> nat \<Rightarrow> 'w \<Rightarrow> 'w" where
  "write_back devs e d w =
     (case bd_write (devs d) of
        Some wr \<Rightarrow> snd (wr w (e_page_lba e) (e_sectors e) (e_data e))
      | None \<Rightarrow> w)"

definition bcache_evict :: "(nat \<Rightarrow> 'w block_device) \<Rightarrow> nat \<Rightarrow> 'w bcache \<Rightarrow> 'w bcache" where
  "bcache_evict devs index st =
     (let e = g_bcache st index;
          st1 = (case e_dev e of
                   Some d \<Rightarrow> if e_dirty e
                             then upd_ent index (\<lambda>e. e\<lparr> e_dirty := False \<rparr>) (st\<lparr> bc_world := write_back devs e d (bc_world st) \<rparr>)
                             else st
                 | None \<Rightarrow> st)
      in upd_ent index (\<lambda>e. e\<lparr> e_dev := None \<rparr>) st1)"

text \<open>
  The loop of \<^verbatim>\<open>bcache_alloc\<close> from slot \<open>i\<close> with \<open>n\<close> slots left: a free slot, or the slot used longest ago.
\<close>

fun bcache_pick :: "(nat \<Rightarrow> bcache_entry) \<Rightarrow> nat \<Rightarrow> nat \<Rightarrow> nat \<Rightarrow> nat \<Rightarrow> nat + nat" where
  "bcache_pick ent 0 i oldest_idx oldest_time = Inr oldest_idx"
| "bcache_pick ent (Suc n) i oldest_idx oldest_time =
     (if e_dev (ent i) = None then Inl i
      else if e_last_use (ent i) < oldest_time then bcache_pick ent n (Suc i) i (e_last_use (ent i))
      else bcache_pick ent n (Suc i) oldest_idx oldest_time)"

definition bcache_alloc :: "(nat \<Rightarrow> 'w block_device) \<Rightarrow> nat \<Rightarrow> nat \<Rightarrow> nat \<Rightarrow> 'w bcache \<Rightarrow> nat \<times> 'w bcache" where
  "bcache_alloc devs dev page_lba sectors st =
     (case (case bcache_pick (g_bcache st) BCACHE_MAX_PAGES 0 0 (2 ^ 64 - 1) of
              Inl i \<Rightarrow> (i, st) | Inr i \<Rightarrow> (i, bcache_evict devs i st)) of (i, st1) \<Rightarrow>
        (i, upd_ent i (\<lambda>e. e\<lparr> e_dev := Some dev, e_page_lba := page_lba, e_sectors := sectors,
              e_last_use := next_tick st1, e_dirty := False \<rparr>) (st1\<lparr> g_bcache_ticks := next_tick st1 \<rparr>)))"

definition sectors_per_page :: "'w block_device \<Rightarrow> nat" where
  "sectors_per_page d = (let n = BCACHE_PAGE_SIZE div bd_sector_size d in if n = 0 then 1 else n)"

text \<open>
  The page for the next chunk of a transfer: found, or allocated and, when \<open>fill\<close>, read from the device;
  \<open>None\<close> when the device read fails (or the device has no read).
\<close>

definition bcache_load :: "(nat \<Rightarrow> 'w block_device) \<Rightarrow> nat \<Rightarrow> nat \<Rightarrow> bool \<Rightarrow> 'w bcache \<Rightarrow> nat option \<times> 'w bcache" where
  "bcache_load devs dev page_lba fill st =
     (case bcache_find dev page_lba st of
        (Some i, st1) \<Rightarrow> (Some i, st1)
      | (None, st1) \<Rightarrow>
          (case bcache_alloc devs dev page_lba (sectors_per_page (devs dev)) st1 of (i, st2) \<Rightarrow>
             if \<not> fill then (Some i, st2)
             else case bd_read (devs dev) of
                    None \<Rightarrow> (None, upd_ent i (\<lambda>e. e\<lparr> e_dev := None \<rparr>) st2)
                  | Some rd \<Rightarrow>
                      (case rd (bc_world st2) page_lba (sectors_per_page (devs dev)) (e_data (g_bcache st2 i)) of (r, buf) \<Rightarrow>
                         let st3 = upd_ent i (\<lambda>e. e\<lparr> e_data := buf \<rparr>) st2
                         in if r < 0 then (None, upd_ent i (\<lambda>e. e\<lparr> e_dev := None \<rparr>) st3) else (Some i, st3))))"

definition next_lba :: "nat \<Rightarrow> nat \<Rightarrow> nat" where
  "next_lba cur chunk = (cur + chunk) mod 2 ^ 64"

text \<open>The page, the offset in it and the sectors of the next chunk.\<close>

definition chunk_of :: "nat \<Rightarrow> nat \<Rightarrow> nat \<Rightarrow> nat \<times> nat \<times> nat" where
  "chunk_of spp cur remaining =
     (let page_lba = (cur div spp) * spp;
          off = cur - page_lba;
          chunk = (if spp - off > remaining then remaining else spp - off)
      in (page_lba, off, chunk))"

lemma sectors_per_page_pos [simp]: "0 < sectors_per_page d"
  by (simp add: sectors_per_page_def Let_def)

lemma chunk_of_pos:
  "chunk_of (sectors_per_page d) cur rem = (page, off, chunk) \<Longrightarrow> 0 < rem \<Longrightarrow> 0 < chunk"
  by (auto simp: chunk_of_def Let_def minus_div_mult_eq_mod split: if_splits)

function bcache_read_loop ::
  "(nat \<Rightarrow> 'w block_device) \<Rightarrow> nat \<Rightarrow> nat \<Rightarrow> nat \<Rightarrow> 'w bcache \<Rightarrow> bool \<times> u8 list \<times> 'w bcache" where
  "bcache_read_loop devs dev cur remaining st =
     (if remaining = 0 then (True, [], st)
      else case chunk_of (sectors_per_page (devs dev)) cur remaining of (page_lba, off, chunk) \<Rightarrow>
        (case bcache_load devs dev page_lba True st of
           (None, st1) \<Rightarrow> (False, [], st1)
         | (Some i, st1) \<Rightarrow>
             let ss = bd_sector_size (devs dev);
                 out = map (e_data (g_bcache st1 i)) [off * ss ..< off * ss + chunk * ss]
             in case bcache_read_loop devs dev (next_lba cur chunk) (remaining - chunk) st1 of
                  (ok, rest, st2) \<Rightarrow> (ok, out @ rest, st2)))"
  by pat_completeness auto
termination
  by (relation "measure (\<lambda>(devs, dev, cur, remaining, st). remaining)") (auto dest!: chunk_of_pos [OF sym])

definition bcache_read :: "(nat \<Rightarrow> 'w block_device) \<Rightarrow> nat \<Rightarrow> nat \<Rightarrow> nat \<Rightarrow> 'w bcache \<Rightarrow> int \<times> u8 list \<times> 'w bcache" where
  "bcache_read devs dev lba count st =
     (if bd_read (devs dev) = None then (- 1, [], st)
      else case bcache_read_loop devs dev lba count st of
             (ok, out, st') \<Rightarrow> (if ok then int count else - 1, out, st'))"

definition memcpy_at :: "(nat \<Rightarrow> u8) \<Rightarrow> nat \<Rightarrow> u8 list \<Rightarrow> nat \<Rightarrow> u8" where
  "memcpy_at dst off src = (\<lambda>k. if off \<le> k \<and> k < off + length src then src ! (k - off) else dst k)"

function bcache_write_loop ::
  "(nat \<Rightarrow> 'w block_device) \<Rightarrow> nat \<Rightarrow> nat \<Rightarrow> nat \<Rightarrow> u8 list \<Rightarrow> 'w bcache \<Rightarrow> bool \<times> 'w bcache" where
  "bcache_write_loop devs dev cur remaining buf st =
     (if remaining = 0 then (True, st)
      else case chunk_of (sectors_per_page (devs dev)) cur remaining of (page_lba, off, chunk) \<Rightarrow>
        (case bcache_load devs dev page_lba (chunk < sectors_per_page (devs dev)) st of
           (None, st1) \<Rightarrow> (False, st1)
         | (Some i, st1) \<Rightarrow>
             let ss = bd_sector_size (devs dev)
             in bcache_write_loop devs dev (next_lba cur chunk) (remaining - chunk) (drop (chunk * ss) buf)
                  (upd_ent i (\<lambda>e. e\<lparr> e_data := memcpy_at (e_data e) (off * ss) (take (chunk * ss) buf), e_dirty := True \<rparr>) st1)))"
  by pat_completeness auto
termination
  by (relation "measure (\<lambda>(devs, dev, cur, remaining, buf, st). remaining)") (auto dest!: chunk_of_pos [OF sym])

declare bcache_read_loop.simps [simp del] bcache_write_loop.simps [simp del]

definition bcache_write :: "(nat \<Rightarrow> 'w block_device) \<Rightarrow> nat \<Rightarrow> nat \<Rightarrow> nat \<Rightarrow> u8 list \<Rightarrow> 'w bcache \<Rightarrow> int \<times> 'w bcache" where
  "bcache_write devs dev lba count buf st =
     (if bd_write (devs dev) = None then (- 1, st)
      else case bcache_write_loop devs dev lba count buf st of
             (ok, st') \<Rightarrow> (if ok then int count else - 1, st'))"

definition flush_slot :: "(nat \<Rightarrow> 'w block_device) \<Rightarrow> nat option \<Rightarrow> nat \<Rightarrow> 'w bcache \<Rightarrow> 'w bcache" where
  "flush_slot devs dev i st =
     (let e = g_bcache st i
      in case e_dev e of
           Some d \<Rightarrow> if (dev = None \<or> dev = Some d) \<and> e_dirty e
                     then upd_ent i (\<lambda>e. e\<lparr> e_dirty := False \<rparr>) (st\<lparr> bc_world := write_back devs e d (bc_world st) \<rparr>)
                     else st
         | None \<Rightarrow> st)"

definition bcache_flush :: "(nat \<Rightarrow> 'w block_device) \<Rightarrow> nat option \<Rightarrow> 'w bcache \<Rightarrow> 'w bcache" where
  "bcache_flush devs dev st =
     (let st1 = fold (flush_slot devs dev) [0 ..< BCACHE_MAX_PAGES] st
      in case dev of
           Some d \<Rightarrow> (case bd_flush (devs d) of
                        Some fl \<Rightarrow> st1\<lparr> bc_world := snd (fl (bc_world st1)) \<rparr> | None \<Rightarrow> st1)
         | None \<Rightarrow> st1)"

section \<open>The abstract device\<close>

text \<open>
  What the cache relies on from a driver: \<open>view w d a\<close> is byte \<open>a\<close> of device \<open>d\<close> in hardware state \<open>w\<close>; a
  read that succeeds returns the bytes, a write inside the device succeeds and changes exactly the sectors
  written, and a flush changes none.
\<close>

definition driver_ok :: "(nat \<Rightarrow> 'w block_device) \<Rightarrow> ('w \<Rightarrow> nat \<Rightarrow> nat \<Rightarrow> u8) \<Rightarrow> nat \<Rightarrow> bool" where
  "driver_ok devs view d \<longleftrightarrow> (let dv = devs d; ss = bd_sector_size dv in
     0 < ss \<and> ss \<le> BCACHE_PAGE_SIZE \<and>
     (\<forall>rd w lba n buf. bd_read dv = Some rd \<longrightarrow> 0 \<le> fst (rd w lba n buf) \<longrightarrow>
        (\<forall>k < n * ss. snd (rd w lba n buf) k = view w d (lba * ss + k))) \<and>
     (\<forall>wr w lba n buf. bd_write dv = Some wr \<longrightarrow> lba + n \<le> bd_sector_count dv \<longrightarrow>
        0 \<le> fst (wr w lba n buf) \<and>
        (\<forall>d' a. view (snd (wr w lba n buf)) d' a =
           (if d' = d \<and> lba * ss \<le> a \<and> a < (lba + n) * ss then buf (a - lba * ss) else view w d' a))) \<and>
     (\<forall>fl w. bd_flush dv = Some fl \<longrightarrow> view (snd (fl w)) = view w))"

definition page_bytes :: "'w block_device \<Rightarrow> nat" where
  "page_bytes d = sectors_per_page d * bd_sector_size d"

definition page_of :: "'w block_device \<Rightarrow> nat \<Rightarrow> nat" where
  "page_of d a = (a div page_bytes d) * sectors_per_page d"

definition bc_view :: "(nat \<Rightarrow> 'w block_device) \<Rightarrow> ('w \<Rightarrow> nat \<Rightarrow> nat \<Rightarrow> u8) \<Rightarrow> 'w bcache \<Rightarrow> nat \<Rightarrow> nat \<Rightarrow> u8" where
  "bc_view devs view st d a =
     (case scan (holds_page st d (page_of (devs d) a)) 0 BCACHE_MAX_PAGES of
        Some i \<Rightarrow> e_data (g_bcache st i) (a mod page_bytes (devs d))
      | None \<Rightarrow> view (bc_world st) d a)"

definition entry_ok :: "(nat \<Rightarrow> 'w block_device) \<Rightarrow> ('w \<Rightarrow> nat \<Rightarrow> nat \<Rightarrow> u8) \<Rightarrow> nat \<Rightarrow> 'w \<Rightarrow> bcache_entry \<Rightarrow> bool" where
  "entry_ok devs view nd w e \<longleftrightarrow> (\<forall>d. e_dev e = Some d \<longrightarrow>
     d < nd \<and> e_sectors e = sectors_per_page (devs d) \<and> sectors_per_page (devs d) dvd e_page_lba e \<and>
     (if e_dirty e
      then bd_write (devs d) \<noteq> None \<and> e_page_lba e + sectors_per_page (devs d) \<le> bd_sector_count (devs d)
      else \<forall>k < page_bytes (devs d). e_data e k = view w d (e_page_lba e * bd_sector_size (devs d) + k)))"

definition bcache_wf :: "(nat \<Rightarrow> 'w block_device) \<Rightarrow> ('w \<Rightarrow> nat \<Rightarrow> nat \<Rightarrow> u8) \<Rightarrow> nat \<Rightarrow> 'w bcache \<Rightarrow> bool" where
  "bcache_wf devs view nd st \<longleftrightarrow>
     (\<forall>d < nd. driver_ok devs view d) \<and>
     (\<forall>i < BCACHE_MAX_PAGES. entry_ok devs view nd (bc_world st) (g_bcache st i)) \<and>
     (\<forall>i < BCACHE_MAX_PAGES. \<forall>j < BCACHE_MAX_PAGES. \<forall>d p. holds_page st d p i \<longrightarrow> holds_page st d p j \<longrightarrow> i = j)"

section \<open>Cleaning, dropping and installing a slot\<close>

lemma page_bytes_pos: "driver_ok devs view d \<Longrightarrow> 0 < page_bytes (devs d)"
  by (simp add: driver_ok_def page_bytes_def Let_def)

lemma page_start:
  fixes p spp ss :: nat
  assumes "spp dvd p" "0 < spp"
  shows "p * ss = (p div spp) * (spp * ss)"
  using assms by (metis dvd_div_mult_self mult.assoc)

lemma div_eq_range:
  fixes a n q :: nat
  assumes "0 < n"
  shows "a div n = q \<longleftrightarrow> q * n \<le> a \<and> a < (q + 1) * n"
proof
  assume "a div n = q"
  then have "a = q * n + a mod n" by auto
  then show "q * n \<le> a \<and> a < (q + 1) * n" using assms mod_less_divisor [OF assms, of a] by simp
qed (auto intro: div_nat_eqI simp: mult.commute)

lemma on_page_iff:
  assumes "driver_ok devs view d" "sectors_per_page (devs d) dvd p"
  shows "page_of (devs d) a = p \<longleftrightarrow>
    p * bd_sector_size (devs d) \<le> a \<and> a < (p + sectors_per_page (devs d)) * bd_sector_size (devs d)"
proof -
  let ?n = "page_bytes (devs d)" and ?s = "sectors_per_page (devs d)"
  obtain q where q: "p = q * ?s" using assms(2) by (metis dvdE mult.commute)
  have n: "0 < ?n" by (rule page_bytes_pos [OF assms(1)])
  have "page_of (devs d) a = p \<longleftrightarrow> a div ?n = q" using sectors_per_page_pos [of "devs d"] by (simp add: page_of_def q del: sectors_per_page_pos)
  also have "\<dots> \<longleftrightarrow> q * ?n \<le> a \<and> a < (q + 1) * ?n"
    by (rule div_eq_range [OF n])
  also have "q * ?n = p * bd_sector_size (devs d)" by (simp add: q page_bytes_def)
  also have "(q + 1) * ?n = (p + ?s) * bd_sector_size (devs d)" by (simp add: q page_bytes_def algebra_simps)
  finally show ?thesis .
qed

lemma on_page_offset:
  assumes "driver_ok devs view d" "page_of (devs d) a = p"
  shows "a = p * bd_sector_size (devs d) + a mod page_bytes (devs d)"
proof -
  have "p * bd_sector_size (devs d) = (a div page_bytes (devs d)) * page_bytes (devs d)"
    using assms(2) by (auto simp: page_of_def page_bytes_def)
  then show ?thesis by simp
qed

lemma page_of_dvd: "sectors_per_page (devs d) dvd page_of (devs d) a"
  by (simp add: page_of_def)

lemma page_of_offset:
  assumes "driver_ok devs view d" "sectors_per_page (devs d) dvd p" "k < page_bytes (devs d)"
  shows "page_of (devs d) (p * bd_sector_size (devs d) + k) = p" "(p * bd_sector_size (devs d) + k) mod page_bytes (devs d) = k"
proof -
  show "page_of (devs d) (p * bd_sector_size (devs d) + k) = p"
    using on_page_iff [OF assms(1,2)] assms(3) by (simp add: page_bytes_def algebra_simps)
  have "p * bd_sector_size (devs d) = (p div sectors_per_page (devs d)) * page_bytes (devs d)"
    using page_start [OF assms(2) sectors_per_page_pos] by (simp add: page_bytes_def)
  then show "(p * bd_sector_size (devs d) + k) mod page_bytes (devs d) = k" using assms(3) by simp
qed

lemma bcache_wfD:
  assumes "bcache_wf devs view nd st"
  shows "d < nd \<Longrightarrow> driver_ok devs view d"
    and "i < BCACHE_MAX_PAGES \<Longrightarrow> entry_ok devs view nd (bc_world st) (g_bcache st i)"
    and "\<lbrakk>i < BCACHE_MAX_PAGES; j < BCACHE_MAX_PAGES; holds_page st d p i; holds_page st d p j\<rbrakk> \<Longrightarrow> i = j"
  using assms unfolding bcache_wf_def by blast+

lemma scan_unique:
  assumes "bcache_wf devs view nd st" "i < BCACHE_MAX_PAGES" "holds_page st d p i"
  shows "scan (holds_page st d p) 0 BCACHE_MAX_PAGES = Some i"
  unfolding scan_Some_iff using assms bcache_wfD(3) [OF assms(1)] by (metis le0 less_trans nat_neq_iff)

lemma bc_view_hit:
  assumes "bcache_wf devs view nd st" "i < BCACHE_MAX_PAGES" "holds_page st d (page_of (devs d) a) i"
  shows "bc_view devs view st d a = e_data (g_bcache st i) (a mod page_bytes (devs d))"
  by (simp add: bc_view_def scan_unique [OF assms])

lemma bc_view_miss:
  assumes "\<And>i. i < BCACHE_MAX_PAGES \<Longrightarrow> \<not> holds_page st d (page_of (devs d) a) i"
  shows "bc_view devs view st d a = view (bc_world st) d a"
proof -
  have "scan (holds_page st d (page_of (devs d) a)) 0 BCACHE_MAX_PAGES = None" unfolding scan_None_iff using assms by blast
  then show ?thesis by (simp add: bc_view_def)
qed

lemma bc_view_cases [case_names hit miss]:
  obtains (hit) i where "i < BCACHE_MAX_PAGES" "holds_page st d p i"
  | (miss) "\<And>i. i < BCACHE_MAX_PAGES \<Longrightarrow> \<not> holds_page st d p i"
  by blast

lemma write_back_view:
  assumes "driver_ok devs view d" "entry_ok devs view nd w e" "e_dev e = Some d" "e_dirty e"
  shows "view (write_back devs e d w) d' a =
    (if d' = d \<and> page_of (devs d) a = e_page_lba e then e_data e (a mod page_bytes (devs d)) else view w d' a)"
proof -
  have e: "e_sectors e = sectors_per_page (devs d)" "sectors_per_page (devs d) dvd e_page_lba e"
    "e_page_lba e + sectors_per_page (devs d) \<le> bd_sector_count (devs d)" "bd_write (devs d) \<noteq> None"
    using assms(2-4) by (auto simp: entry_ok_def)
  obtain wr where wr: "bd_write (devs d) = Some wr" using e(4) by auto
  have "view (write_back devs e d w) d' a =
    (if d' = d \<and> page_of (devs d) a = e_page_lba e then e_data e (a - e_page_lba e * bd_sector_size (devs d)) else view w d' a)"
    using assms(1) e(3) wr unfolding on_page_iff [OF assms(1) e(2)]
    by (simp add: write_back_def driver_ok_def Let_def e(1))
  moreover have "a - e_page_lba e * bd_sector_size (devs d) = a mod page_bytes (devs d)" if "page_of (devs d) a = e_page_lba e"
    using on_page_offset [OF assms(1) that] by simp
  ultimately show ?thesis by auto
qed

definition clean_slot :: "(nat \<Rightarrow> 'w block_device) \<Rightarrow> nat \<Rightarrow> nat \<Rightarrow> 'w bcache \<Rightarrow> 'w bcache" where
  "clean_slot devs d i st =
     upd_ent i (\<lambda>e. e\<lparr> e_dirty := False \<rparr>) (st\<lparr> bc_world := write_back devs (g_bcache st i) d (bc_world st) \<rparr>)"

lemma holds_page_clean [simp]: "holds_page (clean_slot devs d i st) = holds_page st"
  by (auto simp: holds_page_def clean_slot_def upd_ent_def fun_eq_iff)

lemma clean_slot_ok:
  assumes wf: "bcache_wf devs view nd st" and i: "i < BCACHE_MAX_PAGES" "e_dev (g_bcache st i) = Some d" "e_dirty (g_bcache st i)"
  shows "bcache_wf devs view nd (clean_slot devs d i st)"
    and "bc_view devs view (clean_slot devs d i st) = bc_view devs view st"
proof -
  let ?e = "g_bcache st i" and ?w = "write_back devs (g_bcache st i) d (bc_world st)"
  have ei: "entry_ok devs view nd (bc_world st) ?e" using bcache_wfD(2) [OF wf i(1)] .
  then have d: "d < nd" and dvd: "sectors_per_page (devs d) dvd e_page_lba ?e" using i(2) by (auto simp: entry_ok_def)
  have drv: "driver_ok devs view d" using bcache_wfD(1) [OF wf d] .
  note wb = write_back_view [OF drv ei i(2,3)]
  have hi: "holds_page st d (e_page_lba ?e) i" using i(2) by (simp add: holds_page_def)
  have ent: "g_bcache (clean_slot devs d i st) j = (if j = i then ?e\<lparr> e_dirty := False \<rparr> else g_bcache st j)" for j
    by (simp add: clean_slot_def upd_ent_def)
  have world: "bc_world (clean_slot devs d i st) = ?w" by (simp add: clean_slot_def upd_ent_def)
  have "entry_ok devs view nd ?w (g_bcache (clean_slot devs d i st) j)" if j: "j < BCACHE_MAX_PAGES" for j
  proof (cases "j = i")
    case True
    have "view ?w d (e_page_lba ?e * bd_sector_size (devs d) + k) = e_data ?e k" if "k < page_bytes (devs d)" for k
      by (simp add: wb page_of_offset [OF drv dvd that])
    then show ?thesis using ei i(2) True by (simp add: entry_ok_def ent)
  next
    case False
    have other: "\<not> holds_page st d (e_page_lba ?e) j" using bcache_wfD(3) [OF wf j i(1) _ hi] False by blast
    have ej: "entry_ok devs view nd (bc_world st) (g_bcache st j)" using bcache_wfD(2) [OF wf j] .
    have "view ?w d' (e_page_lba (g_bcache st j) * bd_sector_size (devs d') + k) =
        view (bc_world st) d' (e_page_lba (g_bcache st j) * bd_sector_size (devs d') + k)"
      if dj: "e_dev (g_bcache st j) = Some d'" and k: "k < page_bytes (devs d')" for d' k
    proof -
      have "d' < nd" "sectors_per_page (devs d') dvd e_page_lba (g_bcache st j)" using ej dj by (auto simp: entry_ok_def)
      then have "page_of (devs d') (e_page_lba (g_bcache st j) * bd_sector_size (devs d') + k) = e_page_lba (g_bcache st j)"
        using page_of_offset(1) [OF bcache_wfD(1) [OF wf] _ k] by blast
      moreover have "\<not> (d' = d \<and> e_page_lba (g_bcache st j) = e_page_lba ?e)" using other dj by (auto simp: holds_page_def)
      ultimately show ?thesis unfolding wb by auto
    qed
    then show ?thesis using ej False by (simp add: entry_ok_def ent)
  qed
  then show "bcache_wf devs view nd (clean_slot devs d i st)"
    using wf unfolding bcache_wf_def world holds_page_clean by blast
  show "bc_view devs view (clean_slot devs d i st) = bc_view devs view st"
  proof (intro ext)
    fix d' a
    show "bc_view devs view (clean_slot devs d i st) d' a = bc_view devs view st d' a"
    proof (cases "scan (holds_page st d' (page_of (devs d') a)) 0 BCACHE_MAX_PAGES")
      case None
      then have "\<not> holds_page st d' (page_of (devs d') a) i" using i(1) by (auto simp: scan_None_iff)
      then show ?thesis using None i(2) by (auto simp: bc_view_def world wb holds_page_def)
    qed (auto simp: bc_view_def ent)
  qed
qed

definition drop_slot :: "nat \<Rightarrow> 'w bcache \<Rightarrow> 'w bcache" where
  "drop_slot i st = upd_ent i (\<lambda>e. e\<lparr> e_dev := None \<rparr>) st"

lemma drop_slot_ok:
  assumes wf: "bcache_wf devs view nd st" and i: "i < BCACHE_MAX_PAGES" "\<not> e_dirty (g_bcache st i) \<or> e_dev (g_bcache st i) = None"
  shows "bcache_wf devs view nd (drop_slot i st)"
    and "bc_view devs view (drop_slot i st) = bc_view devs view st"
proof -
  have ent: "g_bcache (drop_slot i st) j = (if j = i then (g_bcache st i)\<lparr> e_dev := None \<rparr> else g_bcache st j)" for j
    by (simp add: drop_slot_def upd_ent_def)
  have holds: "holds_page (drop_slot i st) d p j \<longleftrightarrow> j \<noteq> i \<and> holds_page st d p j" for d p j
    by (simp add: holds_page_def ent)
  have world: "bc_world (drop_slot i st) = bc_world st" by (simp add: drop_slot_def upd_ent_def)
  show wf': "bcache_wf devs view nd (drop_slot i st)"
    unfolding bcache_wf_def
  proof (intro conjI allI impI)
    show "driver_ok devs view d" if "d < nd" for d using bcache_wfD(1) [OF wf that] .
    show "entry_ok devs view nd (bc_world (drop_slot i st)) (g_bcache (drop_slot i st) j)" if "j < BCACHE_MAX_PAGES" for j
      using bcache_wfD(2) [OF wf that] by (cases "j = i") (simp_all add: ent world, simp add: entry_ok_def)
    show "j = k" if "j < BCACHE_MAX_PAGES" "k < BCACHE_MAX_PAGES"
      "holds_page (drop_slot i st) d p j" "holds_page (drop_slot i st) d p k" for j k d p
      using bcache_wfD(3) [OF wf that(1,2), of d p] that(3,4) by (simp add: holds)
  qed
  show "bc_view devs view (drop_slot i st) = bc_view devs view st"
  proof (intro ext)
    fix d a
    let ?p = "page_of (devs d) a"
    show "bc_view devs view (drop_slot i st) d a = bc_view devs view st d a"
    proof (cases rule: bc_view_cases [of st d ?p])
      case (hit j)
      show ?thesis
      proof (cases "j = i")
        case False
        then show ?thesis using bc_view_hit [OF wf hit] bc_view_hit [OF wf' hit(1)] hit(2) by (simp add: holds ent)
      next
        case True
        then have "bc_view devs view (drop_slot i st) d a = view (bc_world st) d a"
          using bcache_wfD(3) [OF wf hit(1) _ hit(2)] by (subst bc_view_miss) (auto simp: holds world)
        moreover have e: "e_dev (g_bcache st i) = Some d" "e_page_lba (g_bcache st i) = ?p"
          using hit(2) True by (simp_all add: holds_page_def)
        moreover have eo: "entry_ok devs view nd (bc_world st) (g_bcache st i)" using bcache_wfD(2) [OF wf i(1)] .
        moreover have "driver_ok devs view d" using eo e(1) bcache_wfD(1) [OF wf] by (auto simp: entry_ok_def)
        note drv = this
        have "e_data (g_bcache st i) (a mod page_bytes (devs d)) = view (bc_world st) d (?p * bd_sector_size (devs d) + a mod page_bytes (devs d))"
          using eo e i(2) page_bytes_pos [OF drv] by (auto simp: entry_ok_def)
        then have "e_data (g_bcache st i) (a mod page_bytes (devs d)) = view (bc_world st) d a"
          using on_page_offset [OF drv refl, of a] by simp
        ultimately show ?thesis using bc_view_hit [OF wf hit] True by simp
      qed
    next
      case miss
      then show ?thesis by (simp add: bc_view_miss holds world)
    qed
  qed
qed

lemma set_slot_ok:
  assumes wf: "bcache_wf devs view nd st" and i: "i < BCACHE_MAX_PAGES"
    and slot: "e_dev (g_bcache st i) = None \<or> holds_page st d p i"
    and others: "\<And>j. j < BCACHE_MAX_PAGES \<Longrightarrow> j \<noteq> i \<Longrightarrow> \<not> holds_page st d p j"
    and st': "g_bcache st' = (g_bcache st)(i := e)" "bc_world st' = bc_world st"
    and e: "e_dev e = Some d" "e_page_lba e = p" "entry_ok devs view nd (bc_world st) e"
  shows "bcache_wf devs view nd st'"
    and "bc_view devs view st' d' a =
      (if d' = d \<and> page_of (devs d) a = p then e_data e (a mod page_bytes (devs d)) else bc_view devs view st d' a)"
proof -
  have holds: "holds_page st' d' q j \<longleftrightarrow> (if j = i then d' = d \<and> q = p else holds_page st d' q j)" for d' q j
    using e by (auto simp: holds_page_def st')
  show wf': "bcache_wf devs view nd st'"
    unfolding bcache_wf_def
  proof (intro conjI allI impI)
    show "driver_ok devs view d" if "d < nd" for d using bcache_wfD(1) [OF wf that] .
    show "entry_ok devs view nd (bc_world st') (g_bcache st' j)" if "j < BCACHE_MAX_PAGES" for j
      using bcache_wfD(2) [OF wf that] e(3) by (simp add: st')
    show "j = k" if "j < BCACHE_MAX_PAGES" "k < BCACHE_MAX_PAGES" "holds_page st' d' q j" "holds_page st' d' q k" for j k d' q
      using bcache_wfD(3) [OF wf that(1,2), of d' q] that others [OF that(1)] others [OF that(2)]
      by (auto simp: holds split: if_splits)
  qed
  show "bc_view devs view st' d' a =
      (if d' = d \<and> page_of (devs d) a = p then e_data e (a mod page_bytes (devs d)) else bc_view devs view st d' a)"
  proof (cases "d' = d \<and> page_of (devs d) a = p")
    case True
    then show ?thesis using bc_view_hit [OF wf' i, of d a] by (simp add: holds st')
  next
    case False
    have ni: "\<not> holds_page st d' (page_of (devs d') a) i" using slot False by (auto simp: holds_page_def)
    show ?thesis
    proof (cases rule: bc_view_cases [of st d' "page_of (devs d') a"])
      case (hit j)
      then have "j \<noteq> i" using ni by auto
      then show ?thesis using bc_view_hit [OF wf hit] bc_view_hit [OF wf' hit(1), of d' a] hit(2) False by (auto simp: holds st')
    next
      case miss
      then have "bc_view devs view st' d' a = view (bc_world st') d' a" using False by (intro bc_view_miss) (auto simp: holds)
      then show ?thesis using False bc_view_miss [where devs = devs and view = view and st = st and d = d' and a = a] miss by (auto simp: st')
    qed
  qed
qed

section \<open>Finding, evicting and allocating\<close>

lemma BCACHE_MAX_PAGES_pos [simp]: "0 < BCACHE_MAX_PAGES"
  by (simp add: BCACHE_MAX_PAGES_def)

lemma ticks_irrelevant:
  "bcache_wf devs view nd (st\<lparr> g_bcache_ticks := t \<rparr>) = bcache_wf devs view nd st"
  "bc_view devs view (st\<lparr> g_bcache_ticks := t \<rparr>) = bc_view devs view st"
proof -
  have h: "holds_page (st\<lparr> g_bcache_ticks := t \<rparr>) = holds_page st" by (auto simp: holds_page_def fun_eq_iff)
  show "bcache_wf devs view nd (st\<lparr> g_bcache_ticks := t \<rparr>) = bcache_wf devs view nd st"
    by (simp add: bcache_wf_def h)
  show "bc_view devs view (st\<lparr> g_bcache_ticks := t \<rparr>) = bc_view devs view st"
    by (auto simp: bc_view_def h fun_eq_iff split: option.split)
qed

lemma touch_slot_ok:
  fixes t :: nat
  assumes wf: "bcache_wf devs view nd st" and i: "i < BCACHE_MAX_PAGES" "holds_page st d p i"
  defines "st' \<equiv> upd_ent i (\<lambda>e. e\<lparr> e_last_use := t \<rparr>) st"
  shows "bcache_wf devs view nd st'" "bc_view devs view st' = bc_view devs view st" "holds_page st' = holds_page st"
proof -
  let ?e = "(g_bcache st i)\<lparr> e_last_use := t \<rparr>"
  have s: "g_bcache st' = (g_bcache st)(i := ?e)" "bc_world st' = bc_world st"
    by (simp_all add: st'_def upd_ent_def)
  have e: "e_dev ?e = Some d" "e_page_lba ?e = p" using i(2) by (simp_all add: holds_page_def)
  have ok: "entry_ok devs view nd (bc_world st) ?e" using bcache_wfD(2) [OF wf i(1)] by (simp add: entry_ok_def)
  have others: "\<not> holds_page st d p j" if "j < BCACHE_MAX_PAGES" "j \<noteq> i" for j
    using bcache_wfD(3) [OF wf i(1) that(1) i(2)] that(2) by blast
  note set = set_slot_ok [OF wf i(1) disjI2 [OF i(2)] others s e ok]
  show "bcache_wf devs view nd st'" by (rule set(1))
  show "bc_view devs view st' = bc_view devs view st"
    using bc_view_hit [OF wf i(1), of d] i(2) by (auto simp: set(2) fun_eq_iff)
  show "holds_page st' = holds_page st" by (auto simp: holds_page_def s fun_eq_iff)
qed

lemma bcache_find_ok:
  assumes "bcache_wf devs view nd st" "bcache_find d p st = (r, st')"
  shows "bcache_wf devs view nd st' \<and> bc_view devs view st' = bc_view devs view st \<and>
    (case r of Some i \<Rightarrow> i < BCACHE_MAX_PAGES \<and> holds_page st' d p i
             | None \<Rightarrow> st' = st \<and> (\<forall>j < BCACHE_MAX_PAGES. \<not> holds_page st d p j))"
proof (cases "scan (holds_page st d p) 0 BCACHE_MAX_PAGES")
  case None
  then have "r = None" "st' = st" using assms(2) by (simp_all add: bcache_find_def)
  then show ?thesis using assms(1) None by (simp add: scan_None_iff)
next
  case (Some i)
  then have i: "i < BCACHE_MAX_PAGES" "holds_page st d p i" by (auto dest: scan_SomeD)
  let ?s = "st\<lparr> g_bcache_ticks := next_tick st \<rparr>"
  have wf: "bcache_wf devs view nd ?s" and h: "holds_page ?s d p i"
    using assms(1) i(2) by (simp_all add: ticks_irrelevant holds_page_def)
  have "r = Some i" "st' = upd_ent i (\<lambda>e. e\<lparr> e_last_use := next_tick st \<rparr>) ?s"
    using assms(2) by (simp_all add: bcache_find_def Some)
  then show ?thesis
    using touch_slot_ok [OF wf i(1) h, of "next_tick st"] h i(1) by (simp add: ticks_irrelevant)
qed

lemma bcache_evict_alt:
  "bcache_evict devs i st = drop_slot i (case e_dev (g_bcache st i) of
     Some d \<Rightarrow> if e_dirty (g_bcache st i) then clean_slot devs d i st else st | None \<Rightarrow> st)"
  by (simp add: bcache_evict_def drop_slot_def clean_slot_def Let_def cong: option.case_cong if_cong)

lemma bcache_evict_ok:
  assumes wf: "bcache_wf devs view nd st" and i: "i < BCACHE_MAX_PAGES"
  shows "bcache_wf devs view nd (bcache_evict devs i st) \<and> bc_view devs view (bcache_evict devs i st) = bc_view devs view st \<and>
    e_dev (g_bcache (bcache_evict devs i st) i) = None \<and>
    (\<forall>d p j. holds_page (bcache_evict devs i st) d p j \<longrightarrow> holds_page st d p j)"
proof -
  define s1 where "s1 = (case e_dev (g_bcache st i) of
     Some d \<Rightarrow> if e_dirty (g_bcache st i) then clean_slot devs d i st else st | None \<Rightarrow> st)"
  have s1: "bcache_wf devs view nd s1 \<and> bc_view devs view s1 = bc_view devs view st \<and> holds_page s1 = holds_page st \<and>
      (\<not> e_dirty (g_bcache s1 i) \<or> e_dev (g_bcache s1 i) = None)"
  proof (cases "e_dev (g_bcache st i)")
    case (Some d)
    show ?thesis
    proof (cases "e_dirty (g_bcache st i)")
      case True
      have "\<not> e_dirty (g_bcache (clean_slot devs d i st) i)" by (simp add: clean_slot_def upd_ent_def)
      then show ?thesis using clean_slot_ok [OF wf i Some True] True Some by (simp add: s1_def)
    qed (use wf Some in \<open>simp add: s1_def\<close>)
  qed (use wf in \<open>simp add: s1_def\<close>)
  have d: "e_dev (g_bcache (drop_slot i s1) i) = None" "\<And>d p j. holds_page (drop_slot i s1) d p j \<Longrightarrow> holds_page s1 d p j"
    by (auto simp: drop_slot_def upd_ent_def holds_page_def split: if_splits)
  show ?thesis
    using drop_slot_ok [of devs view nd s1 i] s1 i d unfolding bcache_evict_alt s1_def [symmetric] by auto
qed

lemma bcache_pick_bound:
  "oi < i + n \<Longrightarrow> bcache_pick ent n i oi ot = r \<Longrightarrow>
    (case r of Inl k \<Rightarrow> k < i + n \<and> e_dev (ent k) = None | Inr k \<Rightarrow> k < i + n)"
  by (induction ent n i oi ot rule: bcache_pick.induct) (auto split: if_splits sum.splits)

lemma bcache_pick_oldest:
  assumes "bcache_pick ent n i oi ot = Inr k" "oi \<le> i" "\<And>j. j < i \<Longrightarrow> ot \<le> e_last_use (ent j)"
    "\<And>j. j < i \<Longrightarrow> e_dev (ent j) \<noteq> None" "i \<noteq> 0 \<Longrightarrow> oi < i \<and> ot = e_last_use (ent oi)"
    "i = 0 \<Longrightarrow> \<forall>j < n. e_last_use (ent j) < ot"
  shows "\<forall>j < i + n. e_dev (ent j) \<noteq> None \<and> (0 < i + n \<longrightarrow> e_last_use (ent k) \<le> e_last_use (ent j))"
  using assms
proof (induction ent n i oi ot rule: bcache_pick.induct)
  case (1 ent i oi ot)
  then show ?case by auto
next
  case (2 ent n i oi ot)
  have used: "e_dev (ent i) \<noteq> None" using 2(3) by (auto split: if_splits)
  show ?case
  proof (cases "e_last_use (ent i) < ot")
    case True
    then have "\<forall>j<Suc i + n. e_dev (ent j) \<noteq> None \<and> (0 < Suc i + n \<longrightarrow> e_last_use (ent k) \<le> e_last_use (ent j))"
      using 2(3-) used less_le_trans [OF True] by (intro 2(1)) (auto simp: less_Suc_eq intro: less_imp_le)
    then show ?thesis by simp
  next
    case False
    have "i \<noteq> 0"
    proof
      assume "i = 0"
      then show False using 2(8) False by auto
    qed
    then have "\<forall>j<Suc i + n. e_dev (ent j) \<noteq> None \<and> (0 < Suc i + n \<longrightarrow> e_last_use (ent k) \<le> e_last_use (ent j))"
      using 2(3-) used False by (intro 2(2)) (auto simp: less_Suc_eq)
    then show ?thesis by simp
  qed
qed

lemma bcache_alloc_ok:
  assumes wf: "bcache_wf devs view nd st" and a: "bcache_alloc devs d p n st = (i, st2)"
  obtains st0 where "bcache_wf devs view nd st0" "bc_view devs view st0 = bc_view devs view st" "i < BCACHE_MAX_PAGES"
    "e_dev (g_bcache st0 i) = None" "\<And>d p j. holds_page st0 d p j \<Longrightarrow> holds_page st d p j" "bc_world st2 = bc_world st0"
    "g_bcache st2 = (g_bcache st0)(i := (g_bcache st0 i)\<lparr> e_dev := Some d, e_page_lba := p, e_sectors := n,
       e_last_use := next_tick st0, e_dirty := False \<rparr>)"
proof -
  let ?pick = "bcache_pick (g_bcache st) BCACHE_MAX_PAGES 0 0 (2 ^ 64 - 1)"
  have b: "case ?pick of Inl k \<Rightarrow> k < BCACHE_MAX_PAGES \<and> e_dev (g_bcache st k) = None | Inr k \<Rightarrow> k < BCACHE_MAX_PAGES"
    using bcache_pick_bound [of 0 0 BCACHE_MAX_PAGES, OF _ refl, of "g_bcache st" "2 ^ 64 - 1"] unfolding add_0 by simp
  show thesis
  proof (cases ?pick)
    case (Inl k)
    then have "k = i" and st2: "g_bcache st2 = (g_bcache st)(i := (g_bcache st i)\<lparr> e_dev := Some d, e_page_lba := p, e_sectors := n,
       e_last_use := next_tick st, e_dirty := False \<rparr>)" "bc_world st2 = bc_world st"
      using a by (auto simp: bcache_alloc_def upd_ent_def)
    then show thesis using that [of st] wf b Inl by simp
  next
    case (Inr k)
    then have k: "k = i" and st2: "g_bcache st2 = (g_bcache (bcache_evict devs i st))(i := (g_bcache (bcache_evict devs i st) i)\<lparr> e_dev := Some d, e_page_lba := p, e_sectors := n,
       e_last_use := next_tick (bcache_evict devs i st), e_dirty := False \<rparr>)" "bc_world st2 = bc_world (bcache_evict devs i st)"
      using a by (auto simp: bcache_alloc_def upd_ent_def)
    have i: "i < BCACHE_MAX_PAGES" using b Inr k by simp
    show thesis
      by (rule that [of "bcache_evict devs i st"]) (use bcache_evict_ok [OF wf i] st2 i in simp_all)
  qed
qed

section \<open>Loading a page\<close>

text \<open>
  The page is in slot \<open>i\<close>, which was free or held it before, over a cache \<open>st0\<close> with the old contents.
\<close>

definition page_in :: "(nat \<Rightarrow> 'w block_device) \<Rightarrow> ('w \<Rightarrow> nat \<Rightarrow> nat \<Rightarrow> u8) \<Rightarrow> nat \<Rightarrow> 'w bcache \<Rightarrow> nat \<Rightarrow> nat \<Rightarrow> nat \<Rightarrow> 'w bcache \<Rightarrow> bool" where
  "page_in devs view nd st d p i st' \<longleftrightarrow> i < BCACHE_MAX_PAGES \<and>
     (\<exists>st0. bcache_wf devs view nd st0 \<and> bc_view devs view st0 = bc_view devs view st \<and>
        (e_dev (g_bcache st0 i) = None \<or> holds_page st0 d p i) \<and>
        (\<forall>j < BCACHE_MAX_PAGES. j \<noteq> i \<longrightarrow> \<not> holds_page st0 d p j) \<and>
        (\<exists>e. g_bcache st' = (g_bcache st0)(i := e)) \<and> bc_world st' = bc_world st0) \<and>
     holds_page st' d p i \<and> e_sectors (g_bcache st' i) = sectors_per_page (devs d)"

lemma page_in_set:
  assumes pi: "page_in devs view nd st d p i st'" and e: "e_dev e = Some d" "e_page_lba e = p"
    "entry_ok devs view nd (bc_world st') e"
  shows "bcache_wf devs view nd (st'\<lparr> g_bcache := (g_bcache st')(i := e) \<rparr>)"
    and "bc_view devs view (st'\<lparr> g_bcache := (g_bcache st')(i := e) \<rparr>) d' a =
      (if d' = d \<and> page_of (devs d) a = p then e_data e (a mod page_bytes (devs d)) else bc_view devs view st d' a)"
proof -
  obtain st0 e0 where st0: "bcache_wf devs view nd st0" "bc_view devs view st0 = bc_view devs view st"
    "e_dev (g_bcache st0 i) = None \<or> holds_page st0 d p i" "\<And>j. j < BCACHE_MAX_PAGES \<Longrightarrow> j \<noteq> i \<Longrightarrow> \<not> holds_page st0 d p j"
    "g_bcache st' = (g_bcache st0)(i := e0)" "bc_world st' = bc_world st0" and i: "i < BCACHE_MAX_PAGES"
    using pi unfolding page_in_def by blast
  have s: "g_bcache (st'\<lparr> g_bcache := (g_bcache st')(i := e) \<rparr>) = (g_bcache st0)(i := e)"
    "bc_world (st'\<lparr> g_bcache := (g_bcache st')(i := e) \<rparr>) = bc_world st0" using st0(5,6) by simp_all
  have ok: "entry_ok devs view nd (bc_world st0) e" using e(3) st0(6) by simp
  note set = set_slot_ok [OF st0(1) i st0(3,4) s e(1,2) ok]
  show "bcache_wf devs view nd (st'\<lparr> g_bcache := (g_bcache st')(i := e) \<rparr>)" by (rule set(1))
  show "bc_view devs view (st'\<lparr> g_bcache := (g_bcache st')(i := e) \<rparr>) d' a =
      (if d' = d \<and> page_of (devs d) a = p then e_data e (a mod page_bytes (devs d)) else bc_view devs view st d' a)"
    using set(2) st0(2) by simp
qed

lemma page_in_hit:
  assumes "bcache_wf devs view nd st'" "bc_view devs view st' = bc_view devs view st" "i < BCACHE_MAX_PAGES" "holds_page st' d p i"
  shows "page_in devs view nd st d p i st'"
proof -
  have "\<forall>j < BCACHE_MAX_PAGES. j \<noteq> i \<longrightarrow> \<not> holds_page st' d p j" using bcache_wfD(3) [OF assms(1,3)] assms(4) by blast
  moreover have "g_bcache st' = (g_bcache st')(i := g_bcache st' i)" by simp
  moreover have "e_sectors (g_bcache st' i) = sectors_per_page (devs d)"
    using bcache_wfD(2) [OF assms(1,3)] assms(4) by (auto simp: entry_ok_def holds_page_def)
  ultimately show ?thesis unfolding page_in_def using assms by blast
qed

lemma free_slot_ok:
  assumes wf: "bcache_wf devs view nd st" and e: "e_dev (g_bcache st i) = None" "e_dev e = None"
    and st': "g_bcache st' = (g_bcache st)(i := e)" "bc_world st' = bc_world st"
  shows "bcache_wf devs view nd st' \<and> bc_view devs view st' = bc_view devs view st"
proof -
  have h: "holds_page st' = holds_page st" using e by (auto simp: holds_page_def st' fun_eq_iff)
  have "bcache_wf devs view nd st'"
    unfolding bcache_wf_def h
  proof (intro conjI allI impI)
    show "entry_ok devs view nd (bc_world st') (g_bcache st' j)" if "j < BCACHE_MAX_PAGES" for j
      using bcache_wfD(2) [OF wf that] e(2) by (cases "j = i") (simp_all add: st' entry_ok_def)
  qed (use bcache_wfD [OF wf] in blast)+
  moreover have "bc_view devs view st' d a = bc_view devs view st d a" for d a
  proof (cases "scan (holds_page st d (page_of (devs d) a)) 0 BCACHE_MAX_PAGES")
    case (Some j)
    then have "j \<noteq> i" using e(1) by (auto dest!: scan_SomeD simp: holds_page_def)
    then show ?thesis using Some by (simp add: bc_view_def h st')
  qed (simp add: bc_view_def h st')
  ultimately show ?thesis by (simp add: fun_eq_iff)
qed

lemma fill_slot_ok:
  assumes pin: "page_in devs view nd st d p i st2" and drv: "driver_ok devs view d" and d: "d < nd"
    and dvd: "sectors_per_page (devs d) dvd p" and clean: "\<not> e_dirty (g_bcache st2 i)"
    and rd: "bd_read (devs d) = Some rd" "rd (bc_world st2) p (sectors_per_page (devs d)) (e_data (g_bcache st2 i)) = (rc, buf)" "0 \<le> rc"
    and miss: "\<And>a. page_of (devs d) a = p \<Longrightarrow> bc_view devs view st d a = view (bc_world st2) d a"
  defines "st' \<equiv> st2\<lparr> g_bcache := (g_bcache st2)(i := (g_bcache st2 i)\<lparr> e_data := buf \<rparr>) \<rparr>"
  shows "bcache_wf devs view nd st'" "bc_view devs view st' = bc_view devs view st" "holds_page st' d p i"
proof -
  let ?e = "(g_bcache st2 i)\<lparr> e_data := buf \<rparr>"
  have data: "buf k = view (bc_world st2) d (p * bd_sector_size (devs d) + k)" if "k < page_bytes (devs d)" for k
  proof -
    have "\<forall>k < sectors_per_page (devs d) * bd_sector_size (devs d).
        snd (rd (bc_world st2) p (sectors_per_page (devs d)) (e_data (g_bcache st2 i))) k
        = view (bc_world st2) d (p * bd_sector_size (devs d) + k)"
      using drv rd unfolding driver_ok_def Let_def by (metis fst_conv)
    then show ?thesis using that rd(2) by (simp add: page_bytes_def)
  qed
  have h: "e_dev (g_bcache st2 i) = Some d" "e_page_lba (g_bcache st2 i) = p" "e_sectors (g_bcache st2 i) = sectors_per_page (devs d)"
    using pin by (simp_all add: page_in_def holds_page_def)
  then have eok: "e_dev ?e = Some d" "e_page_lba ?e = p" "entry_ok devs view nd (bc_world st2) ?e"
    using data d dvd clean by (simp_all add: entry_ok_def)
  note set = page_in_set [OF pin eok]
  show "bcache_wf devs view nd st'" using set(1) by (simp add: st'_def)
  show "holds_page st' d p i" using h by (simp add: st'_def holds_page_def)
  have "bc_view devs view st' d' a = bc_view devs view st d' a" for d' a
  proof (cases "d' = d \<and> page_of (devs d) a = p")
    case True
    then have "buf (a mod page_bytes (devs d)) = view (bc_world st2) d a"
      using data [of "a mod page_bytes (devs d)"] page_bytes_pos [OF drv] on_page_offset [OF drv, of a p] by simp
    then show ?thesis using set(2) True miss by (simp add: st'_def)
  qed (use set(2) in \<open>auto simp: st'_def\<close>)
  then show "bc_view devs view st' = bc_view devs view st" by (simp add: fun_eq_iff)
qed

lemma bcache_load_ok:
  assumes wf: "bcache_wf devs view nd st" and d: "d < nd" and dvd: "sectors_per_page (devs d) dvd p"
    and l: "bcache_load devs d p fill st = (r, st')"
  shows "case r of
      None \<Rightarrow> bcache_wf devs view nd st' \<and> bc_view devs view st' = bc_view devs view st
    | Some i \<Rightarrow> page_in devs view nd st d p i st' \<and>
        (fill \<longrightarrow> bcache_wf devs view nd st' \<and> bc_view devs view st' = bc_view devs view st)"
proof -
  obtain f st1 where f: "bcache_find d p st = (f, st1)" by fastforce
  note fok = bcache_find_ok [OF wf f]
  show ?thesis
  proof (cases f)
    case (Some i)
    then have "r = Some i" "st' = st1" using l f by (simp_all add: bcache_load_def)
    then show ?thesis using fok Some page_in_hit [of devs view nd st1 st i d p] by simp
  next
    case None
    then have st1: "st1 = st" and no: "\<And>j. j < BCACHE_MAX_PAGES \<Longrightarrow> \<not> holds_page st d p j" using fok by auto
    obtain i st2 where a: "bcache_alloc devs d p (sectors_per_page (devs d)) st = (i, st2)" by fastforce
    obtain st0 where st0: "bcache_wf devs view nd st0" "bc_view devs view st0 = bc_view devs view st" "i < BCACHE_MAX_PAGES"
      "e_dev (g_bcache st0 i) = None" "\<And>d p j. holds_page st0 d p j \<Longrightarrow> holds_page st d p j" "bc_world st2 = bc_world st0"
      and st2: "g_bcache st2 = (g_bcache st0)(i := (g_bcache st0 i)\<lparr> e_dev := Some d, e_page_lba := p,
         e_sectors := sectors_per_page (devs d), e_last_use := next_tick st0, e_dirty := False \<rparr>)"
      by (rule bcache_alloc_ok [OF wf a]) blast
    have no0: "\<not> holds_page st0 d p j" if "j < BCACHE_MAX_PAGES" for j using st0(5) no [OF that] by blast
    have pin: "page_in devs view nd st d p i st2"
      unfolding page_in_def using st0 no0 st2 by (auto simp: holds_page_def)
    show ?thesis
    proof (cases fill)
      case False
      then have "r = Some i" "st' = st2" using l f None st1 a by (simp_all add: bcache_load_def)
      then show ?thesis using pin False by simp
    next
      case fill: True
      show ?thesis
      proof (cases "bd_read (devs d)")
        case rd: None
        then have r: "r = None" "st' = upd_ent i (\<lambda>e. e\<lparr> e_dev := None \<rparr>) st2"
          using l f None st1 a fill by (simp_all add: bcache_load_def)
        then show ?thesis
          using free_slot_ok [OF st0(1,4), of "(g_bcache st2 i)\<lparr> e_dev := None \<rparr>" st'] st0(2,6) by (simp add: upd_ent_def st2)
      next
        case rd: (Some rd)
        obtain rc buf where io: "rd (bc_world st2) p (sectors_per_page (devs d)) (e_data (g_bcache st2 i)) = (rc, buf)" by fastforce
        define e where "e = (g_bcache st2 i)\<lparr> e_data := buf \<rparr>"
        show ?thesis
        proof (cases "rc < 0")
          case True
          then have r: "r = None" "st' = upd_ent i (\<lambda>e. e\<lparr> e_dev := None \<rparr>) (upd_ent i (\<lambda>e. e\<lparr> e_data := buf \<rparr>) st2)"
            using l f None st1 a fill rd io by (simp_all add: bcache_load_def Let_def)
          then show ?thesis
            using free_slot_ok [OF st0(1,4), of "e\<lparr> e_dev := None \<rparr>" st'] st0(2,6) by (simp add: upd_ent_def st2 e_def)
        next
          case ok: False
          then have r: "r = Some i" "st' = st2\<lparr> g_bcache := (g_bcache st2)(i := e) \<rparr>"
            using l f None st1 a fill rd io by (simp_all add: bcache_load_def Let_def upd_ent_def e_def)
          have rc: "0 \<le> rc" using ok by simp
          have clean: "\<not> e_dirty (g_bcache st2 i)" by (simp add: st2)
          have miss: "bc_view devs view st d a = view (bc_world st2) d a" if "page_of (devs d) a = p" for a
            using bc_view_miss [where devs = devs and view = view and st = st0 and d = d and a = a] no0 st0(2,6) that by simp
          note fl = fill_slot_ok [OF pin bcache_wfD(1) [OF wf d] d dvd clean rd io rc miss, folded e_def r(2)]
          show ?thesis using fl page_in_hit [OF fl(1,2) st0(3) fl(3)] r by simp
        qed
      qed
    qed
  qed
qed

section \<open>The transfer loops\<close>

lemma chunk_ofD:
  assumes "chunk_of spp cur remaining = (page, off, chunk)" "0 < spp" "0 < remaining"
  shows "spp dvd page" "cur = page + off" "off < spp" "0 < chunk" "chunk \<le> remaining" "off + chunk \<le> spp"
proof -
  have p: "page = cur div spp * spp" "off = cur mod spp"
    using assms(1) by (auto simp: chunk_of_def Let_def minus_div_mult_eq_mod)
  have c: "chunk = (if spp - off > remaining then remaining else spp - off)"
    using assms(1) p by (auto simp: chunk_of_def Let_def minus_div_mult_eq_mod)
  show "spp dvd page" "cur = page + off" by (simp_all add: p)
  show off: "off < spp" by (simp add: p assms(2))
  show "0 < chunk" "chunk \<le> remaining" "off + chunk \<le> spp" using assms(3) off by (auto simp: c)
qed

lemma next_lba_bound: "cur + remaining \<le> 2 ^ 64 \<Longrightarrow> chunk \<le> remaining \<Longrightarrow> next_lba cur chunk + (remaining - chunk) \<le> 2 ^ 64"
  by (cases "cur + chunk = 2 ^ 64") (auto simp: next_lba_def)

lemma next_lba_eq: "cur + remaining \<le> 2 ^ 64 \<Longrightarrow> chunk \<le> remaining \<Longrightarrow> next_lba cur chunk = cur + chunk \<or> remaining = chunk"
  by (cases "cur + chunk = 2 ^ 64") (auto simp: next_lba_def)

lemma shift_upt: "[c + a ..< c + b] = map ((+) c) [a ..< b]" for c a b :: nat
  by (induction b) auto

lemma split_upt: "a \<le> b \<Longrightarrow> b \<le> c \<Longrightarrow> [a ..< c] = [a ..< b] @ [b ..< c]" for a b c :: nat
  by (metis le_add_diff_inverse upt_add_eq_append)

lemma page_slice:
  assumes wf: "bcache_wf devs view nd st" and i: "i < BCACHE_MAX_PAGES" "holds_page st d p i"
    and d: "d < nd" and dvd: "sectors_per_page (devs d) dvd p" and fit: "off + chunk \<le> sectors_per_page (devs d)"
  defines "ss \<equiv> bd_sector_size (devs d)"
  shows "map (e_data (g_bcache st i)) [off * ss ..< off * ss + chunk * ss] =
    map (bc_view devs view st d) [(p + off) * ss ..< (p + off + chunk) * ss]"
proof -
  have drv: "driver_ok devs view d" using bcache_wfD(1) [OF wf d] .
  have "(off + chunk) * ss \<le> page_bytes (devs d)" using fit by (simp add: page_bytes_def ss_def)
  then have "bc_view devs view st d (p * ss + k) = e_data (g_bcache st i) k" if "k < off * ss + chunk * ss" for k
    using that bc_view_hit [OF wf i(1), of d "p * ss + k"] page_of_offset [OF drv dvd, of k] i(2)
    by (simp add: ss_def add_mult_distrib)
  moreover have "[(p + off) * ss ..< (p + off + chunk) * ss] = map ((+) (p * ss)) [off * ss ..< off * ss + chunk * ss]"
    using shift_upt [of "p * ss" "off * ss" "off * ss + chunk * ss"] by (simp add: algebra_simps)
  ultimately show ?thesis by simp
qed

lemma bcache_read_loop_ok:
  assumes "bcache_wf devs view nd st" "d < nd" "cur + remaining \<le> 2 ^ 64"
    "bcache_read_loop devs d cur remaining st = (ok, out, st')"
  shows "bcache_wf devs view nd st' \<and> bc_view devs view st' = bc_view devs view st \<and>
    (\<exists>n \<le> remaining. (ok \<longrightarrow> n = remaining) \<and>
      out = map (bc_view devs view st d) [cur * bd_sector_size (devs d) ..< (cur + n) * bd_sector_size (devs d)])"
  using assms
proof (induction devs d cur remaining st arbitrary: ok out st' rule: bcache_read_loop.induct)
  case (1 devs d cur remaining st)
  let ?ss = "bd_sector_size (devs d)"
  show ?case
  proof (cases "remaining = 0")
    case True
    then show ?thesis using 1(2,5) by (auto simp: bcache_read_loop.simps)
  next
    case False
    obtain page off chunk where c: "chunk_of (sectors_per_page (devs d)) cur remaining = (page, off, chunk)" by (metis prod_cases3)
    note ch = chunk_ofD [OF c sectors_per_page_pos]
    have rem: "0 < remaining" using False by simp
    obtain r st1 where l: "bcache_load devs d page True st = (r, st1)" by fastforce
    note lok = bcache_load_ok [OF 1(2,3) ch(1) [OF rem] l]
    show ?thesis
    proof (cases r)
      case None
      then have "ok = False" "out = []" "st' = st1" using 1(5) False c l by (simp_all add: bcache_read_loop.simps [of devs d cur])
      then show ?thesis using lok None by (intro conjI exI [of _ 0]) simp_all
    next
      case (Some i)
      obtain ok' rest st2 where rl: "bcache_read_loop devs d (next_lba cur chunk) (remaining - chunk) st1 = (ok', rest, st2)"
        by (metis prod_cases3)
      have res: "ok = ok'" "st' = st2"
        "out = map (e_data (g_bcache st1 i)) [off * ?ss ..< off * ?ss + chunk * ?ss] @ rest"
        using 1(5) False c l Some rl by (simp_all add: bcache_read_loop.simps [of devs d cur] Let_def)
      have w1: "bcache_wf devs view nd st1" "bc_view devs view st1 = bc_view devs view st" "i < BCACHE_MAX_PAGES" "holds_page st1 d page i"
        using lok Some by (simp_all add: page_in_def)
      have IH: "bcache_wf devs view nd st2 \<and> bc_view devs view st2 = bc_view devs view st1 \<and>
         (\<exists>n \<le> remaining - chunk. (ok' \<longrightarrow> n = remaining - chunk) \<and> rest = map (bc_view devs view st1 d)
            [next_lba cur chunk * ?ss ..< (next_lba cur chunk + n) * ?ss])"
        by (rule 1(1) [OF False c [symmetric] refl l [symmetric] Some refl refl w1(1) 1(3) next_lba_bound [OF 1(4) ch(5) [OF rem]] rl])
      then obtain n where n: "n \<le> remaining - chunk" "ok' \<longrightarrow> n = remaining - chunk"
        "rest = map (bc_view devs view st d) [next_lba cur chunk * ?ss ..< (next_lba cur chunk + n) * ?ss]" using w1(2) by auto
      have "rest = map (bc_view devs view st d) [(cur + chunk) * ?ss ..< (cur + chunk + n) * ?ss]"
        using n(1,3) next_lba_eq [OF 1(4) ch(5) [OF rem]] by auto
      moreover have "map (e_data (g_bcache st1 i)) [off * ?ss ..< off * ?ss + chunk * ?ss] =
          map (bc_view devs view st d) [cur * ?ss ..< (cur + chunk) * ?ss]"
        using page_slice [OF w1(1,3,4) 1(3) ch(1,6) [OF rem]] ch(2) [OF rem] w1(2) by simp
      moreover have "[cur * ?ss ..< (cur + chunk + n) * ?ss] =
          [cur * ?ss ..< (cur + chunk) * ?ss] @ [(cur + chunk) * ?ss ..< (cur + chunk + n) * ?ss]"
        by (rule split_upt) simp_all
      ultimately have "out = map (bc_view devs view st d) [cur * ?ss ..< (cur + (chunk + n)) * ?ss]" using res(3) by (simp add: add.assoc)
      moreover have "chunk + n \<le> remaining" "ok \<longrightarrow> chunk + n = remaining" using n(1,2) ch(5) [OF rem] res(1) by auto
      ultimately show ?thesis using IH w1(2) res(2) by (intro conjI exI [of _ "chunk + n"]) simp_all
    qed
  qed
qed

lemma next_multiple: "m dvd a \<Longrightarrow> m dvd b \<Longrightarrow> a < b \<Longrightarrow> a + m \<le> b" for a b m :: nat
  by (elim dvdE) (metis Suc_leI add.commute mult_Suc_right mult_le_mono2 mult_less_cancel1)

text \<open>One chunk of a write: the page loaded, the bytes copied in, the page marked dirty.\<close>

lemma write_chunk_ok:
  fixes buf :: "u8 list"
  assumes wf: "bcache_wf devs view nd st" and d: "d < nd" and wr: "bd_write (devs d) \<noteq> None"
    and sc: "sectors_per_page (devs d) dvd bd_sector_count (devs d)" "page + off + chunk \<le> bd_sector_count (devs d)"
    and ch: "sectors_per_page (devs d) dvd page" "0 < chunk" "off + chunk \<le> sectors_per_page (devs d)"
    and l: "bcache_load devs d page (chunk < sectors_per_page (devs d)) st = (Some i, st1)"
    and len: "length buf = chunk * bd_sector_size (devs d)"
  defines "ss \<equiv> bd_sector_size (devs d)"
  defines "st2 \<equiv> upd_ent i (\<lambda>e. e\<lparr> e_data := memcpy_at (e_data e) (off * ss) buf, e_dirty := True \<rparr>) st1"
  shows "bcache_wf devs view nd st2"
    and "bc_view devs view st2 d' a = (if d' = d \<and> (page + off) * ss \<le> a \<and> a < (page + off + chunk) * ss
      then buf ! (a - (page + off) * ss) else bc_view devs view st d' a)"
proof -
  let ?spp = "sectors_per_page (devs d)" and ?pb = "page_bytes (devs d)"
  have drv: "driver_ok devs view d" using bcache_wfD(1) [OF wf d] .
  have lok: "page_in devs view nd st d page i st1"
    "chunk < ?spp \<Longrightarrow> bcache_wf devs view nd st1 \<and> bc_view devs view st1 = bc_view devs view st"
    using bcache_load_ok [OF wf d ch(1) l] by simp_all
  define e where "e = (g_bcache st1 i)\<lparr> e_data := memcpy_at (e_data (g_bcache st1 i)) (off * ss) buf, e_dirty := True \<rparr>"
  have h: "i < BCACHE_MAX_PAGES" "holds_page st1 d page i" "e_sectors (g_bcache st1 i) = ?spp" using lok(1) by (simp_all add: page_in_def)
  have "page + ?spp \<le> bd_sector_count (devs d)" using next_multiple [OF ch(1) sc(1)] sc(2) ch(2) by simp
  then have eok: "e_dev e = Some d" "e_page_lba e = page" "entry_ok devs view nd (bc_world st1) e"
    using h d wr ch(1) by (auto simp: e_def holds_page_def entry_ok_def)
  have st2: "st2 = st1\<lparr> g_bcache := (g_bcache st1)(i := e) \<rparr>" by (simp add: st2_def upd_ent_def e_def)
  note set = page_in_set [OF lok(1) eok]
  show "bcache_wf devs view nd st2" using set(1) by (simp add: st2)
  have range: "page_of (devs d) a = page" "a mod ?pb - off * ss = a - (page + off) * ss"
    if "(page + off) * ss \<le> a" "a < (page + off + chunk) * ss"
  proof -
    have "(page + off + chunk) * ss \<le> (page + ?spp) * ss" using ch(3) by simp
    then show p: "page_of (devs d) a = page"
      using on_page_iff [OF drv ch(1), of a] that unfolding ss_def [symmetric] by (simp add: add_mult_distrib)
    show "a mod ?pb - off * ss = a - (page + off) * ss"
      using on_page_offset [OF drv p] by (simp add: ss_def add_mult_distrib)
  qed
  have inside: "off * ss \<le> a mod ?pb \<and> a mod ?pb < off * ss + chunk * ss \<longleftrightarrow> (page + off) * ss \<le> a \<and> a < (page + off + chunk) * ss"
    if "page_of (devs d) a = page"
    using on_page_offset [OF drv that] by (auto simp: ss_def add_mult_distrib)
  show "bc_view devs view st2 d' a = (if d' = d \<and> (page + off) * ss \<le> a \<and> a < (page + off + chunk) * ss
      then buf ! (a - (page + off) * ss) else bc_view devs view st d' a)"
  proof (cases "d' = d \<and> page_of (devs d) a = page")
    case False
    then show ?thesis using set(2) range(1) by (auto simp: st2)
  next
    case on: True
    then have v: "bc_view devs view st2 d' a = e_data e (a mod ?pb)" using set(2) by (simp add: st2)
    show ?thesis
    proof (cases "(page + off) * ss \<le> a \<and> a < (page + off + chunk) * ss")
      case True
      then show ?thesis using v on inside range(2) len by (simp add: e_def memcpy_at_def ss_def [symmetric])
    next
      case out: False
      have "chunk < ?spp"
      proof (rule ccontr)
        assume "\<not> chunk < ?spp"
        then have "chunk = ?spp" "off = 0" using ch(3) by auto
        then show False using out on on_page_iff [OF drv ch(1), of a] by (simp add: ss_def)
      qed
      then have "bc_view devs view st d a = e_data (g_bcache st1 i) (a mod ?pb)"
        using lok(2) bc_view_hit [of devs view nd st1 i d a] h on by simp
      then show ?thesis using v on inside out len by (auto simp: e_def memcpy_at_def ss_def [symmetric])
    qed
  qed
qed

lemma bcache_write_loop_ok:
  assumes "bcache_wf devs view nd st" "d < nd" "bd_write (devs d) \<noteq> None"
    "sectors_per_page (devs d) dvd bd_sector_count (devs d)" "cur + remaining \<le> bd_sector_count (devs d)"
    "bd_sector_count (devs d) \<le> 2 ^ 64" "length buf = remaining * bd_sector_size (devs d)"
    "bcache_write_loop devs d cur remaining buf st = (ok, st')"
  shows "bcache_wf devs view nd st' \<and> (\<exists>n \<le> remaining. (ok \<longrightarrow> n = remaining) \<and>
    (\<forall>d' a. bc_view devs view st' d' a =
       (if d' = d \<and> cur * bd_sector_size (devs d) \<le> a \<and> a < (cur + n) * bd_sector_size (devs d)
        then buf ! (a - cur * bd_sector_size (devs d)) else bc_view devs view st d' a)))"
  using assms
proof (induction devs d cur remaining buf st arbitrary: ok st' rule: bcache_write_loop.induct)
  case (1 devs d cur remaining buf st)
  let ?ss = "bd_sector_size (devs d)" and ?spp = "sectors_per_page (devs d)"
  show ?case
  proof (cases "remaining = 0")
    case True
    then show ?thesis using 1(2,9) by (auto simp: bcache_write_loop.simps)
  next
    case False
    obtain page off chunk where c: "chunk_of ?spp cur remaining = (page, off, chunk)" by (metis prod_cases3)
    have rem: "0 < remaining" using False by simp
    note ch = chunk_ofD [OF c sectors_per_page_pos rem]
    obtain r st1 where l: "bcache_load devs d page (chunk < ?spp) st = (r, st1)" by fastforce
    note lok = bcache_load_ok [OF 1(2,3) ch(1) l]
    show ?thesis
    proof (cases r)
      case None
      then have "ok = False" "st' = st1" using 1(9) False c l by (simp_all add: bcache_write_loop.simps [of devs d cur])
      then show ?thesis using lok None by (intro conjI exI [of _ 0]) auto
    next
      case (Some i)
      define st2 where "st2 = upd_ent i (\<lambda>e. e\<lparr> e_data := memcpy_at (e_data e) (off * ?ss) (take (chunk * ?ss) buf), e_dirty := True \<rparr>) st1"
      have wl: "bcache_write_loop devs d (next_lba cur chunk) (remaining - chunk) (drop (chunk * ?ss) buf) st2 = (ok, st')"
        using 1(9) False c l Some by (simp add: bcache_write_loop.simps [of devs d cur] Let_def st2_def)
      have len: "length (take (chunk * ?ss) buf) = chunk * ?ss" using 1(8) ch(5) by simp
      have fit: "page + off + chunk \<le> bd_sector_count (devs d)" using 1(6) ch(2,5) by simp
      have w2: "bcache_wf devs view nd st2" "bc_view devs view st2 d' a = (if d' = d \<and> cur * ?ss \<le> a \<and> a < (cur + chunk) * ?ss
          then take (chunk * ?ss) buf ! (a - cur * ?ss) else bc_view devs view st d' a)" for d' a
        using write_chunk_ok [OF 1(2,3,4,5) fit ch(1,4,6) l [unfolded Some] len] ch(2) unfolding st2_def by simp_all
      have nl: "next_lba cur chunk = cur + chunk \<or> remaining = chunk" using next_lba_eq [OF _ ch(5)] 1(6,7) by simp
      have bnd: "next_lba cur chunk + (remaining - chunk) \<le> bd_sector_count (devs d)"
        using nl 1(6) ch(5) by (auto simp: next_lba_def intro: order_trans [OF mod_less_eq_dividend])
      have len2: "length (drop (chunk * ?ss) buf) = (remaining - chunk) * ?ss" using 1(8) by (simp add: diff_mult_distrib)
      have IH: "bcache_wf devs view nd st' \<and> (\<exists>n \<le> remaining - chunk. (ok \<longrightarrow> n = remaining - chunk) \<and>
         (\<forall>d' a. bc_view devs view st' d' a =
           (if d' = d \<and> next_lba cur chunk * ?ss \<le> a \<and> a < (next_lba cur chunk + n) * ?ss
            then drop (chunk * ?ss) buf ! (a - next_lba cur chunk * ?ss) else bc_view devs view st2 d' a)))"
        unfolding st2_def by (rule 1(1) [OF False c [symmetric] refl l [symmetric] Some refl w2(1) [unfolded st2_def] 1(3-5) bnd 1(7) len2 wl [unfolded st2_def]])
      then obtain n where n: "n \<le> remaining - chunk" "ok \<longrightarrow> n = remaining - chunk"
        "bc_view devs view st' d' a = (if d' = d \<and> next_lba cur chunk * ?ss \<le> a \<and> a < (next_lba cur chunk + n) * ?ss
            then drop (chunk * ?ss) buf ! (a - next_lba cur chunk * ?ss) else bc_view devs view st2 d' a)" for d' a by blast
      have "bc_view devs view st' d' a = (if d' = d \<and> cur * ?ss \<le> a \<and> a < (cur + (chunk + n)) * ?ss
          then buf ! (a - cur * ?ss) else bc_view devs view st d' a)" for d' a
        using nl n(1) 1(8) ch(5) by (auto simp: n(3) w2(2) add_mult_distrib nth_drop)
      moreover have "chunk + n \<le> remaining" "ok \<longrightarrow> chunk + n = remaining" using n(1,2) ch(5) by auto
      ultimately show ?thesis using IH by blast
    qed
  qed
qed

text \<open>A transfer inside a device whose reads do not fail returns.\<close>

definition reads_ok :: "'w block_device \<Rightarrow> bool" where
  "reads_ok dv \<longleftrightarrow> (\<exists>rd. bd_read dv = Some rd \<and>
     (\<forall>w lba n buf. lba + n \<le> bd_sector_count dv \<longrightarrow> 0 \<le> fst (rd w lba n buf)))"

lemma bcache_load_succeeds:
  assumes "reads_ok (devs d)" "p + sectors_per_page (devs d) \<le> bd_sector_count (devs d)"
  shows "fst (bcache_load devs d p fill st) \<noteq> None"
proof -
  obtain rd where rd: "bd_read (devs d) = Some rd" "\<And>w lba n buf. lba + n \<le> bd_sector_count (devs d) \<Longrightarrow> 0 \<le> fst (rd w lba n buf)"
    using assms(1) by (auto simp: reads_ok_def)
  then have "\<not> r < 0" if "rd w p (sectors_per_page (devs d)) buf = (r, buf')" for w buf r buf'
    using assms(2) that by (metis fst_conv not_less)
  then show ?thesis using rd(1) by (auto simp: bcache_load_def Let_def split: option.splits prod.splits if_splits)
qed

lemma page_in_device:
  assumes "chunk_of (sectors_per_page dv) cur remaining = (page, off, chunk)" "0 < remaining"
    "sectors_per_page dv dvd bd_sector_count dv" "cur + remaining \<le> bd_sector_count dv"
  shows "page + sectors_per_page dv \<le> bd_sector_count dv"
  using chunk_ofD [OF assms(1) sectors_per_page_pos assms(2)] assms(3,4) by (intro next_multiple) auto

lemma next_lba_in_device:
  assumes "cur + remaining \<le> sc" "sc \<le> 2 ^ 64" "chunk \<le> remaining"
  shows "next_lba cur chunk + (remaining - chunk) \<le> sc"
  using next_lba_eq [of cur remaining chunk] assms by (auto simp: next_lba_def intro: order_trans [OF mod_less_eq_dividend])

lemma bcache_read_loop_succeeds:
  assumes "reads_ok (devs d)" "sectors_per_page (devs d) dvd bd_sector_count (devs d)" "bd_sector_count (devs d) \<le> 2 ^ 64"
    "cur + remaining \<le> bd_sector_count (devs d)"
  shows "fst (bcache_read_loop devs d cur remaining st)"
  using assms
proof (induction devs d cur remaining st rule: bcache_read_loop.induct)
  case (1 devs d cur remaining st)
  show ?case
  proof (cases "remaining = 0")
    case False
    obtain page off chunk where c: "chunk_of (sectors_per_page (devs d)) cur remaining = (page, off, chunk)" by (metis prod_cases3)
    obtain i st1 where l: "bcache_load devs d page True st = (Some i, st1)"
      using bcache_load_succeeds [of devs d page True st, OF 1(2) page_in_device [OF c _ 1(3,5)]] False
      by (cases "bcache_load devs d page True st") auto
    have "fst (bcache_read_loop devs d (next_lba cur chunk) (remaining - chunk) st1)"
      using 1(1) [OF False c [symmetric] refl l [symmetric] refl refl refl 1(2-4)] next_lba_in_device [OF 1(5,4)]
        chunk_ofD(5) [OF c sectors_per_page_pos] False by simp
    then show ?thesis by (subst bcache_read_loop.simps) (simp add: False c l Let_def split: prod.splits, force)
  qed (simp add: bcache_read_loop.simps)
qed

lemma bcache_write_loop_succeeds:
  assumes "reads_ok (devs d)" "sectors_per_page (devs d) dvd bd_sector_count (devs d)" "bd_sector_count (devs d) \<le> 2 ^ 64"
    "cur + remaining \<le> bd_sector_count (devs d)"
  shows "fst (bcache_write_loop devs d cur remaining buf st)"
  using assms
proof (induction devs d cur remaining buf st rule: bcache_write_loop.induct)
  case (1 devs d cur remaining buf st)
  show ?case
  proof (cases "remaining = 0")
    case False
    obtain page off chunk where c: "chunk_of (sectors_per_page (devs d)) cur remaining = (page, off, chunk)" by (metis prod_cases3)
    obtain i st1 where l: "bcache_load devs d page (chunk < sectors_per_page (devs d)) st = (Some i, st1)"
      using bcache_load_succeeds [of devs d page "chunk < sectors_per_page (devs d)" st, OF 1(2) page_in_device [OF c _ 1(3,5)]] False
      by (cases "bcache_load devs d page (chunk < sectors_per_page (devs d)) st") auto
    show ?thesis
      using 1(1) [OF False c [symmetric] refl l [symmetric] refl refl 1(2-4)] next_lba_in_device [OF 1(5,4)]
        chunk_ofD(5) [OF c sectors_per_page_pos] False
      by (subst bcache_write_loop.simps) (simp add: c l Let_def)
  qed (simp add: bcache_write_loop.simps)
qed

section \<open>Flushing\<close>

lemma flush_slot_alt:
  "flush_slot devs dev i st =
     (case e_dev (g_bcache st i) of
        Some d \<Rightarrow> if (dev = None \<or> dev = Some d) \<and> e_dirty (g_bcache st i) then clean_slot devs d i st else st
      | None \<Rightarrow> st)"
  by (simp add: flush_slot_def clean_slot_def Let_def cong: option.case_cong if_cong)

lemma flush_slot_ok:
  assumes wf: "bcache_wf devs view nd st" and i: "i < BCACHE_MAX_PAGES"
  shows "bcache_wf devs view nd (flush_slot devs dev i st) \<and> bc_view devs view (flush_slot devs dev i st) = bc_view devs view st \<and>
    (\<forall>j. e_dev (g_bcache (flush_slot devs dev i st) j) = e_dev (g_bcache st j)) \<and>
    (\<forall>j. e_dirty (g_bcache (flush_slot devs dev i st) j) \<longrightarrow> e_dirty (g_bcache st j)) \<and>
    (\<forall>d. e_dev (g_bcache st i) = Some d \<longrightarrow> dev = None \<or> dev = Some d \<longrightarrow> \<not> e_dirty (g_bcache (flush_slot devs dev i st) i))"
proof (cases "\<exists>d. e_dev (g_bcache st i) = Some d \<and> (dev = None \<or> dev = Some d) \<and> e_dirty (g_bcache st i)")
  case True
  then obtain d where d: "e_dev (g_bcache st i) = Some d" "e_dirty (g_bcache st i)" "flush_slot devs dev i st = clean_slot devs d i st"
    by (auto simp: flush_slot_alt)
  have "e_dev (g_bcache (clean_slot devs d i st) j) = e_dev (g_bcache st j)"
    "e_dirty (g_bcache (clean_slot devs d i st) j) \<longleftrightarrow> j \<noteq> i \<and> e_dirty (g_bcache st j)" for j
    by (simp_all add: clean_slot_def upd_ent_def)
  then show ?thesis using clean_slot_ok [OF wf i d(1,2)] by (simp add: d(3))
next
  case False
  then have "flush_slot devs dev i st = st" by (auto simp: flush_slot_alt split: option.split)
  then show ?thesis using wf False by auto
qed

lemma flush_slots_ok:
  fixes dev :: "nat option"
  assumes "bcache_wf devs view nd st" "n \<le> BCACHE_MAX_PAGES"
  defines "st' \<equiv> fold (flush_slot devs dev) [0 ..< n] st"
  shows "bcache_wf devs view nd st' \<and> bc_view devs view st' = bc_view devs view st \<and>
    (\<forall>i < n. \<forall>d. e_dev (g_bcache st' i) = Some d \<longrightarrow> dev = None \<or> dev = Some d \<longrightarrow> \<not> e_dirty (g_bcache st' i))"
  using assms(2) unfolding st'_def
proof (induction n)
  case (Suc n)
  then show ?case
    using flush_slot_ok [of devs view nd "fold (flush_slot devs dev) [0 ..< n] st" n dev] by (auto simp: less_Suc_eq)
qed (simp add: assms(1))

lemma clean_view:
  assumes wf: "bcache_wf devs view nd st" and clean: "\<And>i. i < BCACHE_MAX_PAGES \<Longrightarrow> e_dev (g_bcache st i) = Some d \<Longrightarrow> \<not> e_dirty (g_bcache st i)"
  shows "view (bc_world st) d a = bc_view devs view st d a"
proof (cases rule: bc_view_cases [of st d "page_of (devs d) a"])
  case (hit i)
  then have e: "e_dev (g_bcache st i) = Some d" "e_page_lba (g_bcache st i) = page_of (devs d) a" by (simp_all add: holds_page_def)
  have eo: "entry_ok devs view nd (bc_world st) (g_bcache st i)" using bcache_wfD(2) [OF wf hit(1)] .
  have drv: "driver_ok devs view d" using eo e(1) bcache_wfD(1) [OF wf] by (auto simp: entry_ok_def)
  have "e_data (g_bcache st i) (a mod page_bytes (devs d)) =
      view (bc_world st) d (page_of (devs d) a * bd_sector_size (devs d) + a mod page_bytes (devs d))"
    using eo e clean [OF hit(1) e(1)] page_bytes_pos [OF drv] by (auto simp: entry_ok_def)
  then show ?thesis using bc_view_hit [OF wf hit] on_page_offset [OF drv refl, of a] by simp
next
  case miss
  then show ?thesis using bc_view_miss [where devs = devs and view = view and st = st and d = d and a = a] by simp
qed

lemma world_flush_ok:
  assumes wf: "bcache_wf devs view nd st" and v: "view w = view (bc_world st)"
  shows "bcache_wf devs view nd (st\<lparr> bc_world := w \<rparr>) \<and> bc_view devs view (st\<lparr> bc_world := w \<rparr>) = bc_view devs view st"
proof -
  have h: "holds_page (st\<lparr> bc_world := w \<rparr>) = holds_page st" by (auto simp: holds_page_def fun_eq_iff)
  have "entry_ok devs view nd w e = entry_ok devs view nd (bc_world st) e" for e by (simp add: entry_ok_def v)
  then show ?thesis using wf by (auto simp: bcache_wf_def h bc_view_def v fun_eq_iff split: option.split)
qed

lemma bcache_flush_ok:
  assumes wf: "bcache_wf devs view nd st" and dev: "\<And>d. dev = Some d \<Longrightarrow> d < nd"
  shows "bcache_wf devs view nd (bcache_flush devs dev st) \<and> bc_view devs view (bcache_flush devs dev st) = bc_view devs view st \<and>
    (\<forall>d a. dev = None \<or> dev = Some d \<longrightarrow> view (bc_world (bcache_flush devs dev st)) d a = bc_view devs view st d a)"
proof -
  define s1 where "s1 = fold (flush_slot devs dev) [0 ..< BCACHE_MAX_PAGES] st"
  have s1: "bcache_wf devs view nd s1" "bc_view devs view s1 = bc_view devs view st"
    "\<And>i d. i < BCACHE_MAX_PAGES \<Longrightarrow> e_dev (g_bcache s1 i) = Some d \<Longrightarrow> dev = None \<or> dev = Some d \<Longrightarrow> \<not> e_dirty (g_bcache s1 i)"
    using flush_slots_ok [OF wf order.refl, of dev] by (auto simp: s1_def)
  have cv: "view (bc_world s1) d a = bc_view devs view st d a" if "dev = None \<or> dev = Some d" for d a
    using clean_view [OF s1(1), of d a] s1(2,3) that by auto
  show ?thesis
  proof (cases "\<exists>d fl. dev = Some d \<and> bd_flush (devs d) = Some fl")
    case True
    then obtain d fl where d: "dev = Some d" "bd_flush (devs d) = Some fl" by auto
    have "driver_ok devs view d" using bcache_wfD(1) [OF wf dev [OF d(1)]] .
    then have "view (snd (fl (bc_world s1))) = view (bc_world s1)" using d(2) by (auto simp: driver_ok_def Let_def)
    moreover have "bcache_flush devs dev st = s1\<lparr> bc_world := snd (fl (bc_world s1)) \<rparr>"
      using d s1_def by (simp add: bcache_flush_def Let_def)
    ultimately show ?thesis using world_flush_ok [OF s1(1)] s1(2) cv by simp
  next
    case False
    then have "bcache_flush devs dev st = s1"
      unfolding bcache_flush_def Let_def s1_def [symmetric] by (auto split: option.splits)
    then show ?thesis using s1(1,2) cv by simp
  qed
qed

section \<open>Properties\<close>

datatype bc_op = B_read nat nat nat | B_write nat nat nat "u8 list" | B_flush "nat option"

text \<open>One operation of a client: the result and the bytes it returns.\<close>

fun bc_step :: "(nat \<Rightarrow> 'w block_device) \<Rightarrow> bc_op \<Rightarrow> 'w bcache \<Rightarrow> (int \<times> u8 list) \<times> 'w bcache" where
  "bc_step devs (B_read d lba n) st = (case bcache_read devs d lba n st of (r, out, st') \<Rightarrow> ((r, out), st'))"
| "bc_step devs (B_write d lba n buf) st = (case bcache_write devs d lba n buf st of (r, st') \<Rightarrow> ((r, []), st'))"
| "bc_step devs (B_flush dev) st = ((0, []), bcache_flush devs dev st)"

text \<open>The same operation on a plain array of bytes per device, with no cache.\<close>

fun disk_step :: "(nat \<Rightarrow> 'w block_device) \<Rightarrow> bc_op \<Rightarrow> (nat \<Rightarrow> nat \<Rightarrow> u8) \<Rightarrow> (int \<times> u8 list) \<times> (nat \<Rightarrow> nat \<Rightarrow> u8)" where
  "disk_step devs (B_read d lba n) A =
     ((int n, map (A d) [lba * bd_sector_size (devs d) ..< (lba + n) * bd_sector_size (devs d)]), A)"
| "disk_step devs (B_write d lba n buf) A = ((int n, []), A(d := memcpy_at (A d) (lba * bd_sector_size (devs d)) buf))"
| "disk_step devs (B_flush dev) A = ((0, []), A)"

fun bc_run :: "('op \<Rightarrow> 's \<Rightarrow> 'r \<times> 's) \<Rightarrow> 'op list \<Rightarrow> 's \<Rightarrow> 'r list \<times> 's" where
  "bc_run stp [] s = ([], s)"
| "bc_run stp (x # xs) s = (case stp x s of (r, s') \<Rightarrow> case bc_run stp xs s' of (rs, s'') \<Rightarrow> (r # rs, s''))"

text \<open>A device of whole pages whose driver works, and a transfer inside it.\<close>

definition device_ok :: "(nat \<Rightarrow> 'w block_device) \<Rightarrow> ('w \<Rightarrow> nat \<Rightarrow> nat \<Rightarrow> u8) \<Rightarrow> nat \<Rightarrow> bool" where
  "device_ok devs view d \<longleftrightarrow> driver_ok devs view d \<and> reads_ok (devs d) \<and> bd_write (devs d) \<noteq> None \<and>
     sectors_per_page (devs d) dvd bd_sector_count (devs d) \<and> bd_sector_count (devs d) \<le> 2 ^ 64"

fun bc_op_ok :: "(nat \<Rightarrow> 'w block_device) \<Rightarrow> nat \<Rightarrow> bc_op \<Rightarrow> bool" where
  "bc_op_ok devs nd (B_read d lba n) \<longleftrightarrow> d < nd \<and> lba + n \<le> bd_sector_count (devs d)"
| "bc_op_ok devs nd (B_write d lba n buf) \<longleftrightarrow>
     d < nd \<and> lba + n \<le> bd_sector_count (devs d) \<and> length buf = n * bd_sector_size (devs d)"
| "bc_op_ok devs nd (B_flush dev) \<longleftrightarrow> (case dev of Some d \<Rightarrow> d < nd | None \<Rightarrow> True)"

lemma bc_step_refines:
  assumes wf: "bcache_wf devs view nd st" and dev: "\<And>d. d < nd \<Longrightarrow> device_ok devs view d" and ok: "bc_op_ok devs nd x"
    and s: "bc_step devs x st = (r, st')"
  shows "bcache_wf devs view nd st' \<and> disk_step devs x (bc_view devs view st) = (r, bc_view devs view st')"
proof (cases x)
  case (B_read d lba n)
  then have d: "d < nd" "lba + n \<le> bd_sector_count (devs d)" using ok by simp_all
  note dv = dev [OF d(1), unfolded device_ok_def]
  obtain k out st1 where l: "bcache_read_loop devs d lba n st = (k, out, st1)" by (metis prod_cases3)
  have k: "k" using bcache_read_loop_succeeds [of devs d lba n st] dv d(2) l by simp
  have "bd_read (devs d) \<noteq> None" using dv by (auto simp: reads_ok_def)
  then have "r = (int n, out)" "st' = st1" using s l k by (auto simp: B_read bcache_read_def)
  then show ?thesis using bcache_read_loop_ok [OF wf d(1) _ l] dv d(2) k by (auto simp: B_read)
next
  case (B_write d lba n buf)
  then have d: "d < nd" "lba + n \<le> bd_sector_count (devs d)" "length buf = n * bd_sector_size (devs d)" using ok by simp_all
  note dv = dev [OF d(1), unfolded device_ok_def]
  obtain k st1 where l: "bcache_write_loop devs d lba n buf st = (k, st1)" by fastforce
  have k: "k" using bcache_write_loop_succeeds [of devs d lba n buf st] dv d(2) l by simp
  have res: "r = (int n, [])" "st' = st1" using s l k dv by (auto simp: B_write bcache_write_def)
  have w: "bcache_wf devs view nd st1" "\<And>d' a. bc_view devs view st1 d' a =
       (if d' = d \<and> lba * bd_sector_size (devs d) \<le> a \<and> a < (lba + n) * bd_sector_size (devs d)
        then buf ! (a - lba * bd_sector_size (devs d)) else bc_view devs view st d' a)"
    using bcache_write_loop_ok [OF wf d(1) _ _ d(2) _ d(3) l] dv k by auto
  then show ?thesis using res d(3) by (auto simp: B_write memcpy_at_def fun_eq_iff add_mult_distrib)
next
  case (B_flush dv)
  have "d < nd" if "dv = Some d" for d using that ok B_flush by simp
  then show ?thesis using bcache_flush_ok [OF wf, of dv] s by (auto simp: B_flush)
qed

lemma bc_run_refines:
  assumes "bcache_wf devs view nd st" "\<And>d. d < nd \<Longrightarrow> device_ok devs view d" "\<And>x. x \<in> set xs \<Longrightarrow> bc_op_ok devs nd x"
    "bc_run (bc_step devs) xs st = (rs, st')"
  shows "bcache_wf devs view nd st' \<and> bc_run (disk_step devs) xs (bc_view devs view st) = (rs, bc_view devs view st')"
  using assms
proof (induction xs arbitrary: st rs)
  case (Cons x xs)
  obtain r st1 where s: "bc_step devs x st = (r, st1)" by fastforce
  obtain rs1 where rs: "rs = r # rs1" "bc_run (bc_step devs) xs st1 = (rs1, st')"
    using Cons.prems(4) s by (auto split: prod.splits)
  have x: "bcache_wf devs view nd st1" "disk_step devs x (bc_view devs view st) = (r, bc_view devs view st1)"
    using bc_step_refines [OF Cons.prems(1,2) _ s] Cons.prems(3) by auto
  show ?case using Cons.IH [OF x(1) Cons.prems(2) _ rs(2)] Cons.prems(3) x(2) rs(1) by simp
qed simp

lemma bcache_init_ok:
  assumes "\<And>d. d < nd \<Longrightarrow> device_ok devs view d"
  shows "bcache_wf devs view nd (bcache_init w) \<and> bc_view devs view (bcache_init w) = view w"
proof -
  have h: "\<not> holds_page (bcache_init w) d p i" for d p i by (simp add: holds_page_def bcache_init_def)
  have "bc_view devs view (bcache_init w) d a = view w d a" for d a
    using bc_view_miss [where devs = devs and view = view and st = "bcache_init w" and d = d and a = a] h by (simp add: bcache_init_def)
  moreover have "entry_ok devs view nd (bc_world (bcache_init w)) (g_bcache (bcache_init w) i)" for i
    by (simp add: entry_ok_def bcache_init_def)
  ultimately show ?thesis using assms h by (simp add: bcache_wf_def device_ok_def fun_eq_iff)
qed

text \<open>C2. The cache is transparent: any sequence of reads, writes and flushes inside the devices, started on an
empty cache over working drivers, returns the same results and the same bytes as the operations on the bare
device contents, whatever pages are cached, dirty or evicted on the way; and its final contents are those of the
bare devices.\<close>

theorem bcache_refines_disk:
  assumes "\<And>d. d < nd \<Longrightarrow> device_ok devs view d" "\<And>x. x \<in> set xs \<Longrightarrow> bc_op_ok devs nd x"
    "bc_run (bc_step devs) xs (bcache_init w) = (rs, st)"
  shows "bc_run (disk_step devs) xs (view w) = (rs, bc_view devs view st)"
  using bc_run_refines [OF _ assms] bcache_init_ok [where w = w, OF assms(1)] by auto

text \<open>C33. Flushing makes the writes durable: after any such sequence, flushing a device (or all of them) leaves on
the hardware exactly the bytes that a reader of the cache sees.\<close>

theorem bcache_flush_durable:
  assumes "\<And>d. d < nd \<Longrightarrow> device_ok devs view d" "\<And>x. x \<in> set xs \<Longrightarrow> bc_op_ok devs nd x"
    "bc_run (bc_step devs) xs (bcache_init w) = (rs, st)" "d < nd" "dev = None \<or> dev = Some d"
  shows "view (bc_world (bcache_flush devs dev st)) d = snd (bc_run (disk_step devs) xs (view w)) d"
proof -
  have i: "bcache_wf devs view nd (bcache_init w)" "bc_view devs view (bcache_init w) = view w"
    using bcache_init_ok [where w = w, OF assms(1)] by auto
  have st: "bcache_wf devs view nd st" "bc_run (disk_step devs) xs (view w) = (rs, bc_view devs view st)"
    using bc_run_refines [OF i(1) assms(1-3)] i(2) by auto
  have "view (bc_world (bcache_flush devs dev st)) d a = bc_view devs view st d a" for a
    using bcache_flush_ok [OF st(1), of dev] assms(4,5) by auto
  then show ?thesis by (simp add: st(2) fun_eq_iff)
qed

text \<open>A memory disk of 64 sectors of 512 bytes, for the witnesses.\<close>

definition ram_disk :: "(nat \<Rightarrow> u8) block_device" where
  "ram_disk = \<lparr> bd_name = ''ram0'', bd_kind = BLOCK_DEVICE_RAM, bd_sector_count = 64, bd_sector_size = 512,
     bd_read_only = False,
     bd_read = Some (\<lambda>w lba n buf. if lba + n \<le> 64 then (0, \<lambda>k. if k < n * 512 then w (lba * 512 + k) else buf k) else (- 1, buf)),
     bd_write = Some (\<lambda>w lba n buf. if lba + n \<le> 64
        then (0, \<lambda>a. if lba * 512 \<le> a \<and> a < (lba + n) * 512 then buf (a - lba * 512) else w a) else (- 1, w)),
     bd_flush = None \<rparr>"

lemma ram_disk_ok: "d < 1 \<Longrightarrow> device_ok (\<lambda>i. ram_disk) (\<lambda>w d a. if d = 0 then w a else 0) d"
  by (auto simp: device_ok_def driver_ok_def reads_ok_def ram_disk_def sectors_per_page_def Let_def BCACHE_PAGE_SIZE_def)

lemma memcpy_replicate: "o1 \<le> a \<Longrightarrow> b \<le> o1 + n \<Longrightarrow> map (memcpy_at f o1 (replicate n x)) [a ..< b] = replicate (b - a) x"
  by (rule nth_equalityI) (auto simp: memcpy_at_def)

theorem bcache_refines_disk_witness:
  "\<exists>st. bc_run (bc_step (\<lambda>i. ram_disk)) [B_write 0 7 2 (replicate 1024 9), B_read 0 8 1] (bcache_init (\<lambda>a. 0))
     = ([(2, []), (1, replicate 512 9)], st)"
proof -
  obtain rs st where r: "bc_run (bc_step (\<lambda>i. ram_disk)) [B_write 0 7 2 (replicate 1024 9), B_read 0 8 1] (bcache_init (\<lambda>a. 0)) = (rs, st)"
    by fastforce
  have ops: "bc_op_ok (\<lambda>i. ram_disk) 1 x" if "x \<in> set [B_write 0 7 2 (replicate 1024 9), B_read 0 8 1]" for x
    using that by (auto simp: ram_disk_def)
  have "rs = fst (bc_run (disk_step (\<lambda>i. ram_disk)) [B_write 0 7 2 (replicate 1024 9), B_read 0 8 1] (\<lambda>d a. if d = 0 then 0 else 0))"
    using arg_cong [where f = fst, OF bcache_refines_disk [of 1 "\<lambda>i. ram_disk" "\<lambda>w d a. if d = 0 then w a else 0", OF ram_disk_ok ops r]]
    by simp
  moreover have "map (memcpy_at f 3584 (replicate 1024 9)) [4096 ..< 4608] = replicate (4608 - 4096) 9" for f
    by (rule memcpy_replicate) simp_all
  ultimately have "rs = [(2, []), (1, replicate 512 9)]"
    by (simp add: ram_disk_def del: upt_rec_numeral upt_conv_Cons_Cons)
  then show ?thesis using r by blast
qed

theorem bcache_flush_durable_witness:
  "\<exists>rs st. bc_run (bc_step (\<lambda>i. ram_disk)) [B_write 0 7 2 (replicate 1024 9)] (bcache_init (\<lambda>a. 0)) = (rs, st) \<and>
     bc_world (bcache_flush (\<lambda>i. ram_disk) None st) 4000 = 9"
proof -
  obtain rs st where r: "bc_run (bc_step (\<lambda>i. ram_disk)) [B_write 0 7 2 (replicate 1024 9)] (bcache_init (\<lambda>a. 0)) = (rs, st)"
    by fastforce
  have ops: "bc_op_ok (\<lambda>i. ram_disk) 1 x" if "x \<in> set [B_write 0 7 2 (replicate 1024 9)]" for x
    using that by (auto simp: ram_disk_def)
  have "(\<lambda>a. bc_world (bcache_flush (\<lambda>i. ram_disk) None st) a) =
      snd (bc_run (disk_step (\<lambda>i. ram_disk)) [B_write 0 7 2 (replicate 1024 9)] (\<lambda>d a. if d = 0 then 0 else 0)) 0"
    using bcache_flush_durable [of 1 "\<lambda>i. ram_disk" "\<lambda>w d a. if d = 0 then w a else 0", OF ram_disk_ok ops r, of 0 None] by simp
  moreover have "snd (bc_run (disk_step (\<lambda>i. ram_disk)) [B_write 0 7 2 (replicate 1024 9)] (\<lambda>d a. if d = 0 then 0 else 0)) 0 4000 = 9"
    by (simp add: ram_disk_def memcpy_at_def)
  ultimately show ?thesis using r by metis
qed

end
