(* ===== verification/Net_Bytes.thy ===== *)
theory Net_Bytes
  imports Yam_Prelude
begin

text \<open>
  Byte order and checksums of the network stack (\<^verbatim>\<open>src/src/net/net_socket.h\<close> and the first part of
  \<^verbatim>\<open>src/src/net/ip.c\<close>).  The kernel runs on a little-endian machine: a field stored in memory is the list of its
  bytes, low byte first (\<open>store16\<close>, \<open>store32\<close>), and a packed header is the concatenation of its fields.
\<close>

section \<open>Model\<close>

definition htons :: "u16 \<Rightarrow> u16" where
  "htons x = drop_bit 8 x OR push_bit 8 x"

definition htonl :: "u32 \<Rightarrow> u32" where
  "htonl x = drop_bit 24 (x AND 0xFF000000) OR drop_bit 8 (x AND 0x00FF0000) OR
     push_bit 8 (x AND 0x0000FF00) OR push_bit 24 (x AND 0x000000FF)"

definition make_ip :: "u8 \<Rightarrow> u8 \<Rightarrow> u8 \<Rightarrow> u8 \<Rightarrow> u32" where
  "make_ip a b c d = push_bit 24 (ucast a) OR push_bit 16 (ucast b) OR push_bit 8 (ucast c) OR ucast d"

definition store16 :: "u16 \<Rightarrow> u8 list" where
  "store16 x = [ucast x, ucast (drop_bit 8 x)]"

definition store32 :: "u32 \<Rightarrow> u8 list" where
  "store32 x = [ucast x, ucast (drop_bit 8 x), ucast (drop_bit 16 x), ucast (drop_bit 24 x)]"

definition load16 :: "u8 list \<Rightarrow> nat \<Rightarrow> u16" where
  "load16 bs i = ucast (bs ! i) OR push_bit 8 (ucast (bs ! (i + 1)))"

definition load32 :: "u8 list \<Rightarrow> nat \<Rightarrow> u32" where
  "load32 bs i = ucast (bs ! i) OR push_bit 8 (ucast (bs ! (i + 1))) OR
     push_bit 16 (ucast (bs ! (i + 2))) OR push_bit 24 (ucast (bs ! (i + 3)))"

text \<open>The summing loops: native 16-bit words, or big-endian ones, in a 32-bit accumulator.\<close>

fun sum_le :: "u32 \<Rightarrow> u8 list \<Rightarrow> u32" where
  "sum_le acc (a # b # bs) = sum_le (acc + (ucast a OR push_bit 8 (ucast b))) bs"
| "sum_le acc [a] = acc + ucast a"
| "sum_le acc [] = acc"

fun checksum_add_be_bytes :: "u32 \<Rightarrow> u8 list \<Rightarrow> u32" where
  "checksum_add_be_bytes acc (a # b # bs) = checksum_add_be_bytes (acc + (push_bit 8 (ucast a) OR ucast b)) bs"
| "checksum_add_be_bytes acc [a] = acc + push_bit 8 (ucast a)"
| "checksum_add_be_bytes acc [] = acc"

lemma fold_carry_decreases:
  fixes acc :: u32
  assumes "drop_bit 16 acc \<noteq> 0"
  shows "unat ((acc AND 0xFFFF) + drop_bit 16 acc) = unat acc mod 65536 + unat acc div 65536"
    and "unat acc mod 65536 + unat acc div 65536 < unat acc"
proof -
  have d: "unat (drop_bit 16 acc) = unat acc div 65536" by (simp only: unat_drop_bit_eq) (simp add: drop_bit_eq_div)
  have "acc AND 0xFFFF = take_bit 16 acc" by (simp add: take_bit_eq_mask mask_eq_exp_minus_1)
  then have m: "unat (acc AND 0xFFFF) = unat acc mod 65536" by (simp only: unsigned_take_bit_eq) (simp add: take_bit_eq_mod)
  have "unat acc < 2 ^ 32" using unsigned_less [of acc] by simp
  then have "unat acc mod 65536 + unat acc div 65536 < 2 ^ 32" by (simp add: div_less_iff_less_mult)
  then show "unat ((acc AND 0xFFFF) + drop_bit 16 acc) = unat acc mod 65536 + unat acc div 65536"
    by (simp add: unat_word_ariths(1) d m)
  have "unat acc div 65536 \<noteq> 0" using assms d by (metis unat_eq_zero)
  then show "unat acc mod 65536 + unat acc div 65536 < unat acc" using div_mult_mod_eq [of "unat acc" 65536] by linarith
qed

function fold_carry :: "u32 \<Rightarrow> u32" where
  "fold_carry acc = (if drop_bit 16 acc \<noteq> 0 then fold_carry ((acc AND 0xFFFF) + drop_bit 16 acc) else acc)"
  by pat_completeness auto
termination
  by (relation "measure unat") (simp_all add: fold_carry_decreases)

declare fold_carry.simps [simp del]

definition net_checksum :: "u8 list \<Rightarrow> u16" where
  "net_checksum bs = ucast (NOT (fold_carry (sum_le 0 bs)))"

definition pseudo_header :: "u32 \<Rightarrow> u32 \<Rightarrow> u8 \<Rightarrow> nat \<Rightarrow> u8 list" where
  "pseudo_header src_ip dst_ip proto len =
     [ucast (drop_bit 24 src_ip), ucast (drop_bit 16 src_ip), ucast (drop_bit 8 src_ip), ucast src_ip,
      ucast (drop_bit 24 dst_ip), ucast (drop_bit 16 dst_ip), ucast (drop_bit 8 dst_ip), ucast dst_ip,
      0, proto, of_nat (len div 256), of_nat len]"

definition transport_checksum :: "u32 \<Rightarrow> u32 \<Rightarrow> u8 \<Rightarrow> u8 list \<Rightarrow> u16" where
  "transport_checksum src_ip dst_ip proto bs =
     htons (ucast (NOT (fold_carry (checksum_add_be_bytes
       (checksum_add_be_bytes 0 (pseudo_header src_ip dst_ip proto (length bs))) bs))))"

section \<open>Byte order\<close>

lemma byte_masks:
  "(0xFF000000 :: u32) = push_bit 24 (mask 8)" "(0x00FF0000 :: u32) = push_bit 16 (mask 8)"
  "(0x0000FF00 :: u32) = push_bit 8 (mask 8)" "(0x000000FF :: u32) = mask 8"
  by (simp_all add: mask_numeral)

lemma htons_htons [simp]: "htons (htons x) = x"
proof (rule bit_word_eqI)
  show "bit (htons (htons x)) n = bit x n" if "n < LENGTH(16)" for n
    using that by (cases "n < 8") (auto simp: htons_def bit_simps not_less)
qed

lemma bit_htonl: "n < 32 \<Longrightarrow> bit (htonl x) n =
    (if n < 8 then bit x (24 + n) else if n < 16 then bit x (8 + n) else if n < 24 then bit x (n - 8) else bit x (n - 24))"
  unfolding htonl_def byte_masks by (auto simp: bit_simps not_less)

lemma htonl_htonl [simp]: "htonl (htonl x) = x"
proof (rule bit_word_eqI)
  fix n assume "n < LENGTH(32)"
  then consider "n < 8" | "8 \<le> n" "n < 16" | "16 \<le> n" "n < 24" | "24 \<le> n" "n < 32" by force
  then show "bit (htonl (htonl x)) n = bit x n" by cases (auto simp: bit_htonl)
qed

lemma load16_store16: "load16 (pre @ store16 x @ post) (length pre) = x"
proof (rule bit_word_eqI)
  show "bit (load16 (pre @ store16 x @ post) (length pre)) n = bit x n" if "n < LENGTH(16)" for n
    using that by (cases "n < 8") (auto simp: load16_def store16_def nth_append bit_simps not_less)
qed

lemma load32_store32: "load32 (pre @ store32 x @ post) (length pre) = x"
proof (rule bit_word_eqI)
  fix n assume "n < LENGTH(32)"
  then consider "n < 8" | "8 \<le> n" "n < 16" | "16 \<le> n" "n < 24" | "24 \<le> n" "n < 32" by force
  then show "bit (load32 (pre @ store32 x @ post) (length pre)) n = bit x n"
    by cases (auto simp: load32_def store32_def nth_append bit_simps)
qed

section \<open>One's complement sums\<close>

fun pair_sum :: "(nat \<Rightarrow> nat \<Rightarrow> nat) \<Rightarrow> u8 list \<Rightarrow> nat" where
  "pair_sum w (a # b # bs) = w (unat a) (unat b) + pair_sum w bs"
| "pair_sum w [a] = w (unat a) 0"
| "pair_sum w [] = 0"

abbreviation "w_le \<equiv> (\<lambda>a b. a + 256 * b)"
abbreviation "w_be \<equiv> (\<lambda>a b. 256 * a + b)"

lemma unat_byte_lt: "unat (a :: u8) < 256"
  using unsigned_less [of a] by simp

lemma unat_pair:
  fixes a b :: u8
  shows "unat (ucast a OR push_bit 8 (ucast b) :: u32) = unat a + 256 * unat b"
    and "unat (push_bit 8 (ucast a) OR ucast b :: u32) = 256 * unat a + unat b"
    and "unat (push_bit 8 (ucast a) :: u32) = 256 * unat a"
    and "unat (ucast a :: u32) = unat a"
proof -
  have u: "unat (ucast x :: u32) = unat x" for x :: u8
    using unat_byte_lt [of x] by (simp add: unsigned_ucast_eq take_bit_nat_eq_self)
  show "unat (ucast a :: u32) = unat a" by (rule u)
  have p: "unat (push_bit 8 (ucast x) :: u32) = 256 * unat x" for x :: u8
    using unat_byte_lt [of x] by (simp add: push_bit_eq_mult unat_word_ariths(2) u)
  show "unat (push_bit 8 (ucast a) :: u32) = 256 * unat a" by (rule p)
  have d: "(ucast x :: u32) AND push_bit 8 (ucast y) = 0" for x y :: u8
    by (rule bit_word_eqI) (auto simp: bit_simps dest: bit_imp_le_length)
  have "(ucast x :: u32) OR push_bit 8 (ucast y) = ucast x + push_bit 8 (ucast y)" for x y :: u8
    by (rule disjunctive_add_eq_or [OF d, symmetric])
  moreover have "unat ((ucast x :: u32) + push_bit 8 (ucast y)) = unat x + 256 * unat y" for x y :: u8
    using unat_byte_lt [of x] unat_byte_lt [of y] by (simp add: unat_word_ariths(1) u p)
  ultimately show "unat (ucast a OR push_bit 8 (ucast b) :: u32) = unat a + 256 * unat b"
    "unat (push_bit 8 (ucast a) OR ucast b :: u32) = 256 * unat a + unat b"
    by (simp_all add: or.commute)
qed

lemma sum_le_exact: "unat acc + pair_sum w_le bs < 2 ^ 32 \<Longrightarrow> unat (sum_le acc bs) = unat acc + pair_sum w_le bs"
  by (induction acc bs rule: sum_le.induct) (simp_all add: unat_word_ariths(1) unat_pair)

lemma sum_be_exact:
  "unat acc + pair_sum w_be bs < 2 ^ 32 \<Longrightarrow> unat (checksum_add_be_bytes acc bs) = unat acc + pair_sum w_be bs"
  by (induction acc bs rule: checksum_add_be_bytes.induct) (simp_all add: unat_word_ariths(1) unat_pair)

lemma pair_sum_bound:
  assumes "\<And>a b. a < 256 \<Longrightarrow> b < 256 \<Longrightarrow> w a b \<le> 65535"
  shows "pair_sum w bs \<le> 65535 * ((length bs + 1) div 2)"
  using assms
proof (induction w bs rule: pair_sum.induct)
  case (1 w a b bs)
  have "w (unat a) (unat b) \<le> 65535" by (rule 1(2)) (rule unat_byte_lt)+
  then show ?case using 1 by simp
next
  case (2 w a)
  have "w (unat a) 0 \<le> 65535" by (rule 2) (simp_all add: unat_byte_lt)
  then show ?case by simp
qed simp

lemma pair_sum_append: "even (length xs) \<Longrightarrow> pair_sum w (xs @ ys) = pair_sum w xs + pair_sum w ys"
  by (induction w xs rule: pair_sum.induct) auto

lemma fold_carry_spec:
  "unat (fold_carry s) < 65536 \<and> unat (fold_carry s) mod 65535 = unat s mod 65535 \<and> (unat (fold_carry s) = 0 \<longleftrightarrow> unat s = 0)"
proof (induction s rule: fold_carry.induct)
  case (1 s)
  show ?case
  proof (cases "drop_bit 16 s = 0")
    case True
    have "unat s div 65536 = unat (drop_bit 16 s)" by (simp only: unat_drop_bit_eq) (simp add: drop_bit_eq_div)
    then have "unat s < 65536" using True by (simp add: div_eq_0_iff)
    then show ?thesis using True by (simp add: fold_carry.simps)
  next
    case False
    let ?t = "(s AND 0xFFFF) + drop_bit 16 s" and ?m = "unat s"
    have t: "unat ?t = ?m mod 65536 + ?m div 65536" by (rule fold_carry_decreases(1) [OF False])
    have "?m = (?m mod 65536 + ?m div 65536) + 65535 * (?m div 65536)" using div_mult_mod_eq [of ?m 65536] by linarith
    then have "?m mod 65535 = unat ?t mod 65535" using t by (metis mod_mult_self2)
    moreover have "unat ?t = 0 \<longleftrightarrow> ?m = 0" unfolding t using div_mult_mod_eq [of ?m 65536] by auto
    moreover have "fold_carry s = fold_carry ?t" using False by (subst fold_carry.simps) simp
    ultimately show ?thesis using 1 [OF False] by simp
  qed
qed

lemma complement16: "unat s < 65536 \<Longrightarrow> unat (ucast (NOT s) :: u16) = 65535 - unat s" for s :: u32
proof -
  assume s: "unat s < 65536"
  have "(ucast (NOT s) :: u16) = NOT (ucast s)" by (rule bit_word_eqI) (simp add: bit_simps)
  also have "\<dots> = - 1 - ucast s" by (simp add: not_eq_complement)
  also have "unat \<dots> = unat (- 1 :: u16) - unat (ucast s :: u16)" by (rule unat_sub) simp
  also have "unat (ucast s :: u16) = unat s" using s by (simp add: unsigned_ucast_eq take_bit_nat_eq_self)
  also have "unat (- 1 :: u16) = 65535" by (simp only: unsigned_minus_1_eq_mask) (simp add: mask_eq_exp_minus_1)
  finally show ?thesis .
qed

text \<open>Adding the complement of a folded sum to the sum makes the fold all ones.\<close>

lemma complement_folds:
  assumes "unat t = unat s + (65535 - unat (fold_carry s))"
  shows "unat (fold_carry t) = 65535"
proof -
  have f: "unat (fold_carry s) < 65536" "unat (fold_carry s) mod 65535 = unat s mod 65535" "unat (fold_carry s) = 0 \<longleftrightarrow> unat s = 0"
    using fold_carry_spec [of s] by blast+
  have "unat t + unat (fold_carry s) = unat s + 65535" using assms f(1) by simp
  then have "(unat t + unat (fold_carry s)) mod 65535 = unat s mod 65535" by simp
  then have "(unat t + unat s) mod 65535 = (0 + unat s) mod 65535" using f(2) by (metis add_0 mod_add_right_eq)
  then have "unat t mod 65535 = 0" using mod_eq_dvd_iff_nat [of "unat s" "unat t + unat s" 65535] by simp
  moreover have "unat t \<noteq> 0" using assms f(3) by (cases "unat s = 0") auto
  ultimately have "unat (fold_carry t) < 65536" "unat (fold_carry t) mod 65535 = 0" "unat (fold_carry t) \<noteq> 0"
    using fold_carry_spec [of t] by auto
  then show ?thesis by (cases "unat (fold_carry t) < 65535") auto
qed

lemma store16_weights:
  "pair_sum w_le (store16 c) = unat c" "pair_sum w_be (store16 (htons c)) = unat c" "length (store16 c) = 2"
proof -
  have lo: "unat (ucast c :: u8) = unat c mod 256" by (simp add: unsigned_ucast_eq take_bit_eq_mod)
  have "unat c < 65536" using unsigned_less [of c] by simp
  then have "unat c div 256 < 256" by (simp add: div_less_iff_less_mult)
  then have hi: "unat (ucast (drop_bit 8 c) :: u8) = unat c div 256"
    by (simp only: unsigned_ucast_eq unat_drop_bit_eq) (simp add: take_bit_nat_eq_self drop_bit_eq_div)
  have "ucast (htons c) = (ucast (drop_bit 8 c) :: u8)"
    by (rule bit_word_eqI) (auto simp: htons_def bit_simps)
  moreover have "ucast (drop_bit 8 (htons c)) = (ucast c :: u8)"
    by (rule bit_word_eqI) (auto simp: htons_def bit_simps)
  ultimately show "pair_sum w_le (store16 c) = unat c" "pair_sum w_be (store16 (htons c)) = unat c" "length (store16 c) = 2"
    by (simp_all add: store16_def lo hi)
qed

lemma small_sum:
  assumes "length bs \<le> 131070"
  shows "pair_sum w_le bs < 2 ^ 32" "pair_sum w_be bs < 2 ^ 32"
proof -
  have "65535 * ((length bs + 1) div 2) \<le> 65535 * (65535 :: nat)" using assms by (intro mult_le_mono) auto
  then show "pair_sum w_le bs < 2 ^ 32" "pair_sum w_be bs < 2 ^ 32"
    using pair_sum_bound [of w_le bs] pair_sum_bound [of w_be bs] by auto
qed

lemma net_checksum_zero:
  assumes "even (length pre)" "length pre + length post \<le> 131068"
  shows "net_checksum (pre @ store16 (net_checksum (pre @ [0, 0] @ post)) @ post) = 0"
proof -
  let ?z = "pre @ [0, 0] @ post" and ?c = "net_checksum (pre @ [0, 0] @ post)"
  have s: "unat (sum_le 0 ?z) = pair_sum w_le ?z" using small_sum(1) [of ?z] assms(2) by (intro sum_le_exact [of 0, simplified]) simp
  have c: "unat ?c = 65535 - unat (fold_carry (sum_le 0 ?z))"
    using fold_carry_spec [of "sum_le 0 ?z"] by (simp add: net_checksum_def complement16)
  have t: "unat (sum_le 0 (pre @ store16 ?c @ post)) = pair_sum w_le (pre @ store16 ?c @ post)"
    using small_sum(1) [of "pre @ store16 ?c @ post"] assms(2) store16_weights(3) by (intro sum_le_exact [of 0, simplified]) simp
  have "pair_sum w_le (pre @ store16 ?c @ post) = pair_sum w_le ?z + unat ?c"
    using assms(1) by (simp add: pair_sum_append store16_weights)
  then have "unat (fold_carry (sum_le 0 (pre @ store16 ?c @ post))) = 65535"
    by (intro complement_folds [of _ "sum_le 0 ?z"]) (simp only: s t c)
  then have "unat (net_checksum (pre @ store16 ?c @ post)) = 0" by (simp add: net_checksum_def complement16)
  then show ?thesis by (simp add: unat_eq_zero)
qed

section \<open>Properties\<close>

text \<open>The TCP and UDP checksum verifies over the pseudo header and the segment: with the computed
value stored in the checksum field, the transport checksum of the segment is zero.\<close>

theorem transport_checksum_verifies:
  assumes "even (length pre)" "length pre + length post \<le> 131056"
  shows "transport_checksum src dst proto
    (pre @ store16 (transport_checksum src dst proto (pre @ [0, 0] @ post)) @ post) = 0"
proof -
  let ?z = "pre @ [0, 0] @ post" and ?c = "transport_checksum src dst proto (pre @ [0, 0] @ post)"
  let ?y = "pre @ store16 ?c @ post" and ?h = "pseudo_header src dst proto (length pre + 2 + length post)"
  define s where "s xs = checksum_add_be_bytes (checksum_add_be_bytes 0 ?h) xs" for xs
  have len: "length ?h = 12" "length ?z = length pre + 2 + length post" "length ?y = length pre + 2 + length post"
    by (simp_all add: pseudo_header_def store16_weights)
  have ex: "unat (s xs) = pair_sum w_be (?h @ xs)" if "length xs = length pre + 2 + length post" for xs
  proof -
    have a: "pair_sum w_be (?h @ xs) = pair_sum w_be ?h + pair_sum w_be xs" by (rule pair_sum_append) (simp only: len, simp)
    have b: "pair_sum w_be (?h @ xs) < 2 ^ 32" using small_sum(2) [of "?h @ xs"] assms(2) that len by simp
    have h: "unat (checksum_add_be_bytes 0 ?h) = pair_sum w_be ?h" using a b sum_be_exact [of 0 ?h] by simp
    show ?thesis unfolding s_def using sum_be_exact [of "checksum_add_be_bytes 0 ?h" xs] a b h by simp
  qed
  have tc: "transport_checksum src dst proto xs = htons (ucast (NOT (fold_carry (s xs))))" if "length xs = length pre + 2 + length post" for xs
    unfolding transport_checksum_def s_def that ..
  have cz: "htons ?c = ucast (NOT (fold_carry (s ?z)))" by (simp add: transport_checksum_def s_def)
  then have c: "unat (htons ?c) = 65535 - unat (fold_carry (s ?z))" using fold_carry_spec [of "s ?z"] by (simp add: complement16)
  have "pair_sum w_be (store16 ?c) = unat (htons ?c)" using store16_weights(2) [of "htons ?c"] by simp
  then have "pair_sum w_be (?h @ ?y) = pair_sum w_be (?h @ ?z) + unat (htons ?c)"
    using assms(1) len by (simp add: pair_sum_append store16_weights(3))
  then have "unat (fold_carry (s ?y)) = 65535"
    using ex [OF len(2)] ex [OF len(3)] c by (intro complement_folds [of _ "s ?z"]) simp
  then have "unat (ucast (NOT (fold_carry (s ?y))) :: u16) = 0" by (simp add: complement16)
  then have "ucast (NOT (fold_carry (s ?y))) = (0 :: u16)" by (simp only: unat_eq_zero)
  then show ?thesis unfolding tc [OF len(3)] by (simp add: htons_def)
qed

theorem transport_checksum_verifies_witness:
  "transport_checksum 0x0A000001 0x0A000002 17
     ([0, 53, 0xC0, 0, 0, 10] @ store16 (transport_checksum 0x0A000001 0x0A000002 17 ([0, 53, 0xC0, 0, 0, 10] @ [0, 0] @ [1, 2])) @ [1, 2]) = 0"
  by (rule transport_checksum_verifies) simp_all

end
