(* ===== verification/Ip.thy ===== *)
theory Ip
  imports Net_Bytes
begin

text \<open>
  The interface, ARP and IPv4 (\<^verbatim>\<open>src/src/net/arp.c\<close>, \<^verbatim>\<open>src/src/net/ip.c\<close>).  The state is a record that the
  transport theories extend, so the operations are polymorphic in the extension.  A frame handed to the driver's
  \<^verbatim>\<open>send\<close> is appended to \<open>net_sent\<close>; \<open>net_heap n\<close> says whether \<^verbatim>\<open>kmalloc(n)\<close> succeeds.

  Sending may wait for an ARP reply: the loop polls the driver (\<^verbatim>\<open>net_poll\<close>) and yields the processor, and what
  the driver and the other tasks do to the network state meanwhile is a parameter, the pair \<open>env\<close> of the effect of
  one poll and of one yield.
\<close>

section \<open>State\<close>

record net_interface =
  mac_addr :: "u8 list"
  ip_addr :: u32
  netmask :: u32
  gateway :: u32
  dns_server :: u32
  is_up :: bool
  dhcp_done :: bool
  has_send :: bool

record arp_entry =
  ae_ip :: u32
  ae_mac :: "u8 list"
  ae_valid :: bool
  ae_age :: u32

record net =
  g_net_iface :: net_interface
  g_ip_id :: u16
  g_arp_cache :: "nat \<Rightarrow> arp_entry"
  net_sent :: "u8 list list"
  net_heap :: "nat \<Rightarrow> bool"

type_synonym 's net_env = "('s \<Rightarrow> 's) \<times> ('s \<Rightarrow> 's)"

definition ETH_HLEN :: nat where [yam_consts]: "ETH_HLEN = 14"
definition ETH_TYPE_IP :: u16 where [yam_consts]: "ETH_TYPE_IP = 0x0800"
definition ETH_TYPE_ARP :: u16 where [yam_consts]: "ETH_TYPE_ARP = 0x0806"
definition IP_PROTO_ICMP :: u8 where [yam_consts]: "IP_PROTO_ICMP = 1"
definition IP_PROTO_TCP :: u8 where [yam_consts]: "IP_PROTO_TCP = 6"
definition IP_PROTO_UDP :: u8 where [yam_consts]: "IP_PROTO_UDP = 17"
definition ARP_CACHE_SIZE :: nat where [yam_consts]: "ARP_CACHE_SIZE = 64"

definition iface_send :: "u8 list \<Rightarrow> 'a net_scheme \<Rightarrow> 'a net_scheme" where
  "iface_send frame s = s\<lparr> net_sent := net_sent s @ [frame] \<rparr>"

section \<open>Waiting\<close>

definition net_poll :: "'s net_env \<Rightarrow> 's \<Rightarrow> 's" where
  "net_poll env s = fst env s"

definition net_coop_yield :: "'s net_env \<Rightarrow> nat \<Rightarrow> 's \<Rightarrow> 's" where
  "net_coop_yield env spin_iter s = (if spin_iter mod 1024 = 0 then snd env s else s)"

text \<open>
  \<^verbatim>\<open>for (i = 0; i < n && !stop; i++) { if (i % k == 0) net_poll(); net_coop_yield(i); }\<close> with \<open>n\<close> turns left;
  whether the condition stopped it.
\<close>

fun net_spin :: "'s net_env \<Rightarrow> ('s \<Rightarrow> bool) \<Rightarrow> nat \<Rightarrow> nat \<Rightarrow> nat \<Rightarrow> 's \<Rightarrow> bool \<times> 's" where
  "net_spin env stop k 0 i s = (False, s)"
| "net_spin env stop k (Suc n) i s =
     (if stop s then (True, s)
      else net_spin env stop k n (Suc i) (net_coop_yield env i (if i mod k = 0 then net_poll env s else s)))"

section \<open>ARP\<close>

definition net_arp_init :: "'a net_scheme \<Rightarrow> 'a net_scheme" where
  "net_arp_init s = s\<lparr> g_arp_cache := \<lambda>i. \<lparr> ae_ip = 0, ae_mac = replicate 6 0, ae_valid = False, ae_age = 0 \<rparr> \<rparr>"

definition arp_cache_find :: "u32 \<Rightarrow> 'a net_scheme \<Rightarrow> nat option" where
  "arp_cache_find ip s = scan (\<lambda>i. ae_valid (g_arp_cache s i) \<and> ae_ip (g_arp_cache s i) = ip) 0 ARP_CACHE_SIZE"

fun arp_pick :: "(nat \<Rightarrow> arp_entry) \<Rightarrow> u32 \<Rightarrow> nat \<Rightarrow> nat \<Rightarrow> nat \<Rightarrow> nat" where
  "arp_pick cache ip 0 i oldest = oldest"
| "arp_pick cache ip (Suc n) i oldest =
     (if \<not> ae_valid (cache i) \<or> ae_ip (cache i) = ip then i
      else arp_pick cache ip n (Suc i) (if ae_age (cache i) > ae_age (cache oldest) then i else oldest))"

definition arp_cache_add :: "u32 \<Rightarrow> u8 list \<Rightarrow> 'a net_scheme \<Rightarrow> 'a net_scheme" where
  "arp_cache_add ip mac s =
     s\<lparr> g_arp_cache := (g_arp_cache s)(arp_pick (g_arp_cache s) ip ARP_CACHE_SIZE 0 0 :=
          \<lparr> ae_ip = ip, ae_mac = mac, ae_valid = True, ae_age = 0 \<rparr>) \<rparr>"

definition arp_lookup :: "u32 \<Rightarrow> 'a net_scheme \<Rightarrow> u8 list option" where
  "arp_lookup ip s = map_option (\<lambda>i. ae_mac (g_arp_cache s i)) (arp_cache_find ip s)"

definition eth_header :: "u8 list \<Rightarrow> u8 list \<Rightarrow> u16 \<Rightarrow> u8 list" where
  "eth_header dst src ethertype = dst @ src @ store16 (htons ethertype)"

definition arp_pkt :: "u16 \<Rightarrow> u8 list \<Rightarrow> u32 \<Rightarrow> u8 list \<Rightarrow> u8 list \<Rightarrow> u8 list" where
  "arp_pkt oper sha spa tha tpa =
     store16 (htons 1) @ store16 (htons ETH_TYPE_IP) @ [6, 4] @ store16 (htons oper) @ sha @ store32 (htonl spa) @ tha @ tpa"

definition arp_send_request :: "u32 \<Rightarrow> 'a net_scheme \<Rightarrow> 'a net_scheme" where
  "arp_send_request target_ip s =
     (let nif = g_net_iface s
      in if \<not> is_up nif \<or> \<not> has_send nif then s
         else iface_send (eth_header (replicate 6 0xFF) (mac_addr nif) ETH_TYPE_ARP @
                arp_pkt 1 (mac_addr nif) (ip_addr nif) (replicate 6 0) (store32 (htonl target_ip))) s)"

definition arp_handle :: "u8 list \<Rightarrow> 'a net_scheme \<Rightarrow> 'a net_scheme" where
  "arp_handle buf s =
     (if length buf < 28 then s
      else if htons (load16 buf 0) \<noteq> 1 \<or> htons (load16 buf 2) \<noteq> ETH_TYPE_IP then s
      else let sha = take 6 (drop 8 buf);
               s1 = arp_cache_add (htonl (load32 buf 14)) sha s;
               nif = g_net_iface s1
           in if htons (load16 buf 6) = 1 \<and> htonl (load32 buf 24) = ip_addr nif \<and> has_send nif
              then iface_send (eth_header sha (mac_addr nif) ETH_TYPE_ARP @
                     arp_pkt 2 (mac_addr nif) (ip_addr nif) sha (take 4 (drop 14 buf))) s1
              else s1)"

section \<open>Sending\<close>

definition net_ip_init :: "'a net_scheme \<Rightarrow> 'a net_scheme" where
  "net_ip_init s = s\<lparr> g_ip_id := 1 \<rparr>"

definition ip_next_hop :: "net_interface \<Rightarrow> u32 \<Rightarrow> u32" where
  "ip_next_hop nif dst_ip = (if dst_ip AND netmask nif \<noteq> ip_addr nif AND netmask nif then gateway nif else dst_ip)"

definition ip_dst_mac :: "'a net_scheme net_env \<Rightarrow> u32 \<Rightarrow> 'a net_scheme \<Rightarrow> u8 list \<times> 'a net_scheme" where
  "ip_dst_mac env dst_ip s =
     (let next_hop = ip_next_hop (g_net_iface s) dst_ip
      in if dst_ip = 0xFFFFFFFF \<or> next_hop = 0xFFFFFFFF then (replicate 6 0xFF, s)
         else if dst_ip AND 0xF0000000 = 0xE0000000
         then ([0x01, 0x00, 0x5E, ucast (drop_bit 16 dst_ip AND 0x7F), ucast (drop_bit 8 dst_ip AND 0xFF), ucast (dst_ip AND 0xFF)], s)
         else case arp_lookup next_hop s of
                Some mac \<Rightarrow> (mac, s)
              | None \<Rightarrow>
                  let s1 = snd (net_spin env (\<lambda>_. False) 1000 100000 0 (arp_send_request next_hop s))
                  in (case arp_lookup next_hop s1 of Some mac \<Rightarrow> mac | None \<Rightarrow> replicate 6 0xFF, s1))"

definition ip_hdr :: "u16 \<Rightarrow> u8 \<Rightarrow> nat \<Rightarrow> u32 \<Rightarrow> u32 \<Rightarrow> u16 \<Rightarrow> u8 list" where
  "ip_hdr ident proto payload_len src dst checksum =
     [0x45, 0] @ store16 (htons (of_nat (20 + payload_len))) @ store16 (htons ident) @ store16 (htons 0x4000) @
     [64, proto] @ store16 checksum @ store32 (htonl src) @ store32 (htonl dst)"

definition ip_send :: "'a net_scheme net_env \<Rightarrow> u32 \<Rightarrow> u8 \<Rightarrow> u8 list \<Rightarrow> 'a net_scheme \<Rightarrow> 'a net_scheme" where
  "ip_send env dst_ip proto payload s =
     (if \<not> is_up (g_net_iface s) \<or> \<not> has_send (g_net_iface s) then s
      else if \<not> net_heap s (14 + 20 + length payload) then s
      else case ip_dst_mac env dst_ip s of (dst_mac, s1) \<Rightarrow>
        let nif = g_net_iface s1;
            hdr = ip_hdr (g_ip_id s1) proto (length payload) (ip_addr nif) dst_ip;
            frame = eth_header dst_mac (mac_addr nif) ETH_TYPE_IP @ hdr (net_checksum (hdr 0)) @ payload
        in iface_send frame (s1\<lparr> g_ip_id := g_ip_id s1 + 1 \<rparr>))"

section \<open>Receiving\<close>

text \<open>
  The checks of \<^verbatim>\<open>ip_receive\<close> and the handler they select, with the bytes it is given: the IP packet, and the
  transport header and data.
\<close>

datatype ip_dispatch =
  D_drop
| D_icmp "u8 list" "u8 list"
| D_tcp "u8 list" "u8 list" "u8 list"
| D_udp "u8 list" "u8 list" "u8 list"

definition ip_demux :: "u8 list \<Rightarrow> ip_dispatch" where
  "ip_demux pkt =
     (if length pkt < 20 then D_drop
      else if drop_bit 4 (pkt ! 0) \<noteq> 4 then D_drop
      else let proto = pkt ! 9; hdr_len = unat (pkt ! 0 AND 0x0F) * 4
        in if hdr_len < 20 \<or> hdr_len > length pkt then D_drop
           else let ip_total = unat (htons (load16 pkt 2))
             in if ip_total < hdr_len then D_drop
                else if ip_total > length pkt then D_drop
                else let payload = take (ip_total - hdr_len) (drop hdr_len pkt)
                  in if proto = IP_PROTO_ICMP then D_icmp pkt payload
                     else if proto = IP_PROTO_TCP
                     then if length payload < 20 then D_drop
                          else let tcp_hdr_len = unat (drop_bit 4 (payload ! 12)) * 4
                            in if tcp_hdr_len < 20 \<or> tcp_hdr_len > length payload then D_drop
                               else D_tcp pkt payload (drop tcp_hdr_len payload)
                     else if proto = IP_PROTO_UDP
                     then if length payload < 8 then D_drop else D_udp pkt payload (drop 8 payload)
                     else D_drop)"

text \<open>\<^verbatim>\<open>ntohl(hdr->src_ip)\<close>\<close>

definition ip_src :: "u8 list \<Rightarrow> u32" where
  "ip_src pkt = htonl (load32 pkt 12)"

datatype eth_dispatch = F_drop | F_arp "u8 list" | F_ip "u8 list"

definition eth_demux :: "u8 list \<Rightarrow> eth_dispatch" where
  "eth_demux buf =
     (if length buf < ETH_HLEN then F_drop
      else let ty = htons (load16 buf 12); payload = drop ETH_HLEN buf
        in if ty = ETH_TYPE_ARP then F_arp payload
           else if ty = ETH_TYPE_IP then (if length payload \<ge> 20 then F_ip payload else F_drop)
           else F_drop)"

section \<open>The ARP cache\<close>

text \<open>The used slots are a prefix, and no address is in two of them.\<close>

definition arp_wf :: "'a net_scheme \<Rightarrow> bool" where
  "arp_wf s \<longleftrightarrow> (\<exists>n \<le> ARP_CACHE_SIZE. (\<forall>i < ARP_CACHE_SIZE. ae_valid (g_arp_cache s i) \<longleftrightarrow> i < n) \<and>
     inj_on (\<lambda>i. ae_ip (g_arp_cache s i)) {..<n}) \<and> (\<forall>i < ARP_CACHE_SIZE. ae_age (g_arp_cache s i) = 0)"

lemma net_arp_init_wf: "arp_wf (net_arp_init s)"
  by (auto simp: arp_wf_def net_arp_init_def)

text \<open>Ages never grow, so the slot picked is the first that is free or holds the address, or slot 0.\<close>

lemma arp_pick_scan:
  assumes "\<And>j. j < i + n \<Longrightarrow> ae_age (cache j) = 0" "oldest < i + n"
  shows "arp_pick cache ip n i oldest =
    (case scan (\<lambda>j. \<not> ae_valid (cache j) \<or> ae_ip (cache j) = ip) i (i + n) of Some j \<Rightarrow> j | None \<Rightarrow> oldest)"
  using assms
proof (induction cache ip n i oldest rule: arp_pick.induct)
  case (1 cache ip i oldest)
  then show ?case by (simp add: scan.simps)
next
  case (2 cache ip n i oldest)
  then show ?case by (simp add: scan.simps [of _ i])
qed

text \<open>The slot an address goes to: its own, the first free one, or slot 0 of a full cache.\<close>

lemma arp_slot:
  assumes "arp_wf s"
  shows "\<exists>n k. arp_pick (g_arp_cache s) ip ARP_CACHE_SIZE 0 0 = k \<and> k < ARP_CACHE_SIZE \<and> n \<le> ARP_CACHE_SIZE \<and>
    (\<forall>i < ARP_CACHE_SIZE. ae_valid (g_arp_cache s i) \<longleftrightarrow> i < n) \<and> inj_on (\<lambda>i. ae_ip (g_arp_cache s i)) {..<n} \<and>
    (\<forall>j < n. j \<noteq> k \<longrightarrow> ae_ip (g_arp_cache s j) \<noteq> ip) \<and> k \<le> n \<and>
    (k = n \<or> ae_ip (g_arp_cache s k) = ip \<or> n = ARP_CACHE_SIZE \<and> k = 0)"
proof -
  obtain n where n: "n \<le> ARP_CACHE_SIZE" "\<And>i. i < ARP_CACHE_SIZE \<Longrightarrow> ae_valid (g_arp_cache s i) \<longleftrightarrow> i < n"
    "inj_on (\<lambda>i. ae_ip (g_arp_cache s i)) {..<n}" "\<And>i. i < ARP_CACHE_SIZE \<Longrightarrow> ae_age (g_arp_cache s i) = 0"
    using assms unfolding arp_wf_def by blast
  let ?P = "\<lambda>j. \<not> ae_valid (g_arp_cache s j) \<or> ae_ip (g_arp_cache s j) = ip"
  have pick: "arp_pick (g_arp_cache s) ip ARP_CACHE_SIZE 0 0 = (case scan ?P 0 ARP_CACHE_SIZE of Some j \<Rightarrow> j | None \<Rightarrow> 0)"
    using arp_pick_scan [of 0 ARP_CACHE_SIZE "g_arp_cache s" 0 ip] n(4) by (simp add: ARP_CACHE_SIZE_def)
  show ?thesis
  proof (cases "scan ?P 0 ARP_CACHE_SIZE")
    case None
    then have all: "ae_valid (g_arp_cache s j) \<and> ae_ip (g_arp_cache s j) \<noteq> ip" if "j < ARP_CACHE_SIZE" for j
      using that by (auto simp: scan_None_iff)
    have "n = ARP_CACHE_SIZE"
    proof (rule ccontr)
      assume "n \<noteq> ARP_CACHE_SIZE"
      then show False using all [of n] n(1) n(2) [of n] by simp
    qed
    then show ?thesis using pick None n all by (intro exI [of _ n] exI [of _ 0]) (auto simp: ARP_CACHE_SIZE_def)
  next
    case (Some k)
    then have k: "k < ARP_CACHE_SIZE" "?P k" "\<And>j. j < k \<Longrightarrow> ae_valid (g_arp_cache s j) \<and> ae_ip (g_arp_cache s j) \<noteq> ip"
      by (auto simp: scan_Some_iff)
    have kn: "k \<le> n" using k(1,3) n(1,2) by (metis less_trans not_le order.irrefl)
    have "ae_ip (g_arp_cache s j) \<noteq> ip" if j: "j < n" "j \<noteq> k" for j
    proof (cases "k < n")
      case True
      then have "ae_ip (g_arp_cache s k) = ip" using k(1,2) n(2) by auto
      then show ?thesis using n(3) True j by (metis inj_on_def lessThan_iff)
    next
      case False
      then show ?thesis using k(3) [of j] j kn by simp
    qed
    then show ?thesis using pick Some k(1,2) n kn by (intro exI [of _ n] exI [of _ k]) auto
  qed
qed

lemma arp_cache_add_wf:
  assumes "arp_wf s" shows "arp_wf (arp_cache_add ip mac s)"
proof -
  obtain n k where nk: "arp_pick (g_arp_cache s) ip ARP_CACHE_SIZE 0 0 = k" "k < ARP_CACHE_SIZE" "n \<le> ARP_CACHE_SIZE"
    "\<And>i. i < ARP_CACHE_SIZE \<Longrightarrow> ae_valid (g_arp_cache s i) \<longleftrightarrow> i < n" "inj_on (\<lambda>i. ae_ip (g_arp_cache s i)) {..<n}"
    "\<And>j. j < n \<Longrightarrow> j \<noteq> k \<Longrightarrow> ae_ip (g_arp_cache s j) \<noteq> ip" "k \<le> n"
    using arp_slot [OF assms, of ip] by blast
  let ?c = "g_arp_cache (arp_cache_add ip mac s)" and ?n = "max n (Suc k)"
  have c: "?c j = (if j = k then \<lparr> ae_ip = ip, ae_mac = mac, ae_valid = True, ae_age = 0 \<rparr> else g_arp_cache s j)" for j
    by (simp add: arp_cache_add_def nk(1))
  have "inj_on (\<lambda>i. ae_ip (?c i)) {..<?n}"
  proof (rule inj_onI)
    fix x y assume xy: "x \<in> {..<?n}" "y \<in> {..<?n}" "ae_ip (?c x) = ae_ip (?c y)"
    then have "x = k \<or> x < n" "y = k \<or> y < n" using nk(7) by auto
    then show "x = y" using xy(3) nk(6) inj_onD [OF nk(5), of x y] by (auto simp: c split: if_splits)
  qed
  moreover have "ae_valid (?c i) \<longleftrightarrow> i < ?n" if "i < ARP_CACHE_SIZE" for i using nk(4) [OF that] nk(7) by (auto simp: c)
  moreover have "ae_age (?c i) = 0" if "i < ARP_CACHE_SIZE" for i using assms that by (auto simp: c arp_wf_def)
  moreover have "?n \<le> ARP_CACHE_SIZE" using nk(2,3) by simp
  ultimately show ?thesis unfolding arp_wf_def by blast
qed

inductive arp_reachable :: "net \<Rightarrow> bool" where
  "arp_reachable (net_arp_init s)"
| "arp_reachable s \<Longrightarrow> arp_reachable (arp_cache_add ip mac s)"

lemma arp_reachable_wf: "arp_reachable s \<Longrightarrow> arp_wf s"
  by (induction rule: arp_reachable.induct) (simp_all add: net_arp_init_wf arp_cache_add_wf)

section \<open>Headers\<close>

lemma length_stores [simp]: "length (store16 x) = 2" "length (store32 y) = 4"
  by (simp_all add: store16_def store32_def)

lemma length_ip_hdr [simp]: "length (ip_hdr ident proto n src dst c) = 20"
  by (simp add: ip_hdr_def)

lemma load16_at: "length pre = i \<Longrightarrow> load16 (pre @ store16 x @ post) i = x"
  using load16_store16 by blast

lemma load32_at: "length pre = i \<Longrightarrow> load32 (pre @ store32 x @ post) i = x"
  using load32_store32 by blast

lemma eth_demux_ip:
  assumes "length d = 6" "length m = 6" "20 \<le> length pkt"
  shows "eth_demux (eth_header d m ETH_TYPE_IP @ pkt) = F_ip pkt"
proof -
  have "load16 (eth_header d m ETH_TYPE_IP @ pkt) 12 = htons ETH_TYPE_IP"
    using load16_at [of "d @ m" 12 "htons ETH_TYPE_IP" pkt] assms by (simp add: eth_header_def)
  then show ?thesis using assms by (simp add: eth_demux_def eth_header_def Let_def yam_consts)
qed

lemma ip_hdr_fields:
  fixes ident c :: u16 and proto :: u8 and src dst :: u32 and rest :: "u8 list"
  assumes "n \<le> 65515"
  defines "pkt \<equiv> ip_hdr ident proto n src dst c @ rest"
  shows "pkt ! 0 = 0x45" "pkt ! 9 = proto" "unat (htons (load16 pkt 2)) = 20 + n" "ip_src pkt = src" "htonl (load32 pkt 16) = dst"
proof -
  show "pkt ! 0 = 0x45" by (simp add: pkt_def ip_hdr_def)
  show "pkt ! 9 = proto" by (simp add: pkt_def ip_hdr_def store16_def)
  have "load16 pkt 2 = htons (of_nat (20 + n))"
    using load16_at [of "[0x45, 0]" 2 "htons (of_nat (20 + n))"] by (simp add: pkt_def ip_hdr_def)
  then show "unat (htons (load16 pkt 2)) = 20 + n" using assms(1) by (simp only: htons_htons) (rule unat_of_nat_lt, simp)
  let ?a = "[0x45, 0] @ store16 (htons (of_nat (20 + n))) @ store16 (htons ident) @ store16 (htons 0x4000) @ [64, proto] @ store16 c"
  show "ip_src pkt = src"
    using load32_at [of ?a 12 "htonl src" "store32 (htonl dst) @ rest"] by (simp add: pkt_def ip_hdr_def ip_src_def)
  show "htonl (load32 pkt 16) = dst"
    using load32_at [of "?a @ store32 (htonl src)" 16 "htonl dst" rest] by (simp add: pkt_def ip_hdr_def)
qed

lemma ip_hdr_checksum: "net_checksum (ip_hdr ident proto n src dst (net_checksum (ip_hdr ident proto n src dst 0))) = 0"
proof -
  let ?pre = "[0x45, 0] @ store16 (htons (of_nat (20 + n))) @ store16 (htons ident) @ store16 (htons 0x4000) @ [64, proto]"
  let ?post = "store32 (htonl src) @ store32 (htonl dst)"
  have h: "ip_hdr ident proto n src dst c = ?pre @ store16 c @ ?post" for c by (simp add: ip_hdr_def)
  have z: "store16 0 = [0, 0]" by (simp add: store16_def)
  show ?thesis unfolding h z by (rule net_checksum_zero) simp_all
qed


lemma ip_send_delivers:
  assumes "is_up (g_net_iface s)" "has_send (g_net_iface s)" "net_heap s (34 + length payload)" "length payload \<le> 65515"
    and "ip_dst_mac env dst s = (mac, s1)" "length mac = 6" "length (mac_addr (g_net_iface s1)) = 6"
  shows "\<exists>frame pkt. net_sent (ip_send env dst proto payload s) = net_sent s1 @ [frame] \<and>
    eth_demux (frame @ pad) = F_ip pkt \<and> ip_src pkt = ip_addr (g_net_iface s1) \<and> htonl (load32 pkt 16) = dst \<and>
    net_checksum (take 20 pkt) = 0 \<and>
    (proto = IP_PROTO_ICMP \<longrightarrow> ip_demux pkt = D_icmp pkt payload) \<and>
    (proto = IP_PROTO_UDP \<longrightarrow> 8 \<le> length payload \<longrightarrow> ip_demux pkt = D_udp pkt payload (drop 8 payload))"
proof -
  define c where "c = net_checksum (ip_hdr (g_ip_id s1) proto (length payload) (ip_addr (g_net_iface s1)) dst 0)"
  define hdr where "hdr = ip_hdr (g_ip_id s1) proto (length payload) (ip_addr (g_net_iface s1)) dst c"
  define frame where "frame = eth_header mac (mac_addr (g_net_iface s1)) ETH_TYPE_IP @ hdr @ payload"
  define pkt where "pkt = hdr @ payload @ pad"
  have len: "length hdr = 20" by (simp add: hdr_def)
  have f: "pkt ! 0 = 0x45" "pkt ! 9 = proto" "unat (htons (load16 pkt 2)) = 20 + length payload"
    "ip_src pkt = ip_addr (g_net_iface s1)" "htonl (load32 pkt 16) = dst"
    using ip_hdr_fields [OF assms(4)] by (simp_all add: pkt_def hdr_def)
  have "net_sent (ip_send env dst proto payload s) = net_sent s1 @ [frame]"
    using assms(1-3,5) by (simp add: ip_send_def iface_send_def Let_def frame_def hdr_def c_def)
  moreover have "eth_demux (frame @ pad) = F_ip pkt"
    using eth_demux_ip [OF assms(6,7), of pkt] len by (simp add: frame_def pkt_def)
  moreover have "net_checksum (take 20 pkt) = 0" using len ip_hdr_checksum by (simp add: pkt_def) (simp add: hdr_def c_def)
  moreover have "take (20 + length payload - 20) (drop 20 pkt) = payload" using len by (simp add: pkt_def)
  then have "proto = IP_PROTO_ICMP \<longrightarrow> ip_demux pkt = D_icmp pkt payload"
    "proto = IP_PROTO_UDP \<longrightarrow> 8 \<le> length payload \<longrightarrow> ip_demux pkt = D_udp pkt payload (drop 8 payload)"
    using f len by (simp_all add: ip_demux_def Let_def pkt_def yam_consts)
  ultimately show ?thesis using f(4,5) by blast
qed

section \<open>Properties\<close>

text \<open>Learning an address: after an ARP packet's sender is added to any reachable cache, looking the address up
returns the hardware address just learned, and every other address resolves as before unless the cache was full
and the entry in slot 0 made room.\<close>

theorem arp_learn_lookup:
  assumes "arp_reachable s"
  shows "arp_lookup ip (arp_cache_add ip mac s) = Some mac \<and>
    (ip' \<noteq> ip \<longrightarrow> arp_lookup ip' (arp_cache_add ip mac s) = arp_lookup ip' s \<or>
      (\<forall>i < ARP_CACHE_SIZE. ae_valid (g_arp_cache s i)) \<and> ae_ip (g_arp_cache s 0) = ip')"
proof (intro conjI impI)
  obtain n k where nk: "arp_pick (g_arp_cache s) ip ARP_CACHE_SIZE 0 0 = k" "k < ARP_CACHE_SIZE"
    "\<And>i. i < ARP_CACHE_SIZE \<Longrightarrow> ae_valid (g_arp_cache s i) \<longleftrightarrow> i < n"
    "\<And>j. j < n \<Longrightarrow> j \<noteq> k \<Longrightarrow> ae_ip (g_arp_cache s j) \<noteq> ip" "k \<le> n"
    "k = n \<or> ae_ip (g_arp_cache s k) = ip \<or> n = ARP_CACHE_SIZE \<and> k = 0"
    using arp_slot [OF arp_reachable_wf [OF assms], of ip] by blast
  let ?c = "g_arp_cache (arp_cache_add ip mac s)"
  have c: "?c j = (if j = k then \<lparr> ae_ip = ip, ae_mac = mac, ae_valid = True, ae_age = 0 \<rparr> else g_arp_cache s j)" for j
    by (simp add: arp_cache_add_def nk(1))
  have "arp_cache_find ip (arp_cache_add ip mac s) = Some k"
    unfolding arp_cache_find_def scan_Some_iff using nk(2-5) by (auto simp: c)
  then show "arp_lookup ip (arp_cache_add ip mac s) = Some mac" by (simp add: arp_lookup_def c)
  assume ne: "ip' \<noteq> ip"
  show "arp_lookup ip' (arp_cache_add ip mac s) = arp_lookup ip' s \<or>
      (\<forall>i < ARP_CACHE_SIZE. ae_valid (g_arp_cache s i)) \<and> ae_ip (g_arp_cache s 0) = ip'"
  proof (cases "n = ARP_CACHE_SIZE \<and> k = 0 \<and> ae_ip (g_arp_cache s 0) = ip'")
    case True
    then show ?thesis using nk(3) by simp
  next
    case False
    then have same: "(ae_valid (?c i) \<and> ae_ip (?c i) = ip') = (ae_valid (g_arp_cache s i) \<and> ae_ip (g_arp_cache s i) = ip')"
      if "i < ARP_CACHE_SIZE" for i using nk(3) [OF that] nk(6) ne that by (auto simp: c)
    then have "arp_cache_find ip' (arp_cache_add ip mac s) = arp_cache_find ip' s"
      unfolding arp_cache_find_def by (intro scan_cong) simp
    moreover have "i \<noteq> k" if "arp_cache_find ip' s = Some i" for i
      using that same [of i] ne unfolding arp_cache_find_def scan_Some_iff by (auto simp: c)
    ultimately show ?thesis by (cases "arp_cache_find ip' s") (auto simp: arp_lookup_def c)
  qed
qed

definition demo_net :: net where
  "demo_net = \<lparr> g_net_iface = \<lparr> mac_addr = [2, 0, 0, 0, 0, 1], ip_addr = 0x0A000002, netmask = 0xFFFFFF00, gateway = 0x0A000001,
       dns_server = 0, is_up = True, dhcp_done = True, has_send = True \<rparr>,
     g_ip_id = 1, g_arp_cache = \<lambda>i. \<lparr> ae_ip = 0, ae_mac = [], ae_valid = False, ae_age = 0 \<rparr>, net_sent = [], net_heap = \<lambda>n. True \<rparr>"

theorem arp_learn_lookup_witness:
  "arp_lookup 5 (arp_cache_add 5 [1, 2, 3, 4, 5, 6] (net_arp_init demo_net)) = Some [1, 2, 3, 4, 5, 6] \<and>
   arp_lookup 7 (arp_cache_add 5 [1, 2, 3, 4, 5, 6] (net_arp_init demo_net)) = None"
proof -
  have r: "arp_reachable (net_arp_init demo_net)" by (rule arp_reachable.intros)
  have "arp_lookup 7 (net_arp_init demo_net) = None"
    by (simp add: arp_lookup_def arp_cache_find_def scan_None_iff net_arp_init_def)
  moreover have "\<not> (\<forall>i < ARP_CACHE_SIZE. ae_valid (g_arp_cache (net_arp_init demo_net) i))"
    by (auto simp: net_arp_init_def ARP_CACHE_SIZE_def intro: exI [of _ 0])
  ultimately show ?thesis using arp_learn_lookup [OF r, of 5 "[1, 2, 3, 4, 5, 6]" 7] by simp blast
qed


end
