(* ===== verification/Dgram.thy ===== *)
theory Dgram
  imports Ip
begin

text \<open>
  ICMP and UDP (\<^verbatim>\<open>src/src/net/icmp.c\<close>, \<^verbatim>\<open>src/src/net/udp.c\<close>) over the interface and IP state.  A registered
  callback is a number; \<open>run_cb\<close> gives what calling it does.
\<close>

section \<open>State\<close>

record udp_sock =
  us_active :: bool
  us_local_port :: u16
  us_recv_buf :: "nat \<Rightarrow> u8"
  us_src_ip :: u32
  us_src_port :: u16
  us_recv_len :: nat
  us_has_data :: bool

record udp_cb_entry =
  uc_port :: u16
  uc_cb :: nat

record dgram = net +
  g_udp_socks :: "nat \<Rightarrow> udp_sock"
  g_udp_cbs :: "nat \<Rightarrow> udp_cb_entry"
  g_udp_cb_count :: nat
  g_udp_ephemeral :: u16
  g_ping_got_reply :: bool
  g_ping_expected_seq :: u16

definition ICMP_ECHO_REQUEST :: u8 where [yam_consts]: "ICMP_ECHO_REQUEST = 8"
definition ICMP_ECHO_REPLY :: u8 where [yam_consts]: "ICMP_ECHO_REPLY = 0"
definition UDP_MAX_SOCKETS :: nat where [yam_consts]: "UDP_MAX_SOCKETS = 32"
definition UDP_MAX_CALLBACKS :: nat where [yam_consts]: "UDP_MAX_CALLBACKS = 16"
definition UDP_RECV_BUF :: nat where [yam_consts]: "UDP_RECV_BUF = 4096"

section \<open>ICMP\<close>

definition icmp_handle :: "'a dgram_scheme net_env \<Rightarrow> u8 list \<Rightarrow> u8 list \<Rightarrow> 'a dgram_scheme \<Rightarrow> 'a dgram_scheme" where
  "icmp_handle env ip icmp s =
     (if length icmp < 8 then s
      else if icmp ! 0 = ICMP_ECHO_REQUEST
      then if \<not> net_heap s (length icmp) then s
           else let reply = (\<lambda>checksum. [ICMP_ECHO_REPLY, 0] @ store16 checksum @ take 4 (drop 4 icmp) @ drop 8 icmp)
             in ip_send env (ip_src ip) IP_PROTO_ICMP (reply (net_checksum (reply 0))) s
      else if icmp ! 0 = ICMP_ECHO_REPLY
      then if htons (load16 icmp 6) = g_ping_expected_seq s then s\<lparr> g_ping_got_reply := True \<rparr> else s
      else s)"

definition icmp_ping :: "'a dgram_scheme net_env \<Rightarrow> u32 \<Rightarrow> u16 \<Rightarrow> u32 \<Rightarrow> 'a dgram_scheme \<Rightarrow> int \<times> 'a dgram_scheme" where
  "icmp_ping env dst_ip sq timeout_ms s =
     (if \<not> net_heap s 40 then (- 1, s)
      else let pkt = (\<lambda>checksum. [ICMP_ECHO_REQUEST, 0] @ store16 checksum @ store16 (htons 0xCAFE) @ store16 (htons sq) @ map of_nat [8 ..< 40]);
               s1 = s\<lparr> g_ping_got_reply := False, g_ping_expected_seq := sq \<rparr>;
               s2 = ip_send env dst_ip IP_PROTO_ICMP (pkt (net_checksum (pkt 0))) s1
           in case net_spin env g_ping_got_reply 100 (unat (timeout_ms * 100)) 0 s2 of
                (got, s3) \<Rightarrow> (if got then 0 else - 1, s3))"

section \<open>UDP\<close>

definition upd_udp :: "nat \<Rightarrow> (udp_sock \<Rightarrow> udp_sock) \<Rightarrow> 'a dgram_scheme \<Rightarrow> 'a dgram_scheme" where
  "upd_udp i f s = s\<lparr> g_udp_socks := (g_udp_socks s)(i := f (g_udp_socks s i)) \<rparr>"

definition net_udp_init :: "'a dgram_scheme \<Rightarrow> 'a dgram_scheme" where
  "net_udp_init s = s\<lparr> g_udp_socks := \<lambda>i. \<lparr> us_active = False, us_local_port = 0, us_recv_buf = \<lambda>k. 0, us_src_ip = 0,
     us_src_port = 0, us_recv_len = 0, us_has_data = False \<rparr> \<rparr>"

definition udp_register_callback :: "u16 \<Rightarrow> nat \<Rightarrow> 'a dgram_scheme \<Rightarrow> 'a dgram_scheme" where
  "udp_register_callback port cb s =
     (if g_udp_cb_count s \<ge> UDP_MAX_CALLBACKS then s
      else s\<lparr> g_udp_cbs := (g_udp_cbs s)(g_udp_cb_count s := \<lparr> uc_port = port, uc_cb = cb \<rparr>),
              g_udp_cb_count := g_udp_cb_count s + 1 \<rparr>)"

definition udp_socket :: "'a dgram_scheme \<Rightarrow> int \<times> 'a dgram_scheme" where
  "udp_socket s =
     (case scan (\<lambda>i. \<not> us_active (g_udp_socks s i)) 0 UDP_MAX_SOCKETS of
        None \<Rightarrow> (- 1, s)
      | Some i \<Rightarrow> let port = g_udp_ephemeral s
          in (int i, upd_udp i (\<lambda>k. k\<lparr> us_active := True, us_local_port := port \<rparr>)
                (s\<lparr> g_udp_ephemeral := (if port + 1 = 0 then 49152 else port + 1) \<rparr>)))"

definition udp_fd_ok :: "int \<Rightarrow> 'a dgram_scheme \<Rightarrow> bool" where
  "udp_fd_ok fd s \<longleftrightarrow> 0 \<le> fd \<and> fd < int UDP_MAX_SOCKETS \<and> us_active (g_udp_socks s (nat fd))"

definition udp_bind :: "int \<Rightarrow> u16 \<Rightarrow> 'a dgram_scheme \<Rightarrow> int \<times> 'a dgram_scheme" where
  "udp_bind fd port s =
     (if \<not> udp_fd_ok fd s then (- 1, s) else (0, upd_udp (nat fd) (\<lambda>k. k\<lparr> us_local_port := port \<rparr>) s))"

definition udp_datagram :: "u16 \<Rightarrow> u16 \<Rightarrow> u8 list \<Rightarrow> u16 \<Rightarrow> u8 list" where
  "udp_datagram src_port dst_port dat checksum =
     store16 (htons src_port) @ store16 (htons dst_port) @ store16 (htons (of_nat (8 + length dat))) @ store16 checksum @ dat"

definition udp_checksum :: "u32 \<Rightarrow> u32 \<Rightarrow> u8 list \<Rightarrow> u16" where
  "udp_checksum src_ip dst_ip bs = transport_checksum src_ip dst_ip IP_PROTO_UDP bs"

definition udp_sendto ::
  "'a dgram_scheme net_env \<Rightarrow> int \<Rightarrow> u8 list \<Rightarrow> u32 \<Rightarrow> u16 \<Rightarrow> 'a dgram_scheme \<Rightarrow> int \<times> 'a dgram_scheme" where
  "udp_sendto env fd dat dst_ip dst_port s =
     (if \<not> udp_fd_ok fd s then (- 1, s)
      else if \<not> net_heap s (8 + length dat) then (- 1, s)
      else let h = udp_datagram (us_local_port (g_udp_socks s (nat fd))) dst_port dat;
               checksum = udp_checksum (ip_addr (g_net_iface s)) dst_ip (h 0)
           in (int (length dat), ip_send env dst_ip IP_PROTO_UDP (h checksum) s))"

definition udp_receive ::
  "(nat \<Rightarrow> u32 \<Rightarrow> u16 \<Rightarrow> u8 list \<Rightarrow> 'a dgram_scheme \<Rightarrow> 'a dgram_scheme) \<Rightarrow> u8 list \<Rightarrow> u8 list \<Rightarrow> u8 list \<Rightarrow> 'a dgram_scheme \<Rightarrow> 'a dgram_scheme" where
  "udp_receive run_cb ip udp dat s =
     (let dst_port = htons (load16 udp 2); src_ip = ip_src ip; src_port = htons (load16 udp 0)
      in case scan (\<lambda>i. uc_port (g_udp_cbs s i) = dst_port) 0 (g_udp_cb_count s) of
           Some i \<Rightarrow> run_cb (uc_cb (g_udp_cbs s i)) src_ip src_port dat s
         | None \<Rightarrow>
             (case scan (\<lambda>i. us_active (g_udp_socks s i) \<and> us_local_port (g_udp_socks s i) = dst_port) 0 UDP_MAX_SOCKETS of
                Some i \<Rightarrow>
                  let copy = (if length dat < UDP_RECV_BUF then length dat else UDP_RECV_BUF)
                  in upd_udp i (\<lambda>k. k\<lparr> us_recv_buf := (\<lambda>j. if j < copy then dat ! j else us_recv_buf k j), us_recv_len := copy,
                       us_src_ip := src_ip, us_src_port := src_port, us_has_data := True \<rparr>) s
              | None \<Rightarrow> s))"

section \<open>Properties\<close>

lemma udp_header_fields:
  "htons (load16 (udp_datagram sp dp dat c) 0) = sp" "htons (load16 (udp_datagram sp dp dat c) 2) = dp"
  "drop 8 (udp_datagram sp dp dat c) = dat" "length (udp_datagram sp dp dat c) = 8 + length dat"
proof -
  let ?r = "store16 (htons (of_nat (8 + length dat))) @ store16 c @ dat"
  show "htons (load16 (udp_datagram sp dp dat c) 0) = sp"
    using load16_at [of "[]" 0 "htons sp" "store16 (htons dp) @ ?r"] by (simp add: udp_datagram_def)
  show "htons (load16 (udp_datagram sp dp dat c) 2) = dp"
    using load16_at [of "store16 (htons sp)" 2 "htons dp" ?r] by (simp add: udp_datagram_def)
qed (simp_all add: udp_datagram_def)

text \<open>C35. A datagram arrives: what udp_sendto transmits on one host, received on another (behind any Ethernet padding),
is handed to the first socket bound to the destination port, when no callback has the port: the socket then holds
the data sent, cut at 4096 bytes, with the sender's address and port.\<close>

theorem udp_end_to_end:
  assumes send: "udp_sendto env fd dat dst port s = (int (length dat), s')" "udp_fd_ok fd s"
    and up: "is_up (g_net_iface s)" "has_send (g_net_iface s)" "\<And>n. net_heap s n" "length dat \<le> 65507"
    and mac: "ip_dst_mac env dst s = (mac, s1)" "length mac = 6" "length (mac_addr (g_net_iface s1)) = 6"
    and recv: "\<And>i. i < g_udp_cb_count r \<Longrightarrow> uc_port (g_udp_cbs r i) \<noteq> port"
      "scan (\<lambda>i. us_active (g_udp_socks r i) \<and> us_local_port (g_udp_socks r i) = port) 0 UDP_MAX_SOCKETS = Some j"
  shows "\<exists>frame pkt seg d. net_sent s' = net_sent s1 @ [frame] \<and> eth_demux (frame @ pad) = F_ip pkt \<and>
    ip_demux pkt = D_udp pkt seg d \<and>
    (let k = g_udp_socks (udp_receive run_cb pkt seg d r) j
     in us_has_data k \<and> us_recv_len k = min (length dat) UDP_RECV_BUF \<and>
        map (us_recv_buf k) [0 ..< us_recv_len k] = take UDP_RECV_BUF dat \<and>
        us_src_ip k = ip_addr (g_net_iface s1) \<and> us_src_port k = us_local_port (g_udp_socks s (nat fd)))"
proof -
  define seg where "seg = udp_datagram (us_local_port (g_udp_socks s (nat fd))) port dat
    (udp_checksum (ip_addr (g_net_iface s)) dst (udp_datagram (us_local_port (g_udp_socks s (nat fd))) port dat 0))"
  have f: "htons (load16 seg 0) = us_local_port (g_udp_socks s (nat fd))" "htons (load16 seg 2) = port" "drop 8 seg = dat" "length seg = 8 + length dat"
    by (simp_all add: seg_def udp_header_fields)
  have s': "s' = ip_send env dst IP_PROTO_UDP seg s" using send up(3) by (simp add: udp_sendto_def Let_def seg_def)
  obtain frame pkt where fr: "net_sent s' = net_sent s1 @ [frame]" "eth_demux (frame @ pad) = F_ip pkt"
    "ip_src pkt = ip_addr (g_net_iface s1)" "ip_demux pkt = D_udp pkt seg (drop 8 seg)"
    using ip_send_delivers [OF up(1,2) up(3) _ mac, of seg IP_PROTO_UDP pad] up(4) f(4) s' by auto
  have "scan (\<lambda>i. uc_port (g_udp_cbs r i) = port) 0 (g_udp_cb_count r) = None" using recv(1) by (simp add: scan_None_iff)
  then have "udp_receive run_cb pkt seg dat r = upd_udp j (\<lambda>k. k\<lparr> us_recv_buf := (\<lambda>i. if i < min (length dat) UDP_RECV_BUF then dat ! i else us_recv_buf k i),
      us_recv_len := min (length dat) UDP_RECV_BUF, us_src_ip := ip_src pkt, us_src_port := us_local_port (g_udp_socks s (nat fd)), us_has_data := True \<rparr>) r"
    using recv(2) f by (simp add: udp_receive_def Let_def min_def)
  moreover have "map (\<lambda>i. if i < min (length dat) UDP_RECV_BUF then dat ! i else g i) [0 ..< min (length dat) UDP_RECV_BUF] = take UDP_RECV_BUF dat" for g
    by (rule nth_equalityI) (simp_all add: min.commute)
  ultimately show ?thesis
    using fr f(3) by (intro exI [of _ frame] exI [of _ pkt] exI [of _ seg] exI [of _ dat]) (simp add: upd_udp_def Let_def)
qed

text \<open>Echo: an ICMP echo request of at least eight bytes is answered, when memory allows, by sending its source a
message of the same length that is an echo reply, carries the same identifier, sequence number and payload, and
whose checksum verifies; and the request itself changes nothing else.\<close>

theorem icmp_echo_replies:
  assumes "8 \<le> length icmp" "length icmp \<le> 65535" "icmp ! 0 = ICMP_ECHO_REQUEST" "net_heap s (length icmp)"
  shows "\<exists>reply. icmp_handle env ip icmp s = ip_send env (ip_src ip) IP_PROTO_ICMP reply s \<and>
    length reply = length icmp \<and> reply ! 0 = ICMP_ECHO_REPLY \<and> drop 4 reply = drop 4 icmp \<and> net_checksum reply = 0"
proof -
  define h where "h = take 4 (drop 4 icmp) @ drop 8 icmp"
  define c where "c = net_checksum ([ICMP_ECHO_REPLY, 0] @ [0, 0] @ h)"
  have z: "store16 0 = [0, 0]" by (simp add: store16_def)
  have h: "h = drop 4 icmp"
    using append_take_drop_id [of 4 "drop 4 icmp"] by (simp add: h_def)
  have "icmp_handle env ip icmp s = ip_send env (ip_src ip) IP_PROTO_ICMP ([ICMP_ECHO_REPLY, 0] @ store16 c @ h) s"
    using assms by (simp add: icmp_handle_def Let_def c_def h_def z)
  moreover have "net_checksum ([ICMP_ECHO_REPLY, 0] @ store16 c @ h) = 0"
    unfolding c_def by (rule net_checksum_zero) (use assms(2) h in simp_all)
  ultimately show ?thesis using assms(1) h by (intro exI [of _ "[ICMP_ECHO_REPLY, 0] @ store16 c @ h"]) (simp add: store16_def)
qed

definition demo_dgram :: dgram where
  "demo_dgram = \<lparr> g_net_iface = g_net_iface demo_net, g_ip_id = 1, g_arp_cache = g_arp_cache demo_net, net_sent = [], net_heap = \<lambda>n. True,
     g_udp_socks = \<lambda>i. \<lparr> us_active = i = 0, us_local_port = 53, us_recv_buf = \<lambda>k. 0, us_src_ip = 0, us_src_port = 0, us_recv_len = 0, us_has_data = False \<rparr>,
     g_udp_cbs = \<lambda>i. \<lparr> uc_port = 0, uc_cb = 0 \<rparr>, g_udp_cb_count = 0, g_udp_ephemeral = 49152, g_ping_got_reply = False, g_ping_expected_seq = 0 \<rparr>"

theorem udp_end_to_end_witness:
  "\<exists>frame pkt seg d. net_sent (snd (udp_sendto (id, id) 0 [7, 8] 0xFFFFFFFF 53 demo_dgram)) = [frame] \<and>
     eth_demux (frame @ [0, 0, 0]) = F_ip pkt \<and> ip_demux pkt = D_udp pkt seg d \<and>
     map (us_recv_buf (g_udp_socks (udp_receive (\<lambda>c ip p b t. t) pkt seg d demo_dgram) 0)) [0 ..< 2] = [7, 8]"
proof -
  have m: "ip_dst_mac (id, id) 0xFFFFFFFF demo_dgram = (replicate 6 0xFF, demo_dgram)" by (simp add: ip_dst_mac_def Let_def)
  have a: "udp_fd_ok 0 demo_dgram" by (simp add: udp_fd_ok_def demo_dgram_def yam_consts)
  have u: "udp_sendto (id, id) 0 [7, 8] 0xFFFFFFFF 53 demo_dgram =
      (int (length [7, 8 :: u8]), snd (udp_sendto (id, id) 0 [7, 8] 0xFFFFFFFF 53 demo_dgram))"
    using a by (simp add: udp_sendto_def Let_def) (simp add: demo_dgram_def)
  have j: "scan (\<lambda>i. us_active (g_udp_socks demo_dgram i) \<and> us_local_port (g_udp_socks demo_dgram i) = 53) 0 UDP_MAX_SOCKETS = Some 0"
    by (simp add: scan_Some_iff demo_dgram_def yam_consts)
  have up: "is_up (g_net_iface demo_dgram)" "has_send (g_net_iface demo_dgram)" "net_heap demo_dgram n" "net_sent demo_dgram = []"
    "length (mac_addr (g_net_iface demo_dgram)) = 6" for n
    by (simp_all add: demo_dgram_def demo_net_def)
  have cb: "i < g_udp_cb_count demo_dgram \<Longrightarrow> uc_port (g_udp_cbs demo_dgram i) \<noteq> 53" for i by (simp add: demo_dgram_def)
  have l: "length [7, 8 :: u8] \<le> 65507" "length (replicate 6 (0xFF :: u8)) = 6" by simp_all
  obtain frame pkt seg d where r: "net_sent (snd (udp_sendto (id, id) 0 [7, 8] 0xFFFFFFFF 53 demo_dgram)) = net_sent demo_dgram @ [frame]"
    "eth_demux (frame @ [0, 0, 0]) = F_ip pkt" "ip_demux pkt = D_udp pkt seg d"
    "us_recv_len (g_udp_socks (udp_receive (\<lambda>c ip p b t. t) pkt seg d demo_dgram) 0) = min (length [7, 8 :: u8]) UDP_RECV_BUF"
    "map (us_recv_buf (g_udp_socks (udp_receive (\<lambda>c ip p b t. t) pkt seg d demo_dgram) 0))
       [0 ..< us_recv_len (g_udp_socks (udp_receive (\<lambda>c ip p b t. t) pkt seg d demo_dgram) 0)] = take UDP_RECV_BUF [7, 8]"
    using udp_end_to_end [OF u a up(1,2,3) l(1) m l(2) up(5) cb j, of "[0, 0, 0]" "\<lambda>c ip p b t. t"] unfolding Let_def by blast
  then show ?thesis using up(4) by (auto simp: UDP_RECV_BUF_def numeral_2_eq_2)
qed

theorem icmp_echo_replies_witness:
  "\<exists>reply. icmp_handle (id, id) [] [8, 0, 0, 0, 1, 2, 3, 4, 9] demo_dgram = ip_send (id, id) (ip_src []) IP_PROTO_ICMP reply demo_dgram \<and>
     reply ! 0 = ICMP_ECHO_REPLY \<and> drop 4 reply = [1, 2, 3, 4, 9] \<and> net_checksum reply = 0"
proof -
  let ?m = "[8, 0, 0, 0, 1, 2, 3, 4, 9] :: u8 list"
  have h: "8 \<le> length ?m" "length ?m \<le> 65535" "?m ! 0 = ICMP_ECHO_REQUEST" "net_heap demo_dgram (length ?m)" "drop 4 ?m = [1, 2, 3, 4, 9]"
    by (simp_all add: demo_dgram_def ICMP_ECHO_REQUEST_def)
  show ?thesis using icmp_echo_replies [OF h(1-4), of "(id, id)" "[]"] unfolding h(5) by blast
qed

end
