(* ===== verification/Tcp.thy ===== *)
theory Tcp
  imports Fifo Dgram
begin

text \<open>
  TCP (\<^verbatim>\<open>src/src/net/tcp.c\<close>): a table of 32 sockets with their sequence numbers (32-bit words, which wrap), a
  receive ring of 16384 bytes and an accept queue of 8 descriptors.  The send buffer, the retransmission counter and
  \<^verbatim>\<open>waiting_fin_ack\<close> of the socket are never used by the source.
\<close>

section \<open>State\<close>

datatype sock_state =
  SOCK_STATE_CLOSED | SOCK_STATE_LISTEN | SOCK_STATE_SYN_SENT | SOCK_STATE_SYN_RCVD | SOCK_STATE_ESTABLISHED |
  SOCK_STATE_FIN_WAIT1 | SOCK_STATE_FIN_WAIT2 | SOCK_STATE_CLOSE_WAIT | SOCK_STATE_CLOSING | SOCK_STATE_LAST_ACK |
  SOCK_STATE_TIME_WAIT

record tcp_sock =
  ts_active :: bool
  ts_state :: sock_state
  ts_local_ip :: u32
  ts_local_port :: u16
  ts_remote_ip :: u32
  ts_remote_port :: u16
  snd_una :: u32
  snd_nxt :: u32
  snd_isn :: u32
  rcv_nxt :: u32
  rcv_isn :: u32
  snd_wnd :: u16
  recv_buf :: "nat \<Rightarrow> u8"
  recv_head :: nat
  recv_tail :: nat
  waiting_syn_ack :: bool
  nonblocking :: bool
  listening :: bool
  accept_queue :: "nat \<Rightarrow> int"
  accept_head :: nat
  accept_tail :: nat

record tcp_net = dgram +
  g_tcp_socks :: "nat \<Rightarrow> tcp_sock"
  g_tcp_isn_counter :: u32
  g_ephemeral_port :: u16

definition TCP_MAX_SOCKETS :: nat where [yam_consts]: "TCP_MAX_SOCKETS = 32"
definition TCP_RECV_BUF :: nat where [yam_consts]: "TCP_RECV_BUF = 16384"
definition TCP_WINDOW_SIZE :: u16 where [yam_consts]: "TCP_WINDOW_SIZE = 8192"
definition TCP_FIN :: u8 where [yam_consts]: "TCP_FIN = 0x01"
definition TCP_SYN :: u8 where [yam_consts]: "TCP_SYN = 0x02"
definition TCP_RST :: u8 where [yam_consts]: "TCP_RST = 0x04"
definition TCP_PSH :: u8 where [yam_consts]: "TCP_PSH = 0x08"
definition TCP_ACK :: u8 where [yam_consts]: "TCP_ACK = 0x10"
definition EAGAIN :: int where [yam_consts]: "EAGAIN = 11"
definition EINPROGRESS :: int where [yam_consts]: "EINPROGRESS = 115"

definition has_flag :: "u8 \<Rightarrow> u8 \<Rightarrow> bool" where
  "has_flag flags f \<longleftrightarrow> flags AND f \<noteq> 0"

definition zero_tcp_sock :: tcp_sock where
  "zero_tcp_sock = \<lparr> ts_active = False, ts_state = SOCK_STATE_CLOSED, ts_local_ip = 0, ts_local_port = 0, ts_remote_ip = 0,
     ts_remote_port = 0, snd_una = 0, snd_nxt = 0, snd_isn = 0, rcv_nxt = 0, rcv_isn = 0, snd_wnd = 0, recv_buf = \<lambda>k. 0,
     recv_head = 0, recv_tail = 0, waiting_syn_ack = False, nonblocking = False, listening = False,
     accept_queue = \<lambda>k. 0, accept_head = 0, accept_tail = 0 \<rparr>"

definition upd_tcp :: "nat \<Rightarrow> (tcp_sock \<Rightarrow> tcp_sock) \<Rightarrow> 'a tcp_net_scheme \<Rightarrow> 'a tcp_net_scheme" where
  "upd_tcp i f s = s\<lparr> g_tcp_socks := (g_tcp_socks s)(i := f (g_tcp_socks s i)) \<rparr>"

section \<open>Segments\<close>

definition tcp_hdr :: "tcp_sock \<Rightarrow> u8 \<Rightarrow> u16 \<Rightarrow> u8 list" where
  "tcp_hdr k flags checksum =
     store16 (htons (ts_local_port k)) @ store16 (htons (ts_remote_port k)) @ store32 (htonl (snd_nxt k)) @
     store32 (if has_flag flags TCP_ACK then htonl (rcv_nxt k) else 0) @ [0x50, flags] @
     store16 (htons TCP_WINDOW_SIZE) @ store16 checksum @ store16 0"

definition tcp_segment :: "tcp_sock \<Rightarrow> u8 \<Rightarrow> u8 list \<Rightarrow> u8 list" where
  "tcp_segment k flags dat =
     tcp_hdr k flags (transport_checksum (ts_local_ip k) (ts_remote_ip k) IP_PROTO_TCP (tcp_hdr k flags 0 @ dat)) @ dat"

definition advance_snd :: "u8 \<Rightarrow> nat \<Rightarrow> tcp_sock \<Rightarrow> tcp_sock" where
  "advance_snd flags data_len k =
     k\<lparr> snd_nxt := snd_nxt k + of_nat data_len + (if has_flag flags TCP_SYN then 1 else 0) + (if has_flag flags TCP_FIN then 1 else 0) \<rparr>"

definition tcp_send_segment :: "'a tcp_net_scheme net_env \<Rightarrow> nat \<Rightarrow> u8 \<Rightarrow> u8 list \<Rightarrow> 'a tcp_net_scheme \<Rightarrow> 'a tcp_net_scheme" where
  "tcp_send_segment env i flags dat s =
     (if \<not> net_heap s (20 + length dat) then s
      else upd_tcp i (advance_snd flags (length dat))
             (ip_send env (ts_remote_ip (g_tcp_socks s i)) IP_PROTO_TCP (tcp_segment (g_tcp_socks s i) flags dat) s))"

definition tcp_find_sock :: "u32 \<Rightarrow> u16 \<Rightarrow> u16 \<Rightarrow> 'a tcp_net_scheme \<Rightarrow> nat option" where
  "tcp_find_sock rip rport lport s =
     scan (\<lambda>i. let k = g_tcp_socks s i in ts_active k \<and> ts_local_port k = lport \<and>
       (ts_remote_ip k = rip \<or> listening k) \<and> (ts_remote_port k = rport \<or> listening k)) 0 TCP_MAX_SOCKETS"

definition tcp_find_listener :: "u16 \<Rightarrow> 'a tcp_net_scheme \<Rightarrow> nat option" where
  "tcp_find_listener lport s =
     scan (\<lambda>i. let k = g_tcp_socks s i in ts_active k \<and> listening k \<and> ts_local_port k = lport) 0 TCP_MAX_SOCKETS"

section \<open>Socket calls\<close>

definition net_tcp_init :: "'a tcp_net_scheme \<Rightarrow> 'a tcp_net_scheme" where
  "net_tcp_init s = s\<lparr> g_tcp_socks := \<lambda>i. zero_tcp_sock \<rparr>"

definition tcp_socket :: "'a tcp_net_scheme \<Rightarrow> int \<times> 'a tcp_net_scheme" where
  "tcp_socket s =
     (case scan (\<lambda>i. \<not> ts_active (g_tcp_socks s i)) 0 TCP_MAX_SOCKETS of
        None \<Rightarrow> (- 1, s)
      | Some i \<Rightarrow> (int i, upd_tcp i (\<lambda>k. zero_tcp_sock\<lparr> ts_active := True, ts_state := SOCK_STATE_CLOSED,
                      ts_local_ip := ip_addr (g_net_iface s) \<rparr>) s))"

definition tcp_socket_nonblock :: "'a tcp_net_scheme \<Rightarrow> int \<times> 'a tcp_net_scheme" where
  "tcp_socket_nonblock s =
     (case tcp_socket s of (fd, s') \<Rightarrow> (fd, if fd \<ge> 0 then upd_tcp (nat fd) (\<lambda>k. k\<lparr> nonblocking := True \<rparr>) s' else s'))"

definition tcp_set_nonblock :: "int \<Rightarrow> bool \<Rightarrow> 'a tcp_net_scheme \<Rightarrow> 'a tcp_net_scheme" where
  "tcp_set_nonblock fd nonblock s =
     (if fd \<ge> 0 \<and> fd < int TCP_MAX_SOCKETS then upd_tcp (nat fd) (\<lambda>k. k\<lparr> nonblocking := nonblock \<rparr>) s else s)"

definition tcp_is_nonblock :: "int \<Rightarrow> 'a tcp_net_scheme \<Rightarrow> bool" where
  "tcp_is_nonblock fd s = (if fd < 0 \<or> fd \<ge> int TCP_MAX_SOCKETS then False else nonblocking (g_tcp_socks s (nat fd)))"

definition tcp_fd_ok :: "int \<Rightarrow> 'a tcp_net_scheme \<Rightarrow> bool" where
  "tcp_fd_ok fd s \<longleftrightarrow> \<not> (fd < 0 \<or> fd \<ge> int TCP_MAX_SOCKETS \<or> \<not> ts_active (g_tcp_socks s (nat fd)))"

definition tcp_connect :: "'a tcp_net_scheme net_env \<Rightarrow> int \<Rightarrow> u32 \<Rightarrow> u16 \<Rightarrow> 'a tcp_net_scheme \<Rightarrow> int \<times> 'a tcp_net_scheme" where
  "tcp_connect env fd dst_ip dst_port s =
     (if \<not> tcp_fd_ok fd s then (- 1, s)
      else let i = nat fd; port = g_ephemeral_port s; isn = g_tcp_isn_counter s;
               s1 = upd_tcp i (\<lambda>k. k\<lparr> ts_local_port := port, ts_remote_ip := dst_ip, ts_remote_port := dst_port,
                       snd_isn := isn, snd_una := isn, snd_nxt := isn, ts_state := SOCK_STATE_SYN_SENT, waiting_syn_ack := True \<rparr>)
                     (s\<lparr> g_ephemeral_port := (if port + 1 = 0 then 32768 else port + 1), g_tcp_isn_counter := isn + 64521 \<rparr>);
               s2 = tcp_send_segment env i TCP_SYN [] s1
           in if nonblocking (g_tcp_socks s2 i) then (- EINPROGRESS, s2)
              else let s3 = snd (net_spin env (\<lambda>t. \<not> waiting_syn_ack (g_tcp_socks t i)) 100 8000000 0 s2)
                   in if ts_state (g_tcp_socks s3 i) \<noteq> SOCK_STATE_ESTABLISHED then (- 1, s3) else (0, s3))"

definition tcp_listen :: "int \<Rightarrow> u16 \<Rightarrow> 'a tcp_net_scheme \<Rightarrow> int \<times> 'a tcp_net_scheme" where
  "tcp_listen fd port s =
     (if \<not> tcp_fd_ok fd s then (- 1, s)
      else (0, upd_tcp (nat fd) (\<lambda>k. k\<lparr> ts_local_port := port, listening := True, ts_state := SOCK_STATE_LISTEN,
                 accept_head := 0, accept_tail := 0 \<rparr>) s))"

text \<open>The blocking accept waits without a limit: \<open>None\<close> when nothing ever arrives.\<close>

partial_function (option) accept_wait :: "'a tcp_net_scheme net_env \<Rightarrow> nat \<Rightarrow> nat \<Rightarrow> 'a tcp_net_scheme \<Rightarrow> 'a tcp_net_scheme option" where
  "accept_wait env i spin s =
     (if accept_head (g_tcp_socks s i) \<noteq> accept_tail (g_tcp_socks s i) then Some s
      else accept_wait env i ((spin + 1) mod 2 ^ 32)
             (net_coop_yield env spin (if spin mod 1000 = 0 then net_poll env s else s)))"

definition tcp_accept :: "'a tcp_net_scheme net_env \<Rightarrow> int \<Rightarrow> 'a tcp_net_scheme \<Rightarrow> (int \<times> 'a tcp_net_scheme) option" where
  "tcp_accept env fd s =
     (if \<not> tcp_fd_ok fd s then Some (- 1, s)
      else let i = nat fd; k = g_tcp_socks s i;
               pop = (\<lambda>t. let k' = g_tcp_socks t i
                          in (accept_queue k' (accept_tail k'), upd_tcp i (\<lambda>k. k\<lparr> accept_tail := (accept_tail k + 1) mod 8 \<rparr>) t))
           in if nonblocking k
              then Some (if accept_head k = accept_tail k then (- EAGAIN, s) else pop s)
              else map_option pop (accept_wait env i 0 s))"

definition tcp_send :: "'a tcp_net_scheme net_env \<Rightarrow> int \<Rightarrow> u8 list \<Rightarrow> 'a tcp_net_scheme \<Rightarrow> int \<times> 'a tcp_net_scheme" where
  "tcp_send env fd dat s =
     (if \<not> tcp_fd_ok fd s then (- 1, s)
      else if ts_state (g_tcp_socks s (nat fd)) \<noteq> SOCK_STATE_ESTABLISHED then (- 1, s)
      else (int (length dat), tcp_send_segment env (nat fd) (TCP_PSH OR TCP_ACK) dat s))"

definition tcp_avail :: "tcp_sock \<Rightarrow> nat" where
  "tcp_avail k = (if recv_head k \<ge> recv_tail k then recv_head k - recv_tail k else TCP_RECV_BUF - recv_tail k + recv_head k)"

text \<open>The wait of a blocking receive with \<open>n\<close> turns left; whether it ended in end of file.\<close>

fun recv_wait :: "'a tcp_net_scheme net_env \<Rightarrow> nat \<Rightarrow> nat \<Rightarrow> nat \<Rightarrow> 'a tcp_net_scheme \<Rightarrow> bool \<times> 'a tcp_net_scheme" where
  "recv_wait env i 0 t s = (False, s)"
| "recv_wait env i (Suc n) t s =
     (let k = g_tcp_socks s i
      in if recv_head k \<noteq> recv_tail k then (False, s)
         else if ts_state k = SOCK_STATE_CLOSE_WAIT \<or> ts_state k = SOCK_STATE_CLOSED then (True, s)
         else recv_wait env i n (Suc t) (net_coop_yield env t (if t mod 1000 = 0 then net_poll env s else s)))"

definition recv_copy :: "nat \<Rightarrow> tcp_sock \<Rightarrow> u8 list" where
  "recv_copy copy k =
     (let linear = TCP_RECV_BUF - recv_tail k
      in if linear \<ge> copy then map (recv_buf k) [recv_tail k ..< recv_tail k + copy]
         else map (recv_buf k) [recv_tail k ..< recv_tail k + linear] @ map (recv_buf k) [0 ..< copy - linear])"

definition recv_take :: "nat \<Rightarrow> nat \<Rightarrow> 'a tcp_net_scheme \<Rightarrow> int \<times> u8 list \<times> 'a tcp_net_scheme" where
  "recv_take i max_len s =
     (let k = g_tcp_socks s i; copy = (if tcp_avail k < max_len then tcp_avail k else max_len)
      in if copy = 0 then (0, [], s)
         else (int copy, recv_copy copy k, upd_tcp i (\<lambda>k. k\<lparr> recv_tail := (recv_tail k + copy) mod TCP_RECV_BUF \<rparr>) s))"

definition tcp_recv :: "'a tcp_net_scheme net_env \<Rightarrow> int \<Rightarrow> nat \<Rightarrow> 'a tcp_net_scheme \<Rightarrow> int \<times> u8 list \<times> 'a tcp_net_scheme" where
  "tcp_recv env fd max_len s =
     (if fd < 0 \<or> fd \<ge> int TCP_MAX_SOCKETS then (- 1, [], s)
      else let i = nat fd; k = g_tcp_socks s i
        in if \<not> ts_active k \<and> recv_head k = recv_tail k then (- 1, [], s)
           else if nonblocking k
           then if recv_head k = recv_tail k then (- EAGAIN, [], s) else recv_take i max_len s
           else case recv_wait env i 1000000 0 s of
                  (True, s1) \<Rightarrow> (0, [], s1) | (False, s1) \<Rightarrow> recv_take i max_len s1)"

definition tcp_available :: "int \<Rightarrow> 'a tcp_net_scheme \<Rightarrow> int" where
  "tcp_available fd s = (if \<not> tcp_fd_ok fd s then 0 else int (tcp_avail (g_tcp_socks s (nat fd))))"

definition tcp_close :: "'a tcp_net_scheme net_env \<Rightarrow> int \<Rightarrow> 'a tcp_net_scheme \<Rightarrow> int \<times> 'a tcp_net_scheme" where
  "tcp_close env fd s =
     (if \<not> tcp_fd_ok fd s then (- 1, s)
      else let i = nat fd; k = g_tcp_socks s i;
               s1 = (if ts_state k = SOCK_STATE_ESTABLISHED \<or> ts_state k = SOCK_STATE_CLOSE_WAIT
                     then tcp_send_segment env i (TCP_FIN OR TCP_ACK) [] (upd_tcp i (\<lambda>k. k\<lparr> ts_state := SOCK_STATE_FIN_WAIT1 \<rparr>) s)
                     else s);
               s2 = snd (net_spin env (\<lambda>t. ts_state (g_tcp_socks t i) = SOCK_STATE_CLOSED) 1000 1000000 0 s1)
           in (0, upd_tcp i (\<lambda>k. k\<lparr> ts_active := False \<rparr>) s2))"

section \<open>Receiving\<close>

definition tcp_passive_open :: "'a tcp_net_scheme net_env \<Rightarrow> u32 \<Rightarrow> u16 \<Rightarrow> u16 \<Rightarrow> u32 \<Rightarrow> 'a tcp_net_scheme \<Rightarrow> 'a tcp_net_scheme" where
  "tcp_passive_open env src_ip src_port dst_port sq s =
     (case tcp_find_listener dst_port s of
        None \<Rightarrow> s
      | Some ls \<Rightarrow>
          (case tcp_socket s of (fd, s1) \<Rightarrow>
             if fd < 0 then s1
             else let i = nat fd; isn = g_tcp_isn_counter s1;
                      s2 = upd_tcp i (\<lambda>k. k\<lparr> ts_local_port := dst_port, ts_remote_ip := src_ip, ts_remote_port := src_port,
                              rcv_isn := sq, rcv_nxt := sq + 1, snd_isn := isn, snd_una := isn, snd_nxt := isn,
                              ts_state := SOCK_STATE_SYN_RCVD \<rparr>) (s1\<lparr> g_tcp_isn_counter := isn + 64521 \<rparr>);
                      s3 = tcp_send_segment env i (TCP_SYN OR TCP_ACK) [] s2;
                      k = g_tcp_socks s3 ls; nxt = (accept_head k + 1) mod 8
                  in if nxt \<noteq> accept_tail k
                     then upd_tcp ls (\<lambda>k. k\<lparr> accept_queue := (accept_queue k)(accept_head k := fd), accept_head := nxt \<rparr>) s3
                     else s3))"

definition tcp_syn_ack :: "'a tcp_net_scheme net_env \<Rightarrow> nat \<Rightarrow> u32 \<Rightarrow> u32 \<Rightarrow> u16 \<Rightarrow> 'a tcp_net_scheme \<Rightarrow> 'a tcp_net_scheme" where
  "tcp_syn_ack env i sq ack_num wnd s =
     tcp_send_segment env i TCP_ACK []
       (upd_tcp i (\<lambda>k. k\<lparr> rcv_isn := sq, rcv_nxt := sq + 1, snd_una := ack_num, snd_wnd := wnd,
          ts_state := SOCK_STATE_ESTABLISHED, waiting_syn_ack := False \<rparr>) s)"

definition tcp_ack_stage :: "u32 \<Rightarrow> tcp_sock \<Rightarrow> tcp_sock" where
  "tcp_ack_stage ack_num k =
     (let k1 = (if ack_num > snd_una k then k\<lparr> snd_una := ack_num \<rparr> else k)
      in if ts_state k1 = SOCK_STATE_SYN_RCVD then k1\<lparr> ts_state := SOCK_STATE_ESTABLISHED \<rparr>
         else if ts_state k1 = SOCK_STATE_FIN_WAIT1 then k1\<lparr> ts_state := SOCK_STATE_FIN_WAIT2 \<rparr>
         else if ts_state k1 = SOCK_STATE_LAST_ACK then k1\<lparr> ts_state := SOCK_STATE_CLOSED, ts_active := False \<rparr>
         else k1)"

fun tcp_push :: "u8 list \<Rightarrow> tcp_sock \<Rightarrow> tcp_sock" where
  "tcp_push [] k = k"
| "tcp_push (b # bs) k =
     (let next_head = (recv_head k + 1) mod TCP_RECV_BUF
      in if next_head = recv_tail k then k
         else tcp_push bs (k\<lparr> recv_buf := (recv_buf k)(recv_head k := b), recv_head := next_head \<rparr>))"

definition tcp_data_stage :: "'a tcp_net_scheme net_env \<Rightarrow> nat \<Rightarrow> u32 \<Rightarrow> u8 list \<Rightarrow> 'a tcp_net_scheme \<Rightarrow> 'a tcp_net_scheme" where
  "tcp_data_stage env i sq dat s =
     (if length dat > 0 \<and> ts_state (g_tcp_socks s i) = SOCK_STATE_ESTABLISHED
      then tcp_send_segment env i TCP_ACK []
             (if sq = rcv_nxt (g_tcp_socks s i)
              then upd_tcp i (\<lambda>k. (tcp_push dat k)\<lparr> rcv_nxt := rcv_nxt k + of_nat (length dat) \<rparr>) s
              else s)
      else s)"

definition tcp_fin_stage :: "'a tcp_net_scheme net_env \<Rightarrow> nat \<Rightarrow> 'a tcp_net_scheme \<Rightarrow> 'a tcp_net_scheme" where
  "tcp_fin_stage env i s =
     (let s1 = tcp_send_segment env i TCP_ACK [] (upd_tcp i (\<lambda>k. k\<lparr> rcv_nxt := rcv_nxt k + 1 \<rparr>) s)
      in if ts_state (g_tcp_socks s1 i) = SOCK_STATE_ESTABLISHED
         then upd_tcp i (\<lambda>k. k\<lparr> ts_state := SOCK_STATE_CLOSE_WAIT \<rparr>) s1
         else if ts_state (g_tcp_socks s1 i) = SOCK_STATE_FIN_WAIT2
         then upd_tcp i (\<lambda>k. k\<lparr> ts_state := SOCK_STATE_CLOSED, ts_active := False \<rparr>) s1
         else s1)"

definition tcp_receive :: "'a tcp_net_scheme net_env \<Rightarrow> u8 list \<Rightarrow> u8 list \<Rightarrow> u8 list \<Rightarrow> 'a tcp_net_scheme \<Rightarrow> 'a tcp_net_scheme" where
  "tcp_receive env ip tcp dat s =
     (let src_ip = ip_src ip; src_port = htons (load16 tcp 0); dst_port = htons (load16 tcp 2);
          flags = tcp ! 13; sq = htonl (load32 tcp 4); ack_num = htonl (load32 tcp 8)
      in case tcp_find_sock src_ip src_port dst_port s of
           None \<Rightarrow> if has_flag flags TCP_SYN \<and> \<not> has_flag flags TCP_ACK
                   then tcp_passive_open env src_ip src_port dst_port sq s else s
         | Some i \<Rightarrow>
             if has_flag flags TCP_SYN \<and> has_flag flags TCP_ACK \<and> ts_state (g_tcp_socks s i) = SOCK_STATE_SYN_SENT
             then tcp_syn_ack env i sq ack_num (htons (load16 tcp 14)) s
             else let s1 = (if has_flag flags TCP_ACK then upd_tcp i (tcp_ack_stage ack_num) s else s);
                      s2 = tcp_data_stage env i sq dat s1;
                      s3 = (if has_flag flags TCP_FIN then tcp_fin_stage env i s2 else s2)
                  in if has_flag flags TCP_RST
                     then upd_tcp i (\<lambda>k. k\<lparr> ts_state := SOCK_STATE_CLOSED, ts_active := False \<rparr>) s3
                     else s3)"

section \<open>Head and tail rings\<close>

definition ht_count :: "nat \<Rightarrow> nat \<Rightarrow> nat \<Rightarrow> nat" where
  "ht_count N h t = (if h \<ge> t then h - t else N - t + h)"

lemma ht_count_facts:
  assumes "h < N" "t < N"
  shows "ht_count N h t < N" "(t + ht_count N h t) mod N = h" "ht_count N h t = 0 \<longleftrightarrow> h = t"
    "(h + 1) mod N = t \<longleftrightarrow> ht_count N h t = N - 1"
    "(h + 1) mod N \<noteq> t \<Longrightarrow> ht_count N ((h + 1) mod N) t = ht_count N h t + 1"
    "c \<le> ht_count N h t \<Longrightarrow> ht_count N h ((t + c) mod N) = ht_count N h t - c"
proof -
  show "ht_count N h t < N" "ht_count N h t = 0 \<longleftrightarrow> h = t" using assms by (auto simp: ht_count_def)
  show "(t + ht_count N h t) mod N = h" using assms by (auto simp: ht_count_def)
  have m: "(h + 1) mod N = (if h + 1 = N then 0 else h + 1)" using assms by auto
  show "(h + 1) mod N = t \<longleftrightarrow> ht_count N h t = N - 1" unfolding m using assms by (auto simp: ht_count_def)
  show "(h + 1) mod N \<noteq> t \<Longrightarrow> ht_count N ((h + 1) mod N) t = ht_count N h t + 1" unfolding m using assms by (auto simp: ht_count_def)
  assume c: "c \<le> ht_count N h t"
  have "(t + c) mod N = (if t + c < N then t + c else t + c - N)"
    using assms c \<open>ht_count N h t < N\<close> by (auto simp: mod_if)
  then show "ht_count N h ((t + c) mod N) = ht_count N h t - c" using assms c by (auto simp: ht_count_def split: if_splits)
qed

lemma ring_take: "c \<le> n \<Longrightarrow> take c (ring_contents N f h n) = ring_contents N f h c"
  by (simp add: ring_contents_def take_map)

lemma ring_drop: "c \<le> n \<Longrightarrow> drop c (ring_contents N f h n) = ring_contents N f ((h + c) mod N) (n - c)"
  by (rule nth_equalityI) (auto simp: ring_contents_def mod_simps add.assoc)

definition tcp_contents :: "tcp_sock \<Rightarrow> u8 list" where
  "tcp_contents k = ring_contents TCP_RECV_BUF (recv_buf k) (recv_tail k) (tcp_avail k)"

definition rx_wf :: "tcp_sock \<Rightarrow> bool" where
  "rx_wf k \<longleftrightarrow> recv_head k < TCP_RECV_BUF \<and> recv_tail k < TCP_RECV_BUF"

definition rx_put :: "u8 \<Rightarrow> tcp_sock \<Rightarrow> tcp_sock option" where
  "rx_put b k = (if (recv_head k + 1) mod TCP_RECV_BUF = recv_tail k then None
     else Some (k\<lparr> recv_buf := (recv_buf k)(recv_head k := b), recv_head := (recv_head k + 1) mod TCP_RECV_BUF \<rparr>))"

definition rx_get :: "tcp_sock \<Rightarrow> (u8 \<times> tcp_sock) option" where
  "rx_get k = (if recv_head k = recv_tail k then None
     else Some (recv_buf k (recv_tail k), k\<lparr> recv_tail := (recv_tail k + 1) mod TCP_RECV_BUF \<rparr>))"

lemma tcp_avail_count: "tcp_avail k = ht_count TCP_RECV_BUF (recv_head k) (recv_tail k)"
  by (simp add: tcp_avail_def ht_count_def)

lemma TCP_RECV_BUF_pos [simp]: "0 < TCP_RECV_BUF"
  by (simp add: TCP_RECV_BUF_def)

interpretation tcp_bytes: bounded_fifo rx_put rx_get tcp_contents rx_wf "\<lambda>b. True" "TCP_RECV_BUF - 1"
proof (unfold_locales, goal_cases)
  case (1 k)
  then show ?case using ht_count_facts(1) [of "recv_head k" TCP_RECV_BUF "recv_tail k"]
    by (auto simp: tcp_contents_def rx_wf_def tcp_avail_count)
next
  case (2 k x)
  then show ?case using ht_count_facts(4) [of "recv_head k" TCP_RECV_BUF "recv_tail k"]
    by (auto simp: tcp_contents_def rx_wf_def tcp_avail_count rx_put_def)
next
  case (3 k x)
  then have w: "recv_head k < TCP_RECV_BUF" "recv_tail k < TCP_RECV_BUF" by (simp_all add: rx_wf_def)
  note f = ht_count_facts [OF w]
  have ne: "(recv_head k + 1) mod TCP_RECV_BUF \<noteq> recv_tail k" using 3 f(4) by (simp add: tcp_contents_def tcp_avail_count)
  have c: "tcp_avail k < TCP_RECV_BUF" using f(1) by (simp add: tcp_avail_count)
  show ?case
    using ne w ring_contents_push [OF c, of "recv_buf k" "recv_tail k" x] f(2) f(5) [OF ne]
    by (simp add: rx_put_def rx_wf_def tcp_contents_def tcp_avail_count)
next
  case (4 k)
  then have "tcp_avail k = 0" by (metis length_ring_contents list.size(3) tcp_contents_def)
  then show ?case using 4 ht_count_facts(3) [of "recv_head k" TCP_RECV_BUF "recv_tail k"] by (simp add: rx_get_def rx_wf_def tcp_avail_count)
next
  case (5 k x xs)
  then have w: "recv_head k < TCP_RECV_BUF" "recv_tail k < TCP_RECV_BUF" by (simp_all add: rx_wf_def)
  note f = ht_count_facts [OF w]
  have c: "0 < tcp_avail k" using 5 by (metis length_greater_0_conv length_ring_contents list.distinct(1) tcp_contents_def)
  then have "recv_head k \<noteq> recv_tail k" "ht_count TCP_RECV_BUF (recv_head k) ((recv_tail k + 1) mod TCP_RECV_BUF) = tcp_avail k - 1"
    using f(3) f(6) [of 1] by (auto simp: tcp_avail_count)
  then show ?case
    using 5 w ring_contents_pop [OF c, of TCP_RECV_BUF "recv_buf k" "recv_tail k"]
    by (auto simp: rx_get_def rx_wf_def tcp_contents_def tcp_avail_count)
qed

lemma tcp_push_Cons: "tcp_push (b # bs) k = (case rx_put b k of None \<Rightarrow> k | Some k' \<Rightarrow> tcp_push bs k')"
  by (simp add: rx_put_def Let_def)

lemma tcp_push_contents:
  "rx_wf k \<Longrightarrow> rx_wf (tcp_push bs k) \<and>
    tcp_contents (tcp_push bs k) = tcp_contents k @ take (TCP_RECV_BUF - 1 - length (tcp_contents k)) bs"
proof (induction bs arbitrary: k)
  case (Cons b bs)
  show ?case
  proof (cases "rx_put b k")
    case None
    then have "length (tcp_contents k) = TCP_RECV_BUF - 1"
      using tcp_bytes.put_accepted [OF Cons.prems, of b] tcp_bytes.contents_bounded [OF Cons.prems]
      by (cases "length (tcp_contents k) < TCP_RECV_BUF - 1") auto
    then show ?thesis using Cons.prems None by (simp add: tcp_push_Cons del: tcp_push.simps)
  next
    case (Some k')
    have k': "rx_wf k'" "tcp_contents k' = tcp_contents k @ [b]" using tcp_bytes.put_SomeD [OF Cons.prems Some] by simp_all
    have "length (tcp_contents k) < TCP_RECV_BUF - 1"
      using tcp_bytes.contents_bounded [OF k'(1)] k'(2) by simp
    then obtain m where "TCP_RECV_BUF - 1 - length (tcp_contents k) = Suc m" "TCP_RECV_BUF - 1 - length (tcp_contents k') = m"
      using k'(2) by (cases "TCP_RECV_BUF - 1 - length (tcp_contents k)") auto
    then show ?thesis using Cons.IH [OF k'(1)] k'(2) Some by (simp add: tcp_push_Cons del: tcp_push.simps)
  qed
qed simp

lemma tcp_push_frame: "\<exists>f h. tcp_push bs k = k\<lparr> recv_buf := f, recv_head := h \<rparr>"
proof (induction bs arbitrary: k)
  case Nil
  have "tcp_push [] k = k\<lparr> recv_buf := recv_buf k, recv_head := recv_head k \<rparr>" by simp
  then show ?case by blast
next
  case (Cons b bs)
  let ?k = "k\<lparr> recv_buf := (recv_buf k)(recv_head k := b), recv_head := (recv_head k + 1) mod TCP_RECV_BUF \<rparr>"
  obtain f h where f: "tcp_push bs ?k = ?k\<lparr> recv_buf := f, recv_head := h \<rparr>" using Cons.IH by blast
  show ?case
  proof (cases "(recv_head k + 1) mod TCP_RECV_BUF = recv_tail k")
    case True
    then have "tcp_push (b # bs) k = k\<lparr> recv_buf := recv_buf k, recv_head := recv_head k \<rparr>" by simp
    then show ?thesis by blast
  next
    case False
    then have "tcp_push (b # bs) k = k\<lparr> recv_buf := f, recv_head := h \<rparr>" using f by simp
    then show ?thesis by blast
  qed
qed

lemma recv_copy_contents:
  assumes "rx_wf k" "copy \<le> tcp_avail k"
  shows "recv_copy copy k = take copy (tcp_contents k)"
proof -
  have t: "recv_tail k < TCP_RECV_BUF" "tcp_avail k < TCP_RECV_BUF"
    using assms(1) ht_count_facts(1) [of "recv_head k" TCP_RECV_BUF "recv_tail k"] by (auto simp: rx_wf_def tcp_avail_count)
  have "recv_copy copy k = ring_contents TCP_RECV_BUF (recv_buf k) (recv_tail k) copy"
    unfolding recv_copy_def Let_def ring_contents_def
    by (rule nth_equalityI) (use t assms(2) in \<open>auto simp: nth_append mod_if add.commute\<close>)
  then show ?thesis by (simp add: tcp_contents_def ring_take [OF assms(2)])
qed

lemma recv_take_ok:
  assumes "rx_wf (g_tcp_socks s i)" "recv_take i n s = (r, out, s')"
  shows "\<exists>t. s' = upd_tcp i (\<lambda>k. k\<lparr> recv_tail := t \<rparr>) s \<and> rx_wf (g_tcp_socks s' i) \<and>
    out = take n (tcp_contents (g_tcp_socks s i)) \<and> tcp_contents (g_tcp_socks s' i) = drop n (tcp_contents (g_tcp_socks s i)) \<and>
    r = int (length out)"
proof -
  let ?k = "g_tcp_socks s i"
  have w: "recv_head ?k < TCP_RECV_BUF" "recv_tail ?k < TCP_RECV_BUF" using assms(1) by (simp_all add: rx_wf_def)
  define c where "c = min (tcp_avail ?k) n"
  have len: "length (tcp_contents ?k) = tcp_avail ?k" by (simp add: tcp_contents_def)
  have cn: "take n (tcp_contents ?k) = take c (tcp_contents ?k)" "drop n (tcp_contents ?k) = drop c (tcp_contents ?k)"
    by (auto simp: c_def len min_def)
  have c: "c \<le> tcp_avail ?k" by (simp add: c_def)
  show ?thesis
  proof (cases "c = 0")
    case True
    then have "s' = s" "out = []" "r = 0" using assms(2) by (auto simp: recv_take_def Let_def c_def min_def split: if_splits)
    moreover have "s = upd_tcp i (\<lambda>k. k\<lparr> recv_tail := recv_tail ?k \<rparr>) s" by (simp add: upd_tcp_def)
    ultimately show ?thesis using assms(1) cn True by (intro exI [of _ "recv_tail ?k"]) simp
  next
    case False
    then have r: "s' = upd_tcp i (\<lambda>k. k\<lparr> recv_tail := (recv_tail ?k + c) mod TCP_RECV_BUF \<rparr>) s" "out = recv_copy c ?k" "r = int c"
      using assms(2) by (auto simp: recv_take_def Let_def c_def min_def upd_tcp_def split: if_splits)
    have "tcp_contents (g_tcp_socks s' i) = drop c (tcp_contents ?k)"
      using ht_count_facts(6) [OF w, of c] c ring_drop [OF c, of TCP_RECV_BUF "recv_buf ?k" "recv_tail ?k"] unfolding r(1)
      by (simp add: upd_tcp_def tcp_contents_def tcp_avail_count)
    moreover have "rx_wf (g_tcp_socks s' i)" using w r(1) by (simp add: upd_tcp_def rx_wf_def)
    ultimately show ?thesis using r recv_copy_contents [OF assms(1) c] cn c len by (intro exI) auto
  qed
qed

section \<open>What the environment keeps\<close>

text \<open>
  A predicate \<open>Q\<close> on the socket table that neither a poll nor a yield breaks survives every wait and every
  transmission.  With \<open>Q = (=) table\<close> this says that a quiet environment leaves the table alone.
\<close>

definition env_keeps :: "((nat \<Rightarrow> tcp_sock) \<Rightarrow> bool) \<Rightarrow> 'a tcp_net_scheme net_env \<Rightarrow> bool" where
  "env_keeps Q env \<longleftrightarrow> (\<forall>s. Q (g_tcp_socks s) \<longrightarrow> Q (g_tcp_socks (fst env s)) \<and> Q (g_tcp_socks (snd env s)))"

definition quiet :: "'a tcp_net_scheme net_env \<Rightarrow> bool" where
  "quiet env \<longleftrightarrow> (\<forall>s. g_tcp_socks (fst env s) = g_tcp_socks s \<and> g_tcp_socks (snd env s) = g_tcp_socks s)"

lemma quiet_keeps: "quiet env \<Longrightarrow> env_keeps Q env"
  by (simp add: quiet_def env_keeps_def)

lemma turn_keeps:
  assumes "env_keeps Q env" "Q (g_tcp_socks s)"
  shows "Q (g_tcp_socks (net_coop_yield env i (if b then net_poll env s else s)))"
  using assms by (auto simp: env_keeps_def net_coop_yield_def net_poll_def)

lemma net_spin_keeps:
  "env_keeps Q env \<Longrightarrow> Q (g_tcp_socks s) \<Longrightarrow> Q (g_tcp_socks (snd (net_spin env stop k n i s)))"
proof (induction n arbitrary: i s)
  case (Suc n)
  show ?case using Suc.IH [OF Suc.prems(1) turn_keeps [OF Suc.prems]] Suc.prems(2) by simp
qed simp

lemma recv_wait_keeps:
  "env_keeps Q env \<Longrightarrow> Q (g_tcp_socks s) \<Longrightarrow> Q (g_tcp_socks (snd (recv_wait env i n t s)))"
proof (induction n arbitrary: t s)
  case (Suc n)
  show ?case using Suc.IH [OF Suc.prems(1) turn_keeps [OF Suc.prems]] Suc.prems(2) by (simp add: Let_def)
qed simp

lemma ip_send_keeps:
  assumes "env_keeps Q env" "Q (g_tcp_socks s)"
  shows "Q (g_tcp_socks (ip_send env dst proto payload s))"
proof -
  have a: "Q (g_tcp_socks (arp_send_request ip s))" for ip
    using assms(2) by (simp add: arp_send_request_def iface_send_def Let_def)
  have "Q (g_tcp_socks (snd (ip_dst_mac env dst s)))"
    using net_spin_keeps [OF assms(1) a] assms(2) by (auto simp: ip_dst_mac_def Let_def split: option.split)
  then show ?thesis using assms(2) by (auto simp: ip_send_def iface_send_def Let_def split: prod.split)
qed

lemma tcp_send_segment_keeps:
  assumes "env_keeps Q env" "Q (g_tcp_socks s)" "\<And>f. Q f \<Longrightarrow> Q (f(i := advance_snd flags (length dat) (f i)))"
  shows "Q (g_tcp_socks (tcp_send_segment env i flags dat s))"
  using ip_send_keeps [OF assms(1,2)] assms(2,3) by (simp add: tcp_send_segment_def upd_tcp_def)

lemma quiet_send_segment:
  assumes "quiet env"
  shows "g_tcp_socks (tcp_send_segment env i flags dat s) =
    (if net_heap s (20 + length dat) then (g_tcp_socks s)(i := advance_snd flags (length dat) (g_tcp_socks s i)) else g_tcp_socks s)"
  using ip_send_keeps [OF quiet_keeps [OF assms], of "(=) (g_tcp_socks s)" s] by (simp add: tcp_send_segment_def upd_tcp_def)

text \<open>An acknowledgement changes no field but \<open>snd_nxt\<close>, and that only by nothing.\<close>

lemma advance_ack [simp]: "advance_snd TCP_ACK 0 k = k"
  by (simp add: advance_snd_def has_flag_def yam_consts)

lemma quiet_send_ack:
  "quiet env \<Longrightarrow> g_tcp_socks (tcp_send_segment env i TCP_ACK [] s) = g_tcp_socks s"
  by (simp add: quiet_send_segment)

lemma upd_tcp_socks [simp]: "g_tcp_socks (upd_tcp i f s) = (g_tcp_socks s)(i := f (g_tcp_socks s i))"
  by (simp add: upd_tcp_def)

end
