(* ===== verification/Tcp_Props.thy ===== *)
theory Tcp_Props
  imports Tcp
begin

text \<open>
  Properties of TCP: the stream a connection delivers, the handshake, and the invariant of the socket table with its
  consequence for passive opens.
\<close>

section \<open>The received stream\<close>

lemma find_listener_found: "tcp_find_sock rip rport lport s = None \<Longrightarrow> tcp_find_listener lport s = None"
  by (auto simp: tcp_find_sock_def tcp_find_listener_def scan_None_iff Let_def)

lemma passive_open_noop:
  "tcp_find_sock rip rport lport s = None \<Longrightarrow> tcp_passive_open env rip rport lport sq s = s"
  by (simp add: tcp_passive_open_def find_listener_found)








lemma contents_frame [simp]:
  "tcp_contents (k\<lparr> snd_una := u \<rparr>) = tcp_contents k" "tcp_contents (k\<lparr> rcv_nxt := x \<rparr>) = tcp_contents k"
  "rx_wf (k\<lparr> snd_una := u \<rparr>) = rx_wf k" "rx_wf (k\<lparr> rcv_nxt := x \<rparr>) = rx_wf k"
  by (simp_all add: tcp_contents_def tcp_avail_def rx_wf_def)





definition demo_tcp :: tcp_net where
  "demo_tcp = \<lparr> g_net_iface = g_net_iface demo_net, g_ip_id = 1, g_arp_cache = g_arp_cache demo_net, net_sent = [], net_heap = \<lambda>n. False,
     g_udp_socks = g_udp_socks demo_dgram, g_udp_cbs = g_udp_cbs demo_dgram, g_udp_cb_count = 0, g_udp_ephemeral = 49152,
     g_ping_got_reply = False, g_ping_expected_seq = 0,
     g_tcp_socks = \<lambda>i. zero_tcp_sock\<lparr> ts_active := (i = 0), ts_state := SOCK_STATE_ESTABLISHED, nonblocking := True \<rparr>,
     g_tcp_isn_counter = 0xDEAD0001, g_ephemeral_port = 32768 \<rparr>"


section \<open>The handshake\<close>



section \<open>The socket table\<close>

definition tcp_ok :: "tcp_sock \<Rightarrow> bool" where
  "tcp_ok k \<longleftrightarrow> rx_wf k \<and> accept_head k = 0 \<and> accept_tail k = 0 \<and>
     ts_state k \<in> {SOCK_STATE_CLOSED, SOCK_STATE_LISTEN, SOCK_STATE_SYN_SENT, SOCK_STATE_ESTABLISHED,
       SOCK_STATE_FIN_WAIT1, SOCK_STATE_FIN_WAIT2, SOCK_STATE_CLOSE_WAIT}"

definition table_ok :: "(nat \<Rightarrow> tcp_sock) \<Rightarrow> bool" where
  "table_ok f \<longleftrightarrow> (\<forall>i. tcp_ok (f i))"

lemma table_ok_upd [intro]: "table_ok f \<Longrightarrow> tcp_ok k \<Longrightarrow> table_ok (f(i := k))"
  by (simp add: table_ok_def)

lemma table_okD: "table_ok f \<Longrightarrow> tcp_ok (f i)"
  by (simp add: table_ok_def)

lemma tcp_ok_frame [simp]:
  "tcp_ok (advance_snd fl n k) = tcp_ok k" "tcp_ok (k\<lparr> nonblocking := b \<rparr>) = tcp_ok k" "tcp_ok (k\<lparr> ts_active := b \<rparr>) = tcp_ok k"
  "tcp_ok (k\<lparr> rcv_nxt := x \<rparr>) = tcp_ok k" "tcp_ok (k\<lparr> snd_una := x \<rparr>) = tcp_ok k"
  by (simp_all add: tcp_ok_def rx_wf_def advance_snd_def)

lemma tcp_ok_zero: "tcp_ok (zero_tcp_sock\<lparr> ts_active := b, ts_state := SOCK_STATE_CLOSED, ts_local_ip := x \<rparr>)" "tcp_ok zero_tcp_sock"
  by (simp_all add: tcp_ok_def zero_tcp_sock_def rx_wf_def)

lemma tcp_ok_push: "tcp_ok k \<Longrightarrow> tcp_ok (tcp_push bs k)"
  using tcp_push_frame [of bs k] tcp_push_contents [of k bs] by (auto simp: tcp_ok_def)

lemma tcp_ok_ack: "tcp_ok k \<Longrightarrow> tcp_ok (tcp_ack_stage a k)"
  by (auto simp: tcp_ok_def tcp_ack_stage_def Let_def rx_wf_def)

lemma send_segment_ok:
  "env_keeps table_ok env \<Longrightarrow> table_ok (g_tcp_socks s) \<Longrightarrow> table_ok (g_tcp_socks (tcp_send_segment env i flags dat s))"
  by (rule tcp_send_segment_keeps) (assumption | simp add: table_ok_def)+

lemma tcp_receive_ok:
  assumes k: "env_keeps table_ok env" and ok: "table_ok (g_tcp_socks s)"
  shows "table_ok (g_tcp_socks (tcp_receive env ip tcp dat s))"
proof -
  note send = send_segment_ok [OF k]
  have data: "table_ok (g_tcp_socks (tcp_data_stage env i sq dat t))" if t: "table_ok (g_tcp_socks t)" for i sq t
    using t tcp_ok_push [OF table_okD [OF t, of i], of dat]
    by (auto simp: tcp_data_stage_def intro!: send table_ok_upd)
  have fin: "table_ok (g_tcp_socks (tcp_fin_stage env i t))" if t: "table_ok (g_tcp_socks t)" for i t
  proof -
    let ?t = "tcp_send_segment env i TCP_ACK [] (upd_tcp i (\<lambda>k. k\<lparr> rcv_nxt := rcv_nxt k + 1 \<rparr>) t)"
    have "table_ok (g_tcp_socks ?t)" using t by (intro send) (simp add: table_ok_def)
    then show ?thesis using table_okD [of "g_tcp_socks ?t" i] by (auto simp: tcp_fin_stage_def Let_def tcp_ok_def rx_wf_def)
  qed
  have syn: "table_ok (g_tcp_socks (tcp_syn_ack env i sq a w s))" for i sq a w
    unfolding tcp_syn_ack_def using ok table_okD [OF ok, of i] by (intro send) (auto simp: tcp_ok_def rx_wf_def)
  have close: "table_ok (g_tcp_socks (upd_tcp i (\<lambda>k. k\<lparr> ts_state := SOCK_STATE_CLOSED, ts_active := False \<rparr>) t))"
    if t: "table_ok (g_tcp_socks t)" for i t using t table_okD [OF t, of i] by (auto simp: tcp_ok_def rx_wf_def)
  have ack: "table_ok (g_tcp_socks (if b then upd_tcp i (tcp_ack_stage a) s else s))" for b i a
    using ok tcp_ok_ack [OF table_okD [OF ok]] by auto
  show ?thesis
  proof (cases "tcp_find_sock (ip_src ip) (htons (load16 tcp 0)) (htons (load16 tcp 2)) s")
    case None
    then show ?thesis using ok by (simp add: tcp_receive_def Let_def passive_open_noop)
  next
    case (Some i)
    define s1 where "s1 = (if has_flag (tcp ! 13) TCP_ACK then upd_tcp i (tcp_ack_stage (htonl (load32 tcp 8))) s else s)"
    define s2 where "s2 = tcp_data_stage env i (htonl (load32 tcp 4)) dat s1"
    define s3 where "s3 = (if has_flag (tcp ! 13) TCP_FIN then tcp_fin_stage env i s2 else s2)"
    have "table_ok (g_tcp_socks s2)" unfolding s2_def s1_def by (rule data [OF ack])
    then have "table_ok (g_tcp_socks s3)" using fin by (simp add: s3_def)
    then show ?thesis
      unfolding tcp_receive_def Let_def Some option.case s1_def [symmetric] s2_def [symmetric] s3_def [symmetric]
      using syn close [of s3 i] by auto
  qed
qed

text \<open>
  The states reachable by the socket calls, arriving segments, and whatever polls and yields do.
\<close>

inductive tcp_reachable :: "tcp_net net_env \<Rightarrow> tcp_net \<Rightarrow> bool" for env where
  init: "tcp_reachable env (net_tcp_init s)"
| socket: "tcp_reachable env s \<Longrightarrow> tcp_reachable env (snd (tcp_socket s))"
| socket_nonblock: "tcp_reachable env s \<Longrightarrow> tcp_reachable env (snd (tcp_socket_nonblock s))"
| set_nonblock: "tcp_reachable env s \<Longrightarrow> tcp_reachable env (tcp_set_nonblock fd b s)"
| connect: "tcp_reachable env s \<Longrightarrow> tcp_reachable env (snd (tcp_connect env fd dst port s))"
| listen: "tcp_reachable env s \<Longrightarrow> tcp_reachable env (snd (tcp_listen fd port s))"
| accept: "tcp_reachable env s \<Longrightarrow> tcp_accept env fd s = Some (r, s') \<Longrightarrow> tcp_reachable env s'"
| send: "tcp_reachable env s \<Longrightarrow> tcp_reachable env (snd (tcp_send env fd dat s))"
| recv: "tcp_reachable env s \<Longrightarrow> tcp_reachable env (snd (snd (tcp_recv env fd n s)))"
| close: "tcp_reachable env s \<Longrightarrow> tcp_reachable env (snd (tcp_close env fd s))"
| receive: "tcp_reachable env s \<Longrightarrow> tcp_reachable env (tcp_receive env ip tcp dat s)"
| poll: "tcp_reachable env s \<Longrightarrow> tcp_reachable env (net_poll env s)"
| yield: "tcp_reachable env s \<Longrightarrow> tcp_reachable env (snd env s)"

lemma tcp_socket_ok: "table_ok (g_tcp_socks s) \<Longrightarrow> table_ok (g_tcp_socks (snd (tcp_socket s)))"
  by (auto simp: tcp_socket_def tcp_ok_zero split: option.split)

lemma tcp_connect_ok:
  assumes k: "env_keeps table_ok env" and ok: "table_ok (g_tcp_socks s)"
  shows "table_ok (g_tcp_socks (snd (tcp_connect env fd dst port s)))"
proof -
  define s1 where "s1 = upd_tcp (nat fd) (\<lambda>k. k\<lparr> ts_local_port := g_ephemeral_port s, ts_remote_ip := dst, ts_remote_port := port,
      snd_isn := g_tcp_isn_counter s, snd_una := g_tcp_isn_counter s, snd_nxt := g_tcp_isn_counter s,
      ts_state := SOCK_STATE_SYN_SENT, waiting_syn_ack := True \<rparr>)
    (s\<lparr> g_ephemeral_port := (if g_ephemeral_port s + 1 = 0 then 32768 else g_ephemeral_port s + 1), g_tcp_isn_counter := g_tcp_isn_counter s + 64521 \<rparr>)"
  define s2 where "s2 = tcp_send_segment env (nat fd) TCP_SYN [] s1"
  have "table_ok (g_tcp_socks s1)" using ok table_okD [OF ok, of "nat fd"] by (auto simp: s1_def tcp_ok_def rx_wf_def)
  then have s2: "table_ok (g_tcp_socks s2)" unfolding s2_def by (rule send_segment_ok [OF k])
  show ?thesis
    unfolding tcp_connect_def Let_def s1_def [symmetric] s2_def [symmetric] using ok s2 net_spin_keeps [OF k s2] by simp
qed

lemma recv_take_table: "table_ok (g_tcp_socks s) \<Longrightarrow> table_ok (g_tcp_socks (snd (snd (recv_take i n s))))"
  using table_okD [of "g_tcp_socks s" i] by (auto simp: recv_take_def Let_def tcp_ok_def rx_wf_def)

lemma tcp_recv_ok:
  assumes k: "env_keeps table_ok env" and ok: "table_ok (g_tcp_socks s)"
  shows "table_ok (g_tcp_socks (snd (snd (tcp_recv env fd n s))))"
  using ok recv_wait_keeps [OF k ok, of "nat fd" 1000000 0] recv_take_table
  by (auto simp: tcp_recv_def Let_def split: prod.split bool.split)

lemma tcp_close_ok:
  assumes k: "env_keeps table_ok env" and ok: "table_ok (g_tcp_socks s)"
  shows "table_ok (g_tcp_socks (snd (tcp_close env fd s)))"
proof -
  define s1 where "s1 = (if ts_state (g_tcp_socks s (nat fd)) = SOCK_STATE_ESTABLISHED \<or> ts_state (g_tcp_socks s (nat fd)) = SOCK_STATE_CLOSE_WAIT
     then tcp_send_segment env (nat fd) (TCP_FIN OR TCP_ACK) [] (upd_tcp (nat fd) (\<lambda>k. k\<lparr> ts_state := SOCK_STATE_FIN_WAIT1 \<rparr>) s) else s)"
  have "table_ok (g_tcp_socks (upd_tcp (nat fd) (\<lambda>k. k\<lparr> ts_state := SOCK_STATE_FIN_WAIT1 \<rparr>) s))"
    using ok table_okD [OF ok, of "nat fd"] by (auto simp: tcp_ok_def rx_wf_def)
  then have s1: "table_ok (g_tcp_socks s1)" using ok send_segment_ok [OF k] by (simp add: s1_def)
  define s2 where "s2 = snd (net_spin env (\<lambda>t. ts_state (g_tcp_socks t (nat fd)) = SOCK_STATE_CLOSED) 1000 1000000 0 s1)"
  have "table_ok (g_tcp_socks s2)" unfolding s2_def by (rule net_spin_keeps [OF k s1])
  then show ?thesis
    unfolding tcp_close_def Let_def s1_def [symmetric] s2_def [symmetric] using ok table_okD [of "g_tcp_socks s2" "nat fd"] by auto
qed

text \<open>The blocking accept does not return from such a table.\<close>

lemma accept_wait_None:
  assumes k: "env_keeps table_ok env" and ok: "table_ok (g_tcp_socks s)"
  shows "accept_wait env i spin s = None"
proof -
  have "env_keeps table_ok env \<longrightarrow> \<not> table_ok (g_tcp_socks s)" if "accept_wait env i spin s = Some t" for t
  proof (rule accept_wait.raw_induct [OF _ that])
    fix aw and env :: "'a tcp_net_scheme net_env" and i spin s t
    assume IH: "\<And>env i spin s t. aw env i spin s = Some t \<Longrightarrow> env_keeps table_ok env \<longrightarrow> \<not> table_ok (g_tcp_socks s)"
      and body: "(if accept_head (g_tcp_socks s i) \<noteq> accept_tail (g_tcp_socks s i) then Some s
        else aw env i ((spin + 1) mod 2 ^ 32) (net_coop_yield env spin (if spin mod 1000 = 0 then net_poll env s else s))) = Some t"
    show "env_keeps table_ok env \<longrightarrow> \<not> table_ok (g_tcp_socks s)"
    proof (intro impI notI)
      assume k: "env_keeps table_ok env" and ok: "table_ok (g_tcp_socks s)"
      have "accept_head (g_tcp_socks s i) = accept_tail (g_tcp_socks s i)" using table_okD [OF ok, of i] by (simp add: tcp_ok_def)
      then have "aw env i ((spin + 1) mod 2 ^ 32) (net_coop_yield env spin (if spin mod 1000 = 0 then net_poll env s else s)) = Some t"
        using body by simp
      from IH [OF this] show False using k turn_keeps [OF k ok, of spin "spin mod 1000 = 0"] by blast
    qed
  qed
  then show ?thesis using k ok by (cases "accept_wait env i spin s") auto
qed

lemma tcp_accept_fails:
  assumes k: "env_keeps table_ok env" and ok: "table_ok (g_tcp_socks s)"
  shows "tcp_accept env fd s \<in> {Some (- 1, s), Some (- EAGAIN, s), None}"
proof -
  have "accept_head (g_tcp_socks s (nat fd)) = accept_tail (g_tcp_socks s (nat fd))" using table_okD [OF ok, of "nat fd"] by (simp add: tcp_ok_def)
  then show ?thesis using accept_wait_None [OF k ok] by (simp add: tcp_accept_def Let_def)
qed

lemma tcp_reachable_ok:
  assumes k: "env_keeps table_ok env"
  shows "tcp_reachable env s \<Longrightarrow> table_ok (g_tcp_socks s)"
proof (induction rule: tcp_reachable.induct)
  case (init s)
  then show ?case by (simp add: net_tcp_init_def table_ok_def tcp_ok_zero)
next
  case (socket_nonblock s)
  then show ?case using tcp_socket_ok [of s] by (auto simp: tcp_socket_nonblock_def table_ok_def split: prod.split)
next
  case (set_nonblock s fd b)
  then show ?case by (simp add: tcp_set_nonblock_def table_ok_def)
next
  case (listen s fd port)
  then show ?case by (simp add: tcp_listen_def table_ok_def tcp_ok_def rx_wf_def)
next
  case (accept s fd r s')
  then show ?case using tcp_accept_fails [OF k accept.IH, of fd] by auto
next
  case (send s fd dat)
  then show ?case using send_segment_ok [OF k] by (simp add: tcp_send_def)
qed (use k in \<open>auto simp: tcp_socket_ok tcp_connect_ok tcp_recv_ok tcp_close_ok tcp_receive_ok net_poll_def env_keeps_def\<close>)

text \<open>C37. The socket table of every reachable state: the ring indices are in range, and a socket is never in the states
SYN_RCVD, CLOSING, LAST_ACK or TIME_WAIT; and no connection is ever accepted: tcp_accept fails, reports that it would
block, or waits for ever, because the lookup for an incoming SYN already finds the listening socket itself and the
code that creates a connection for it is unreachable.\<close>

theorem tcp_never_accepts:
  assumes "env_keeps table_ok env" "tcp_reachable env s"
  shows "(\<forall>i. recv_head (g_tcp_socks s i) < TCP_RECV_BUF \<and> recv_tail (g_tcp_socks s i) < TCP_RECV_BUF \<and>
      ts_state (g_tcp_socks s i) \<notin> {SOCK_STATE_SYN_RCVD, SOCK_STATE_CLOSING, SOCK_STATE_LAST_ACK, SOCK_STATE_TIME_WAIT}) \<and>
    tcp_accept env fd s \<in> {Some (- 1, s), Some (- EAGAIN, s), None}"
proof -
  have ok: "table_ok (g_tcp_socks s)" by (rule tcp_reachable_ok [OF assms])
  have "recv_head (g_tcp_socks s i) < TCP_RECV_BUF \<and> recv_tail (g_tcp_socks s i) < TCP_RECV_BUF \<and>
      ts_state (g_tcp_socks s i) \<notin> {SOCK_STATE_SYN_RCVD, SOCK_STATE_CLOSING, SOCK_STATE_LAST_ACK, SOCK_STATE_TIME_WAIT}" for i
    using table_okD [OF ok, of i] by (auto simp: tcp_ok_def rx_wf_def)
  then show ?thesis using tcp_accept_fails [OF assms(1) ok, of fd] by blast
qed

theorem tcp_never_accepts_witness:
  "tcp_accept (id, id) 0 (snd (tcp_listen 0 80 (snd (tcp_socket (net_tcp_init demo_tcp))))) = None"
proof -
  let ?s = "snd (tcp_listen 0 80 (snd (tcp_socket (net_tcp_init demo_tcp))))"
  have r: "tcp_reachable (id, id) ?s" by (intro tcp_reachable.intros)
  have e: "env_keeps table_ok (id, id)" by (simp add: env_keeps_def)
  have "scan (\<lambda>i. \<not> ts_active (g_tcp_socks (net_tcp_init demo_tcp) i)) 0 TCP_MAX_SOCKETS = Some 0"
    by (simp add: scan_Some_iff net_tcp_init_def zero_tcp_sock_def TCP_MAX_SOCKETS_def)
  then have "tcp_fd_ok 0 ?s \<and> \<not> nonblocking (g_tcp_socks ?s 0)"
    by (simp add: tcp_socket_def tcp_listen_def tcp_fd_ok_def TCP_MAX_SOCKETS_def net_tcp_init_def zero_tcp_sock_def)
  then have "tcp_accept (id, id) 0 ?s \<noteq> Some (- 1, ?s) \<and> tcp_accept (id, id) 0 ?s \<noteq> Some (- EAGAIN, ?s) \<or> tcp_accept (id, id) 0 ?s = None"
    using accept_wait_None [OF e tcp_reachable_ok [OF e r]] by (simp add: tcp_accept_def Let_def)
  then show ?thesis using tcp_never_accepts [OF e r, of 0] by auto
qed

end
