(* ===== verification/Net.thy ===== *)
theory Net
  imports Tcp_Props
begin

text \<open>
  The receive path of the network stack (\<^verbatim>\<open>net_receive\<close> and \<^verbatim>\<open>ip_receive\<close> of \<^verbatim>\<open>src/src/net/ip.c\<close>) over the ARP,
  ICMP, UDP and TCP handlers, and properties of two hosts on a link.
\<close>

section \<open>Receiving\<close>

type_synonym 's udp_cbs = "nat \<Rightarrow> u32 \<Rightarrow> u16 \<Rightarrow> u8 list \<Rightarrow> 's \<Rightarrow> 's"

definition ip_receive :: "'a tcp_net_scheme net_env \<Rightarrow> 'a tcp_net_scheme udp_cbs \<Rightarrow> u8 list \<Rightarrow> 'a tcp_net_scheme \<Rightarrow> 'a tcp_net_scheme" where
  "ip_receive env run_cb pkt s =
     (case ip_demux pkt of
        D_drop \<Rightarrow> s
      | D_icmp hdr payload \<Rightarrow> icmp_handle env hdr payload s
      | D_tcp hdr tcp dat \<Rightarrow> tcp_receive env hdr tcp dat s
      | D_udp hdr udp dat \<Rightarrow> udp_receive run_cb hdr udp dat s)"

definition net_receive :: "'a tcp_net_scheme net_env \<Rightarrow> 'a tcp_net_scheme udp_cbs \<Rightarrow> u8 list \<Rightarrow> 'a tcp_net_scheme \<Rightarrow> 'a tcp_net_scheme" where
  "net_receive env run_cb buf s =
     (case eth_demux buf of
        F_drop \<Rightarrow> s
      | F_arp payload \<Rightarrow> arp_handle payload s
      | F_ip payload \<Rightarrow> ip_receive env run_cb payload s)"

section \<open>The socket table\<close>

definition cbs_keep :: "((nat \<Rightarrow> tcp_sock) \<Rightarrow> bool) \<Rightarrow> 'a tcp_net_scheme udp_cbs \<Rightarrow> bool" where
  "cbs_keep Q run_cb \<longleftrightarrow> (\<forall>c ip p dat s. Q (g_tcp_socks s) \<longrightarrow> Q (g_tcp_socks (run_cb c ip p dat s)))"

lemma arp_handle_socks [simp]: "g_tcp_socks (arp_handle buf s) = g_tcp_socks s"
  by (simp add: arp_handle_def Let_def arp_cache_add_def iface_send_def)

lemma udp_receive_keeps:
  assumes "cbs_keep Q run_cb" "Q (g_tcp_socks s)"
  shows "Q (g_tcp_socks (udp_receive run_cb ip udp dat s))"
  using assms by (auto simp: udp_receive_def Let_def cbs_keep_def upd_udp_def split: option.split)

lemma icmp_handle_keeps:
  assumes "env_keeps Q env" "Q (g_tcp_socks s)"
  shows "Q (g_tcp_socks (icmp_handle env ip icmp s))"
  using assms ip_send_keeps [OF assms] by (auto simp: icmp_handle_def Let_def)

lemma net_receive_ok:
  assumes "env_keeps table_ok env" "cbs_keep table_ok run_cb" "table_ok (g_tcp_socks s)"
  shows "table_ok (g_tcp_socks (net_receive env run_cb buf s))"
  using assms tcp_receive_ok [OF assms(1,3)] udp_receive_keeps [OF assms(2,3)] icmp_handle_keeps [OF assms(1,3)]
  by (auto simp: net_receive_def ip_receive_def split: eth_dispatch.split ip_dispatch.split)

text \<open>C38. No frame breaks the socket table: whatever frames arrive, well formed or not, the receive path keeps the table
in shape: ring indices in range, empty accept queues, and only the states the stack uses.  So the hypothesis of the
socket layer about waiting holds of a driver that delivers frames: polls that receive any frames, whose handlers wait
in turn, keep the table as long as yields do.\<close>

theorem net_receive_keeps_table:
  assumes "env_keeps table_ok env" "cbs_keep table_ok run_cb"
  shows "env_keeps table_ok (\<lambda>s. fold (net_receive env run_cb) (frames s) s, snd env)"
proof -
  have "table_ok (g_tcp_socks (fold (net_receive env run_cb) fs s))" if "table_ok (g_tcp_socks s)" for fs s
    using that by (induction fs arbitrary: s) (simp_all add: net_receive_ok [OF assms])
  then show ?thesis using assms(1) by (simp add: env_keeps_def)
qed

section \<open>Two hosts\<close>

text \<open>The addresses a host needs before it can send without waiting: its own, and the next hop's in the ARP cache.\<close>

definition can_send :: "u32 \<Rightarrow> 'a tcp_net_scheme \<Rightarrow> bool" where
  "can_send dst s \<longleftrightarrow> is_up (g_net_iface s) \<and> has_send (g_net_iface s) \<and> (\<forall>n. net_heap s n) \<and> length (mac_addr (g_net_iface s)) = 6 \<and>
     (\<exists>mac. arp_lookup (ip_next_hop (g_net_iface s) dst) s = Some mac \<and> length mac = 6)"

lemma can_send_mac: "can_send dst s \<Longrightarrow> \<exists>mac. ip_dst_mac env dst s = (mac, s) \<and> length mac = 6"
  by (auto simp: can_send_def ip_dst_mac_def Let_def)

lemma can_send_cong:
  "can_send dst (s\<lparr> g_ping_got_reply := b, g_ping_expected_seq := q \<rparr>) = can_send dst s"
  by (simp add: can_send_def arp_lookup_def arp_cache_find_def)

text \<open>Such a host sends one frame, and what is in it reaches the receiver's ICMP handler.\<close>

lemma icmp_delivered:
  assumes "can_send dst s" "length payload \<le> 65515"
  shows "\<exists>frame pkt. ip_send env dst IP_PROTO_ICMP payload s = s\<lparr> g_ip_id := g_ip_id s + 1, net_sent := net_sent s @ [frame] \<rparr> \<and>
    ip_src pkt = ip_addr (g_net_iface s) \<and> (\<forall>env' cb r. net_receive env' cb frame r = icmp_handle env' pkt payload r)"
proof -
  obtain mac where mac: "ip_dst_mac env dst s = (mac, s)" "length mac = 6" using can_send_mac [OF assms(1)] by blast
  have up: "is_up (g_net_iface s)" "has_send (g_net_iface s)" "net_heap s n" "length (mac_addr (g_net_iface s)) = 6" for n
    using assms(1) by (simp_all add: can_send_def)
  obtain frame pkt where f: "net_sent (ip_send env dst IP_PROTO_ICMP payload s) = net_sent s @ [frame]"
    "eth_demux (frame @ []) = F_ip pkt" "ip_src pkt = ip_addr (g_net_iface s)" "ip_demux pkt = D_icmp pkt payload"
    using ip_send_delivers [OF up(1,2) up(3) assms(2) mac up(4), of IP_PROTO_ICMP "[]"] by blast
  have "\<exists>f. ip_send env dst IP_PROTO_ICMP payload s = s\<lparr> g_ip_id := g_ip_id s + 1, net_sent := net_sent s @ [f] \<rparr>"
    using up(1-3) mac by (simp add: ip_send_def Let_def iface_send_def) blast
  then have "ip_send env dst IP_PROTO_ICMP payload s = s\<lparr> g_ip_id := g_ip_id s + 1, net_sent := net_sent s @ [frame] \<rparr>"
    using f(1) by auto
  moreover have "net_receive env' cb frame r = icmp_handle env' pkt payload r" for env' cb and r :: "'b tcp_net_scheme"
    using f(2,4) by (simp add: net_receive_def ip_receive_def)
  ultimately show ?thesis using f(3) by blast
qed

text \<open>
  A link to a peer in state \<open>b\<close>: one poll delivers to the peer the frames sent so far, and brings back the frames
  the peer answers with.
\<close>

definition link :: "'a tcp_net_scheme udp_cbs \<Rightarrow> 'a tcp_net_scheme \<Rightarrow> 'a tcp_net_scheme \<Rightarrow> 'a tcp_net_scheme" where
  "link cb b s = fold (net_receive (id, id) cb) (net_sent (fold (net_receive (id, id) cb) (net_sent s) b)) s"


text \<open>The answer to an echo request.\<close>

lemma echo_reply_seq:
  assumes "length icmp \<ge> 8" "icmp ! 0 = ICMP_ECHO_REQUEST" "\<And>n. net_heap b n" "htons (load16 icmp 6) = sq"
  shows "\<exists>reply. icmp_handle env pkt icmp b = ip_send env (ip_src pkt) IP_PROTO_ICMP reply b \<and> length reply = length icmp \<and>
    (\<forall>env' p r. icmp_handle env' p reply r = (if sq = g_ping_expected_seq r then r\<lparr> g_ping_got_reply := True \<rparr> else r))"
proof -
  define rest where "rest = take 4 (drop 4 icmp) @ drop 8 icmp"
  have rest: "rest = drop 4 icmp" using append_take_drop_id [of 4 "drop 4 icmp"] by (simp add: rest_def)
  define c where "c = net_checksum ([ICMP_ECHO_REPLY, 0] @ store16 0 @ rest)"
  define reply where "reply = [ICMP_ECHO_REPLY, 0] @ store16 c @ rest"
  have len: "length reply = length icmp" using assms(1) rest by (simp add: reply_def)
  have "drop 4 reply = drop 4 icmp" by (simp add: reply_def rest)
  then have "reply ! (4 + k) = icmp ! (4 + k)" if "4 + k < length icmp" for k
    using that len by (metis nth_drop less_imp_le_nat le_add1 le_trans)
  from this [of 2] this [of 3] have "load16 reply 6 = load16 icmp 6" using assms(1) by (simp add: load16_def)
  moreover have "reply ! 0 = ICMP_ECHO_REPLY" by (simp add: reply_def)
  ultimately have "icmp_handle env' p reply r = (if sq = g_ping_expected_seq r then r\<lparr> g_ping_got_reply := True \<rparr> else r)" for env' p and r :: "'b dgram_scheme"
    using assms(1,4) len by (simp add: icmp_handle_def yam_consts)
  moreover have "icmp_handle env pkt icmp b = ip_send env (ip_src pkt) IP_PROTO_ICMP reply b"
    using assms(1-3) by (simp add: icmp_handle_def Let_def reply_def rest_def c_def)
  ultimately show ?thesis using len by blast
qed

text \<open>C39. A ping succeeds: two hosts on a link that know each other's hardware addresses, both up with memory to send; the
ping of one to the other is answered, and icmp_ping returns success at its second turn, provided the
timeout lets it take two.\<close>

theorem ping_succeeds:
  assumes "can_send dst a" "net_sent a = []" "can_send (ip_addr (g_net_iface a)) b" "net_sent b = []" "2 \<le> unat (timeout_ms * 100)"
  shows "fst (icmp_ping (link cb b, id) dst sq timeout_ms a) = 0"
proof -
  define a1 where "a1 = a\<lparr> g_ping_got_reply := False, g_ping_expected_seq := sq \<rparr>"
  define pkt where "pkt = (\<lambda>checksum. [ICMP_ECHO_REQUEST, 0] @ store16 checksum @ store16 (htons 0xCAFE) @ store16 (htons sq) @ map of_nat [8 ..< 40])"
  define req where "req = pkt (net_checksum (pkt 0))"
  have req: "length req = 40" "req ! 0 = ICMP_ECHO_REQUEST" by (simp_all add: req_def pkt_def)
  have sq: "htons (load16 req 6) = sq"
    using load16_at [of "[ICMP_ECHO_REQUEST, 0] @ store16 (net_checksum (pkt 0)) @ store16 (htons 0xCAFE)" 6 "htons sq" "map of_nat [8 ..< 40]"]
    by (simp add: req_def pkt_def)
  have a1: "can_send dst a1" "net_sent a1 = []" "g_net_iface a1 = g_net_iface a" using assms(1,2) by (simp_all add: a1_def can_send_cong)
  obtain f p where f: "ip_send (link cb b, id) dst IP_PROTO_ICMP req a1 = a1\<lparr> g_ip_id := g_ip_id a1 + 1, net_sent := net_sent a1 @ [f] \<rparr>"
    "ip_src p = ip_addr (g_net_iface a)" "\<And>env' cb r. net_receive env' cb f r = icmp_handle env' p req (r :: 'a tcp_net_scheme)"
    using icmp_delivered [OF a1(1), of req "(link cb b, id)"] unfolding a1(3) req(1) by auto
  define a2 where "a2 = a1\<lparr> g_ip_id := g_ip_id a1 + 1, net_sent := [f] \<rparr>"
  obtain reply where r: "icmp_handle (id, id) p req b = ip_send (id, id) (ip_src p) IP_PROTO_ICMP reply b" "length reply = 40"
    "\<And>env' p r. icmp_handle env' p reply r = (if sq = g_ping_expected_seq r then r\<lparr> g_ping_got_reply := True \<rparr> else (r :: 'a tcp_net_scheme))"
    using echo_reply_seq [of req b sq "(id, id)" p] req sq assms(3) by (auto simp: can_send_def)
  obtain g p' where g: "ip_send (id, id) (ip_src p) IP_PROTO_ICMP reply b = b\<lparr> g_ip_id := g_ip_id b + 1, net_sent := net_sent b @ [g] \<rparr>"
    "\<And>env' cb r. net_receive env' cb g r = icmp_handle env' p' reply (r :: 'a tcp_net_scheme)"
    using icmp_delivered [of "ip_src p" b reply "(id, id)"] assms(3) unfolding r(2) f(2) by auto
  have poll: "link cb b a2 = a2\<lparr> g_ping_got_reply := True \<rparr>"
    by (simp add: link_def f(3) r(1) g(1) assms(4) g(2) r(3)) (simp add: a2_def f(3) r(1,3) g assms(4) a1_def)
  obtain n where n: "unat (timeout_ms * 100) = Suc (Suc n)" using assms(5) by (metis add_2_eq_Suc le_Suc_ex)
  have "icmp_ping (link cb b, id) dst sq timeout_ms a =
      (case net_spin (link cb b, id) g_ping_got_reply 100 (Suc (Suc n)) 0 a2 of (got, s3) \<Rightarrow> (if got then 0 else - 1, s3))"
    using assms(1) f(1) [unfolded req_def pkt_def] a1(2)
    by (simp add: icmp_ping_def Let_def a1_def [symmetric] a2_def can_send_def n del: net_spin.simps)
  then show ?thesis
    by (simp add: net_coop_yield_def net_poll_def poll a2_def [THEN arg_cong [of _ _ g_ping_got_reply]] a1_def)
qed


section \<open>Address resolution\<close>

lemma arp_pkt_fields:
  fixes oper :: u16 and spa :: u32 and sha tha tpa :: "u8 list"
  assumes "length sha = 6" "length tha = 6" "length tpa = 4"
  defines "p \<equiv> arp_pkt oper sha spa tha tpa"
  shows "length p = 28" "htons (load16 p 0) = 1" "htons (load16 p 2) = ETH_TYPE_IP" "htons (load16 p 6) = oper" "take 6 (drop 8 p) = sha"
    "htonl (load32 p 14) = spa" "take 4 (drop 14 p) = store32 (htonl spa)" "load32 p 24 = load32 tpa 0"
proof -
  let ?b = "store16 (htons 1) @ store16 (htons ETH_TYPE_IP) @ [6, 4]"
  show "length p = 28" using assms by (simp add: p_def arp_pkt_def)
  show "htons (load16 p 0) = 1"
    using load16_at [of "[]" 0 "htons 1" "store16 (htons ETH_TYPE_IP) @ [6, 4] @ store16 (htons oper) @ sha @ store32 (htonl spa) @ tha @ tpa"]
    by (simp add: p_def arp_pkt_def)
  show "htons (load16 p 2) = ETH_TYPE_IP"
    using load16_at [of "store16 (htons 1)" 2 "htons ETH_TYPE_IP" "[6, 4] @ store16 (htons oper) @ sha @ store32 (htonl spa) @ tha @ tpa"]
    by (simp add: p_def arp_pkt_def)
  show "htons (load16 p 6) = oper"
    using load16_at [of ?b 6 "htons oper" "sha @ store32 (htonl spa) @ tha @ tpa"] by (simp add: p_def arp_pkt_def)
  show "take 6 (drop 8 p) = sha" "take 4 (drop 14 p) = store32 (htonl spa)" using assms by (simp_all add: p_def arp_pkt_def)
  show "htonl (load32 p 14) = spa"
    using load32_at [of "?b @ store16 (htons oper) @ sha" 14 "htonl spa" "tha @ tpa"] assms by (simp add: p_def arp_pkt_def)
  show "load32 p 24 = load32 tpa 0" using assms by (simp add: p_def arp_pkt_def load32_def nth_append numeral_2_eq_2)
qed

lemma arp_lookup_added:
  assumes "arp_wf s"
  shows "arp_lookup ip (arp_cache_add ip mac s) = Some mac"
proof -
  obtain n k where nk: "arp_pick (g_arp_cache s) ip ARP_CACHE_SIZE 0 0 = k" "k < ARP_CACHE_SIZE"
    "\<And>i. i < ARP_CACHE_SIZE \<Longrightarrow> ae_valid (g_arp_cache s i) \<longleftrightarrow> i < n" "\<And>j. j < n \<Longrightarrow> j \<noteq> k \<Longrightarrow> ae_ip (g_arp_cache s j) \<noteq> ip" "k \<le> n"
    using arp_slot [OF assms, of ip] by blast
  have "arp_cache_find ip (arp_cache_add ip mac s) = Some k"
    unfolding arp_cache_find_def scan_Some_iff using nk by (auto simp: arp_cache_add_def)
  then show ?thesis by (simp add: arp_lookup_def arp_cache_add_def nk(1))
qed

lemma arp_lookup_iface_send: "arp_lookup ip (iface_send h s) = arp_lookup ip s"
  by (simp add: arp_lookup_def arp_cache_find_def iface_send_def)

lemma net_receive_arp:
  assumes "length d = 6" "length m = 6"
  shows "net_receive env cb (eth_header d m ETH_TYPE_ARP @ p) s = arp_handle p s"
proof -
  have "load16 (eth_header d m ETH_TYPE_ARP @ p) 12 = htons ETH_TYPE_ARP"
    using load16_at [of "d @ m" 12 "htons ETH_TYPE_ARP" p] assms by (simp add: eth_header_def)
  then have "eth_demux (eth_header d m ETH_TYPE_ARP @ p) = F_arp p"
    using assms by (simp add: eth_demux_def eth_header_def Let_def yam_consts)
  then show ?thesis by (simp add: net_receive_def)
qed

text \<open>C40. Address resolution: the request one host broadcasts for the address of another makes the other learn the
asker's hardware address and answer with one frame, and the asker that receives the answer can resolve the address,
to the other's hardware address.\<close>

theorem arp_resolves:
  assumes "is_up (g_net_iface a)" "has_send (g_net_iface a)" "has_send (g_net_iface b)" "arp_wf a" "arp_wf b"
    and "length (mac_addr (g_net_iface a)) = 6" "length (mac_addr (g_net_iface b)) = 6" "net_sent b = []"
  shows "\<exists>f g. net_sent (arp_send_request (ip_addr (g_net_iface b)) a) = net_sent a @ [f] \<and>
    net_sent (net_receive env cb f b) = [g] \<and>
    arp_lookup (ip_addr (g_net_iface a)) (net_receive env cb f b) = Some (mac_addr (g_net_iface a)) \<and>
    arp_lookup (ip_addr (g_net_iface b)) (net_receive env cb g a) = Some (mac_addr (g_net_iface b))"
proof -
  let ?A = "g_net_iface a" and ?B = "g_net_iface b"
  define q where "q = arp_pkt 1 (mac_addr ?A) (ip_addr ?A) (replicate 6 0) (store32 (htonl (ip_addr ?B)))"
  define r where "r = arp_pkt 2 (mac_addr ?B) (ip_addr ?B) (mac_addr ?A) (store32 (htonl (ip_addr ?A)))"
  have t: "load32 (store32 x) 0 = x" for x using load32_at [of "[]" 0 x "[]"] by simp
  note q = arp_pkt_fields [where oper = 1 and sha = "mac_addr ?A" and spa = "ip_addr ?A" and tha = "replicate 6 0"
      and tpa = "store32 (htonl (ip_addr ?B))", folded q_def, OF assms(6)]
  note r = arp_pkt_fields [where oper = 2 and sha = "mac_addr ?B" and spa = "ip_addr ?B" and tha = "mac_addr ?A"
      and tpa = "store32 (htonl (ip_addr ?A))", folded r_def, OF assms(7,6)]
  define f where "f = eth_header (replicate 6 0xFF) (mac_addr ?A) ETH_TYPE_ARP @ q"
  define g where "g = eth_header (mac_addr ?A) (mac_addr ?B) ETH_TYPE_ARP @ r"
  have sent: "net_sent (arp_send_request (ip_addr ?B) a) = net_sent a @ [f]"
    using assms(1,2) by (simp add: arp_send_request_def Let_def iface_send_def f_def q_def)
  have ib: "g_net_iface (arp_cache_add ip mac b) = ?B" "net_sent (arp_cache_add ip mac b) = []" for ip mac
    using assms(8) by (simp_all add: arp_cache_add_def)
  have recv_b: "net_receive env cb f b = iface_send g (arp_cache_add (ip_addr ?A) (mac_addr ?A) b)"
    using q assms(3,6) t by (simp add: f_def net_receive_arp) (simp add: arp_handle_def Let_def ib g_def r_def)
  have "net_receive env cb g a = arp_cache_add (ip_addr ?B) (mac_addr ?B) a"
    using r assms(6,7) by (simp add: g_def net_receive_arp) (simp add: arp_handle_def Let_def)
  then have "arp_lookup (ip_addr ?B) (net_receive env cb g a) = Some (mac_addr ?B)" by (simp add: arp_lookup_added [OF assms(4)])
  moreover have "arp_lookup (ip_addr ?A) (net_receive env cb f b) = Some (mac_addr ?A)"
    by (simp add: recv_b arp_lookup_iface_send arp_lookup_added [OF assms(5)])
  moreover have "net_sent (net_receive env cb f b) = [g]" by (simp add: recv_b iface_send_def ib)
  ultimately show ?thesis using sent by blast
qed

section \<open>Witnesses\<close>

definition demo_host :: tcp_net where
  "demo_host = demo_tcp\<lparr> net_heap := \<lambda>n. True, g_arp_cache := \<lambda>i. \<lparr> ae_ip = 0x0A000002, ae_mac = [2, 0, 0, 0, 0, 1], ae_valid = i = 0, ae_age = 0 \<rparr> \<rparr>"

lemma demo_host_iface:
  "is_up (g_net_iface demo_host)" "has_send (g_net_iface demo_host)" "ip_addr (g_net_iface demo_host) = 0x0A000002"
  "mac_addr (g_net_iface demo_host) = [2, 0, 0, 0, 0, 1]" "net_sent demo_host = []" "net_heap demo_host n"
  by (simp_all add: demo_host_def demo_tcp_def demo_net_def)

lemma demo_host_can_send: "can_send 0x0A000002 demo_host"
proof -
  have "arp_cache_find 0x0A000002 demo_host = Some 0"
    by (simp add: arp_cache_find_def scan_Some_iff demo_host_def ARP_CACHE_SIZE_def)
  moreover have "ip_next_hop (g_net_iface demo_host) 0x0A000002 = 0x0A000002"
    by (simp add: ip_next_hop_def demo_host_def demo_tcp_def demo_net_def)
  ultimately show ?thesis by (simp add: can_send_def demo_host_iface arp_lookup_def) (simp add: demo_host_def)
qed

lemma demo_host_arp: "arp_wf demo_host"
  unfolding arp_wf_def by (auto simp: demo_host_def ARP_CACHE_SIZE_def intro!: exI [of _ 1] inj_onI)

theorem ping_succeeds_witness:
  "fst (icmp_ping (link (\<lambda>c ip p d s. s) demo_host, id) 0x0A000002 7 1 demo_host) = 0"
  using ping_succeeds [OF demo_host_can_send demo_host_iface(5) _ demo_host_iface(5), unfolded demo_host_iface(3), OF demo_host_can_send, of 1]
  by simp

theorem net_receive_keeps_table_witness:
  "table_ok (g_tcp_socks (fold (net_receive (id, id) (\<lambda>c ip p d s. s)) [[], replicate 60 0] (net_tcp_init demo_host)))"
proof -
  have e: "env_keeps table_ok (id, id)" by (simp add: env_keeps_def)
  have c: "cbs_keep table_ok (\<lambda>c ip p d s. s)" by (simp add: cbs_keep_def)
  have "table_ok (g_tcp_socks (net_tcp_init demo_host))" by (simp add: net_tcp_init_def table_ok_def tcp_ok_zero)
  then show ?thesis
    using net_receive_keeps_table [OF e c, of "\<lambda>s. [[], replicate 60 0]"] unfolding env_keeps_def by fastforce
qed

theorem arp_resolves_witness:
  "\<exists>f g. net_sent (arp_send_request 0x0A000002 demo_host) = [f] \<and>
     net_sent (net_receive (id, id) (\<lambda>c ip p d s. s) f demo_host) = [g] \<and>
     arp_lookup 0x0A000002 (net_receive (id, id) (\<lambda>c ip p d s. s) g demo_host) = Some [2, 0, 0, 0, 0, 1]"
  using arp_resolves [OF demo_host_iface(1,2,2) demo_host_arp demo_host_arp, of "(id, id)" "\<lambda>c ip p d s. s"]
  unfolding demo_host_iface by auto

end
