(* ===== verification/Spec2Isabelle.thy ===== *)
theory Spec2Isabelle
  imports Channel Vmm_Props Pipe BCache Net
begin

text \<open>
  YamKernel verification library (skeleton).
\<close>

end
